(* ===== verification/Http_Prelude.thy ===== *)
theory Http_Prelude
  imports Main "HOL-Library.Word" "HOL-Library.Monad_Syntax"
begin

text \<open>
  What every component of the model shares: the bytes of a C object, reads and writes that
  fault when they leave the object, assertions, and the contract of a forward scan.

  The C objects the server works on are arrays of bytes.  A byte is a HOL \<open>char\<close> (exactly 256
  values), its \<open>unsigned char\<close> value is \<open>ord\<close>, and an array is the list of its bytes.  A pointer
  into an array is an index.  A computation that reads or writes memory has a result in \<open>option\<close>:
  \<open>None\<close> is a run the C standard gives no meaning to (an access outside the object, a null
  pointer dereference) or one that stops at a failed \<open>assert\<close>; \<open>Some r\<close> is a run that ends with
  result \<open>r\<close>.  A theorem that a function yields \<open>Some\<close> is thus a memory safety theorem.
\<close>

named_theorems fault_simps \<open>when a memory access or an assertion succeeds\<close>
named_theorems scan_simps \<open>results of the cursor scans\<close>

subsection \<open>Bytes\<close>

type_synonym mem = "char list"

abbreviation CR :: char where "CR \<equiv> CHR 0x0D"
abbreviation LF :: char where "LF \<equiv> CHR 0x0A"
abbreviation SP :: char where "SP \<equiv> CHR 0x20"
abbreviation HTAB :: char where "HTAB \<equiv> CHR 0x09"
abbreviation NUL :: char where "NUL \<equiv> CHR 0x00"

abbreviation crlf :: string where "crlf \<equiv> [CR, LF]"

text \<open>The value of a byte as \<open>unsigned char\<close>.\<close>

definition ord :: "char \<Rightarrow> nat" where
  "ord c = of_char c"

lemma ord_lt_256 [simp]: "ord c < 256"
  unfolding ord_def by (rule nat_of_char_less_256)

lemma ord_inject [simp]: "ord c = ord d \<longleftrightarrow> c = d"
  by (simp add: ord_def)

subsection \<open>Memory accesses and assertions\<close>

definition require :: "bool \<Rightarrow> unit option" where
  "require b = (if b then Some () else None)"

definition rd :: "mem \<Rightarrow> nat \<Rightarrow> char option" where
  "rd m i = (if i < length m then Some (m ! i) else None)"

text \<open>The \<open>n\<close> bytes at \<open>i\<close>, all of which are read.\<close>

definition rd_range :: "mem \<Rightarrow> nat \<Rightarrow> nat \<Rightarrow> string option" where
  "rd_range m i n = (if i + n \<le> length m then Some (take n (drop i m)) else None)"

text \<open>\<open>memcpy (m + i, bs, length bs)\<close>: every byte written lies inside the object.\<close>

definition blit :: "mem \<Rightarrow> nat \<Rightarrow> string \<Rightarrow> mem option" where
  "blit m i bs = (if i + length bs \<le> length m
     then Some (take i m @ bs @ drop (i + length bs) m) else None)"

text \<open>\<open>memcmp (m + i, lit, n) == 0\<close>: all \<open>n\<close> bytes may be read, whatever the answer.\<close>

definition memcmp_eq :: "mem \<Rightarrow> nat \<Rightarrow> string \<Rightarrow> bool option" where
  "memcmp_eq m i lit = map_option (\<lambda>bs. bs = lit) (rd_range m i (length lit))"

text \<open>\<open>memchr (m + i, c, n)\<close>: bytes are read up to the first match; \<open>Some None\<close> is \<open>NULL\<close>.\<close>

fun memchr :: "mem \<Rightarrow> nat \<Rightarrow> char \<Rightarrow> nat \<Rightarrow> nat option option" where
  "memchr m i c 0 = Some None"
| "memchr m i c (Suc n) = do {
     x \<leftarrow> rd m i;
     if x = c then Some (Some i) else memchr m (Suc i) c n
   }"

text \<open>\<open>memmem\<close> on the bytes of the haystack: the offset of the first occurrence.\<close>

fun memmem :: "string \<Rightarrow> string \<Rightarrow> nat option" where
  "memmem [] needle = (if needle = [] then Some 0 else None)"
| "memmem (x # xs) needle =
     (if take (length needle) (x # xs) = needle then Some 0
      else map_option Suc (memmem xs needle))"

lemma require_True [simp]: "require True = Some ()"
  by (simp add: require_def)

lemma require_False [simp]: "require False = None"
  by (simp add: require_def)

lemma require_Some [simp]: "require b = Some u \<longleftrightarrow> b"
  by (simp add: require_def)

lemma require_eq [fault_simps]: "b \<Longrightarrow> require b = Some ()"
  by simp

lemma rd_in [fault_simps]: "i < length m \<Longrightarrow> rd m i = Some (m ! i)"
  by (simp add: rd_def)

lemma rd_eq_Some: "rd m i = Some c \<longleftrightarrow> i < length m \<and> m ! i = c"
  by (auto simp: rd_def)

lemma rd_range_in [fault_simps]: "i + n \<le> length m \<Longrightarrow> rd_range m i n = Some (take n (drop i m))"
  by (simp add: rd_range_def)

lemma rd_range_eq_Some:
  "rd_range m i n = Some bs \<longleftrightarrow> i + n \<le> length m \<and> take n (drop i m) = bs"
  by (auto simp: rd_range_def)

lemma blit_in [fault_simps]:
  "i + length bs \<le> length m \<Longrightarrow> blit m i bs = Some (take i m @ bs @ drop (i + length bs) m)"
  by (simp add: blit_def)

lemma blit_eq_Some:
  "blit m i bs = Some m' \<longleftrightarrow> i + length bs \<le> length m \<and> m' = take i m @ bs @ drop (i + length bs) m"
  by (auto simp: blit_def)

lemma length_blit: "blit m i bs = Some m' \<Longrightarrow> length m' = length m"
  by (auto simp: blit_eq_Some)

lemma take_blit: "blit m i bs = Some m' \<Longrightarrow> take (i + length bs) m' = take i m @ bs"
  by (auto simp: blit_eq_Some)

lemma memcmp_eq_in [fault_simps]:
  "i + length lit \<le> length m \<Longrightarrow> memcmp_eq m i lit = Some (take (length lit) (drop i m) = lit)"
  by (simp add: memcmp_eq_def rd_range_def)

subsection \<open>Searching\<close>

lemma memchr_in:
  "i + n \<le> length m \<Longrightarrow> \<exists>r. memchr m i c n = Some r \<and>
     (case r of None \<Rightarrow> (\<forall>k. i \<le> k \<and> k < i + n \<longrightarrow> m ! k \<noteq> c)
      | Some p \<Rightarrow> i \<le> p \<and> p < i + n \<and> m ! p = c \<and> (\<forall>k. i \<le> k \<and> k < p \<longrightarrow> m ! k \<noteq> c))"
proof (induction n arbitrary: i)
  case 0
  then show ?case by auto
next
  case (Suc n)
  show ?case
  proof (cases "m ! i = c")
    case True
    with Suc.prems show ?thesis by (auto simp: fault_simps)
  next
    case False
    from Suc.prems have "Suc i + n \<le> length m" by simp
    from Suc.IH [OF this] obtain r where r: "memchr m (Suc i) c n = Some r"
      "case r of None \<Rightarrow> (\<forall>k. Suc i \<le> k \<and> k < Suc i + n \<longrightarrow> m ! k \<noteq> c)
       | Some p \<Rightarrow> Suc i \<le> p \<and> p < Suc i + n \<and> m ! p = c \<and> (\<forall>k. Suc i \<le> k \<and> k < p \<longrightarrow> m ! k \<noteq> c)"
      by blast
    have *: "k = i \<or> Suc i \<le> k" if "i \<le> k" for k using that by arith
    have "memchr m i c (Suc n) = Some r"
      using Suc.prems False r(1) by (simp add: fault_simps)
    moreover have "case r of None \<Rightarrow> (\<forall>k. i \<le> k \<and> k < i + Suc n \<longrightarrow> m ! k \<noteq> c)
       | Some p \<Rightarrow> i \<le> p \<and> p < i + Suc n \<and> m ! p = c \<and> (\<forall>k. i \<le> k \<and> k < p \<longrightarrow> m ! k \<noteq> c)"
      using r(2) False by (cases r) (auto dest!: *)
    ultimately show ?thesis by blast
  qed
qed

lemma memchr_found:
  assumes "i \<le> p" "p < i + n" "i + n \<le> length m" "m ! p = c" "\<And>k. i \<le> k \<Longrightarrow> k < p \<Longrightarrow> m ! k \<noteq> c"
  shows "memchr m i c n = Some (Some p)"
proof -
  from memchr_in [OF assms(3), of c] obtain r where r: "memchr m i c n = Some r"
    and spec: "case r of None \<Rightarrow> (\<forall>k. i \<le> k \<and> k < i + n \<longrightarrow> m ! k \<noteq> c)
      | Some q \<Rightarrow> i \<le> q \<and> q < i + n \<and> m ! q = c \<and> (\<forall>k. i \<le> k \<and> k < q \<longrightarrow> m ! k \<noteq> c)"
    by blast
  from spec assms(1,2,4,5) have "r = Some p"
    by (cases r) (auto, metis linorder_neqE_nat)
  with r show ?thesis by simp
qed

lemma memchr_absent:
  assumes "i + n \<le> length m" "\<And>k. i \<le> k \<Longrightarrow> k < i + n \<Longrightarrow> m ! k \<noteq> c"
  shows "memchr m i c n = Some None"
proof -
  from memchr_in [OF assms(1), of c] obtain r where r: "memchr m i c n = Some r"
    and spec: "case r of None \<Rightarrow> True | Some p \<Rightarrow> i \<le> p \<and> p < i + n \<and> m ! p = c"
    by (force split: option.splits)
  from spec assms(2) have "r = None" by (cases r) auto
  with r show ?thesis by simp
qed

lemma memmem_Some:
  "memmem h n = Some p \<Longrightarrow> take (length n) (drop p h) = n \<and> p + length n \<le> length h
     \<and> (\<forall>k < p. take (length n) (drop k h) \<noteq> n)"
proof (induction h n arbitrary: p rule: memmem.induct)
  case (1 needle)
  then show ?case by (auto split: if_splits)
next
  case (2 x xs needle)
  show ?case
  proof (cases "take (length needle) (x # xs) = needle")
    case True
    then have "length (take (length needle) (x # xs)) = length needle" by simp
    then have "length needle \<le> length (x # xs)"
      by (metis length_take min.cobounded1)
    with True "2.prems" show ?thesis by simp
  next
    case False
    with "2.prems" obtain q where q: "memmem xs needle = Some q" "p = Suc q" by auto
    from "2.IH" [OF False q(1)] q(2) False show ?thesis
      by (auto simp: less_Suc_eq_0_disj)
  qed
qed

lemma memmem_None: "memmem h n = None \<Longrightarrow> k + length n \<le> length h \<Longrightarrow> take (length n) (drop k h) \<noteq> n"
proof (induction h n arbitrary: k rule: memmem.induct)
  case (1 needle)
  then show ?case by (auto split: if_splits)
next
  case (2 x xs needle)
  then show ?case by (cases k) (auto split: if_splits)
qed

lemma memmem_eqI:
  assumes "take (length n) (drop p h) = n" "p + length n \<le> length h"
    "\<And>k. k < p \<Longrightarrow> take (length n) (drop k h) \<noteq> n"
  shows "memmem h n = Some p"
proof (cases "memmem h n")
  case None
  with assms(1,2) show ?thesis using memmem_None by blast
next
  case (Some q)
  from memmem_Some [OF this] assms show ?thesis
    using Some by (metis linorder_neqE_nat)
qed

subsection \<open>Segments\<close>

text \<open>The bytes of a half-open range of indices.\<close>

definition seg :: "'a list \<Rightarrow> nat \<Rightarrow> nat \<Rightarrow> 'a list" where
  "seg m a b = take (b - a) (drop a m)"

lemma seg_empty [simp]: "b \<le> a \<Longrightarrow> seg m a b = []"
  by (simp add: seg_def)

lemma length_seg [simp]: "b \<le> length m \<Longrightarrow> length (seg m a b) = b - a"
  by (auto simp: seg_def)

lemma seg_Cons: "a < b \<Longrightarrow> b \<le> length m \<Longrightarrow> seg m a b = m ! a # seg m (Suc a) b"
  by (simp add: seg_def Cons_nth_drop_Suc [symmetric] take_Cons')

lemma seg_append: "a \<le> b \<Longrightarrow> b \<le> c \<Longrightarrow> seg m a c = seg m a b @ seg m b c"
proof -
  assume ab: "a \<le> b" and bc: "b \<le> c"
  then have "c - a = (b - a) + (c - b)" by simp
  moreover have "drop b m = drop (b - a) (drop a m)" using ab by simp
  ultimately show ?thesis unfolding seg_def by (simp only: take_add)
qed

lemma seg_span:
  assumes "a \<le> b" "b \<le> length m"
  shows "a + length (takeWhile P (seg m a b)) \<le> b"
    "seg m a (a + length (takeWhile P (seg m a b))) = takeWhile P (seg m a b)"
    "seg m (a + length (takeWhile P (seg m a b))) b = dropWhile P (seg m a b)"
proof -
  let ?w = "takeWhile P (seg m a b)"
  have "length (seg m a b) = b - a" using assms(2) by simp
  then show k: "a + length ?w \<le> b" using length_takeWhile_le [of P "seg m a b"] assms(1) by simp
  then have "seg m a (a + length ?w) = take (length ?w) (seg m a b)" by (simp add: seg_def min_absorb1)
  then show e: "seg m a (a + length ?w) = ?w" by (simp add: takeWhile_eq_take [symmetric])
  have "?w @ seg m (a + length ?w) b = ?w @ dropWhile P (seg m a b)"
    using seg_append [OF le_add1 k, of m] by (simp only: e takeWhile_dropWhile_id)
  then show "seg m (a + length ?w) b = dropWhile P (seg m a b)" by (simp only: same_append_eq)
qed

lemma nth_seg: "a + i < b \<Longrightarrow> b \<le> length m \<Longrightarrow> seg m a b ! i = m ! (a + i)"
  by (simp add: seg_def)

lemma seg_all [simp]: "seg m 0 (length m) = m"
  by (simp add: seg_def)

lemma seg_of_append [simp]: "seg (xs @ ys) (length xs) (length xs + n) = take n ys"
  by (simp add: seg_def)

lemma set_seg: "b \<le> length m \<Longrightarrow> set (seg m a b) = {m ! i | i. a \<le> i \<and> i < b}"
proof -
  assume b: "b \<le> length m"
  show ?thesis
  proof (intro equalityI subsetI)
    fix x assume "x \<in> set (seg m a b)"
    then obtain i where "i < b - a" "x = seg m a b ! i"
      using b by (auto simp: in_set_conv_nth)
    then have "x = m ! (a + i)" "a \<le> a + i" "a + i < b" using b by (simp_all add: nth_seg)
    then show "x \<in> {m ! i | i. a \<le> i \<and> i < b}" by blast
  next
    fix x assume "x \<in> {m ! i | i. a \<le> i \<and> i < b}"
    then obtain i where i: "x = m ! i" "a \<le> i" "i < b" by blast
    then have "x = seg m a b ! (i - a)" "i - a < length (seg m a b)"
      using b by (simp_all add: nth_seg)
    then show "x \<in> set (seg m a b)" by (metis nth_mem)
  qed
qed

lemma rd_seg: "a \<le> i \<Longrightarrow> i < b \<Longrightarrow> b \<le> length m \<Longrightarrow> m ! i \<in> set (seg m a b)"
  by (auto simp: set_seg)

lemma seg_eqI:
  "b \<le> length m \<Longrightarrow> length xs = b - a \<Longrightarrow> (\<And>i. i < b - a \<Longrightarrow> m ! (a + i) = xs ! i) \<Longrightarrow> seg m a b = xs"
  by (rule nth_equalityI) (auto simp: nth_seg)

text \<open>\<open>memchr\<close> on a segment splits it at the first match.\<close>

lemma memchr_seg:
  assumes "cur \<le> en" "en \<le> length m"
  obtains (absent) "memchr m cur c (en - cur) = Some None" "c \<notin> set (seg m cur en)"
  | (found) p where "memchr m cur c (en - cur) = Some (Some p)" "cur \<le> p" "p < en" "m ! p = c"
      "c \<notin> set (seg m cur p)" "seg m cur en = seg m cur p @ c # seg m (Suc p) en"
proof -
  from assms have en: "cur + (en - cur) \<le> length m" "cur + (en - cur) = en" by simp_all
  from memchr_in [OF en(1), of c] obtain r where r: "memchr m cur c (en - cur) = Some r"
    and spec: "case r of None \<Rightarrow> (\<forall>k. cur \<le> k \<and> k < en \<longrightarrow> m ! k \<noteq> c)
      | Some p \<Rightarrow> cur \<le> p \<and> p < en \<and> m ! p = c \<and> (\<forall>k. cur \<le> k \<and> k < p \<longrightarrow> m ! k \<noteq> c)"
    unfolding en by blast
  show thesis
  proof (cases r)
    case None
    with spec assms have "c \<notin> set (seg m cur en)" by (auto simp: set_seg)
    with r None show thesis by (intro absent) simp_all
  next
    case (Some p)
    with spec have p: "cur \<le> p" "p < en" "m ! p = c" "\<forall>k. cur \<le> k \<and> k < p \<longrightarrow> m ! k \<noteq> c" by auto
    moreover have "c \<notin> set (seg m cur p)" using p assms by (auto simp: set_seg)
    moreover have "seg m cur en = seg m cur p @ c # seg m (Suc p) en"
      using p assms seg_append [of cur p en m] seg_Cons [of p en m] by simp
    ultimately show thesis using r Some by (intro found) simp_all
  qed
qed

lemma first_split_unique:
  "x \<notin> set a \<Longrightarrow> x \<notin> set c \<Longrightarrow> a @ x # b = c @ x # d \<longleftrightarrow> a = c \<and> b = d"
proof (induction a arbitrary: c)
  case Nil
  then show ?case by (cases c) auto
next
  case (Cons y a)
  then show ?case by (cases c) auto
qed

end
