(* ===== verification/Net.thy ===== *)
theory Net
  imports Http_Prelude
begin

text \<open>
  The non-blocking socket of one connection, as the kernel shows it to \<open>recv\<close> and \<open>send\<close>, and the
  byte buffers they move bytes from and to (\<open>include/http_server/HttpBuffer.h\<close>).

  What the peer and the kernel will do is a script.  \<open>inbox\<close> lists what arrives: data in pieces, the
  end of the stream, an error of \<open>recv\<close>; when it is used up \<open>recv\<close> answers \<open>EAGAIN\<close>.  \<open>outbox\<close> lists
  how much each \<open>send\<close> may take, or its error; when it is used up \<open>send\<close> answers \<open>EAGAIN\<close>.  \<open>wire\<close> is
  what has been sent.  Every theorem quantifies over the scripts, hence over all such behaviours.
\<close>

datatype errno = EAGAIN | EINTR | EPIPE | ECONNRESET | EOTHER

datatype recv_event = Recv_Data string | Recv_Eof | Recv_Error errno

datatype send_event = Send_Room nat | Send_Error errno

record net =
  inbox :: "recv_event list"
  outbox :: "send_event list"
  wire :: string

text \<open>
  \<open>recv (fd, buf, space, 0)\<close> with \<open>space > 0\<close>: the bytes it stores (none at the end of the stream) or
  \<open>errno\<close>.  A piece larger than the room is delivered in parts.
\<close>

definition recv :: "net \<Rightarrow> nat \<Rightarrow> (string + errno) \<times> net" where
  "recv net space = (case inbox net of
     [] \<Rightarrow> (Inr EAGAIN, net)
   | Recv_Data bs # evs \<Rightarrow>
       if length bs \<le> space then (Inl bs, net\<lparr>inbox := evs\<rparr>)
       else (Inl (take space bs), net\<lparr>inbox := Recv_Data (drop space bs) # evs\<rparr>)
   | Recv_Eof # evs \<Rightarrow> (Inl [], net)
   | Recv_Error e # evs \<Rightarrow> (Inr e, net\<lparr>inbox := evs\<rparr>))"

text \<open>\<open>send (fd, bs, len, MSG_NOSIGNAL)\<close>: how many bytes the kernel took, or \<open>errno\<close>.\<close>

definition send :: "net \<Rightarrow> string \<Rightarrow> (nat + errno) \<times> net" where
  "send net bs = (case outbox net of
     [] \<Rightarrow> (Inr EAGAIN, net)
   | Send_Room k # evs \<Rightarrow>
       (Inl (min k (length bs)), net\<lparr>outbox := evs, wire := wire net @ take k bs\<rparr>)
   | Send_Error e # evs \<Rightarrow> (Inr e, net\<lparr>outbox := evs\<rparr>))"

text \<open>The work left in the inbox; every \<open>recv\<close> that does not end a read loop shrinks it.\<close>

fun event_size :: "recv_event \<Rightarrow> nat" where
  "event_size (Recv_Data bs) = Suc (length bs)"
| "event_size _ = 1"

definition inbox_size :: "net \<Rightarrow> nat" where
  "inbox_size net = sum_list (map event_size (inbox net))"

lemma recv_shrinks:
  "recv net space = (Inl (b # bs), net') \<Longrightarrow> inbox_size net' < inbox_size net"
  "recv net space = (Inr EINTR, net') \<Longrightarrow> inbox_size net' < inbox_size net"
  by (auto simp: recv_def inbox_size_def Cons_eq_append_conv split: list.splits recv_event.splits if_splits
      dest: arg_cong [where f = length])

lemma recv_room: "recv net space = (Inl bs, net') \<Longrightarrow> length bs \<le> space"
  by (auto simp: recv_def split: list.splits recv_event.splits if_splits)

lemma recv_keeps: "recv net space = (r, net') \<Longrightarrow> outbox net' = outbox net \<and> wire net' = wire net"
  by (auto simp: recv_def split: list.splits recv_event.splits if_splits)

text \<open>The data still to come, in order, before the stream ends.\<close>

fun arriving :: "recv_event list \<Rightarrow> string" where
  "arriving [] = []"
| "arriving (Recv_Data bs # evs) = bs @ arriving evs"
| "arriving (Recv_Error e # evs) = arriving evs"
| "arriving (Recv_Eof # evs) = []"

text \<open>The socket handed over \<open>bs\<close> and nothing was sent meanwhile.\<close>

definition received_from :: "net \<Rightarrow> string \<Rightarrow> net \<Rightarrow> bool" where
  "received_from net bs net' \<longleftrightarrow> arriving (inbox net) = bs @ arriving (inbox net')
     \<and> outbox net' = outbox net \<and> wire net' = wire net"

lemma received_from_refl [simp]: "received_from net [] net"
  by (simp add: received_from_def)

lemma received_from_append:
  "received_from a xs b \<Longrightarrow> received_from b ys c \<Longrightarrow> received_from a (xs @ ys) c"
  by (simp add: received_from_def)

lemma recv_received:
  "recv net space = (Inl bs, net') \<Longrightarrow> received_from net bs net'"
  "recv net space = (Inr e, net') \<Longrightarrow> received_from net [] net'"
  by (auto simp: recv_def received_from_def split: list.splits recv_event.splits if_splits)

text \<open>What one turn of a read loop can meet.\<close>

lemma recv_cases:
  obtains (stopped) r net' where "recv net space = (r, net')" "r = Inl [] \<or> (\<exists>e. r = Inr e \<and> e \<noteq> EINTR)" "received_from net [] net'"
  | (interrupted) net' where "recv net space = (Inr EINTR, net')" "inbox_size net' < inbox_size net" "received_from net [] net'"
  | (arrived) b bs net' where "recv net space = (Inl (b # bs), net')" "inbox_size net' < inbox_size net"
      "received_from net (b # bs) net'" "length (b # bs) \<le> space"
proof -
  obtain r net' where r: "recv net space = (r, net')" by fastforce
  show ?thesis
  proof (cases r)
    case (Inl bs)
    then show ?thesis using r that recv_shrinks(1) recv_received(1) recv_room by (cases bs) blast+
  next
    case (Inr e)
    then show ?thesis using r that recv_shrinks(2) recv_received(2) by (cases "e = EINTR") blast+
  qed
qed

lemma send_outcome:
  assumes "send net bs = (r, net')"
  shows "inbox net' = inbox net"
    "r = Inl k \<Longrightarrow> k \<le> length bs \<and> wire net' = wire net @ take k bs"
    "r = Inr e \<Longrightarrow> wire net' = wire net"
  using assms by (auto simp: send_def min_def split: list.splits send_event.splits if_splits)

subsection \<open>Buffers\<close>

text \<open>\<open>hb_bytes\<close> is the storage \<open>buffer\<close> points at, \<open>None\<close> for a null pointer.\<close>

record http_buffer =
  hb_cap :: nat
  hb_size :: nat
  hb_bytes :: "mem option"

text \<open>A buffer whose storage is as large as its capacity.\<close>

definition wf_buffer :: "http_buffer \<Rightarrow> bool" where
  "wf_buffer b \<longleftrightarrow> (\<exists>m. hb_bytes b = Some m \<and> length m = hb_cap b) \<and> hb_size b \<le> hb_cap b"

definition live :: "http_buffer \<Rightarrow> string" where
  "live b = (case hb_bytes b of None \<Rightarrow> [] | Some m \<Rightarrow> take (hb_size b) m)"

lemma wf_bufferE:
  assumes "wf_buffer b"
  obtains m where "hb_bytes b = Some m" "length m = hb_cap b" "hb_size b \<le> hb_cap b" "live b = take (hb_size b) m"
  using assms by (auto simp: wf_buffer_def live_def)

lemma length_live: "wf_buffer b \<Longrightarrow> length (live b) = hb_size b"
  by (auto simp: wf_buffer_def live_def)

text \<open>What \<open>recv\<close> does to a buffer: the bytes go to the end of the live ones.\<close>

definition buffer_append :: "http_buffer \<Rightarrow> string \<Rightarrow> http_buffer option" where
  "buffer_append b bs = do {
     m \<leftarrow> hb_bytes b;
     m \<leftarrow> blit m (hb_size b) bs;
     Some (b\<lparr>hb_bytes := Some m, hb_size := hb_size b + length bs\<rparr>)
   }"

lemma buffer_append_eq:
  assumes "wf_buffer b" "hb_size b + length bs \<le> hb_cap b"
  obtains b' where "buffer_append b bs = Some b'" "wf_buffer b'" "live b' = live b @ bs"
    "hb_cap b' = hb_cap b" "hb_size b' = hb_size b + length bs"
proof -
  obtain m where m: "hb_bytes b = Some m" "length m = hb_cap b" "hb_size b \<le> hb_cap b" "live b = take (hb_size b) m"
    using assms(1) by (rule wf_bufferE)
  define b' where "b' = b\<lparr>hb_bytes := Some (take (hb_size b) m @ bs @ drop (hb_size b + length bs) m),
      hb_size := hb_size b + length bs\<rparr>"
  have "buffer_append b bs = Some b'"
    using m assms(2) by (simp add: buffer_append_def fault_simps b'_def)
  moreover have "wf_buffer b'" "live b' = live b @ bs"
    using m assms(2) by (simp_all add: b'_def wf_buffer_def live_def)
  ultimately show thesis by (intro that [of b']) (simp_all add: b'_def)
qed

end
