(* ===== verification/World.thy ===== *)
theory World
  imports Net "HOL-Library.AList"
begin

text \<open>
  What the server sees of the operating system besides its sockets: the clock, the file system, the
  open files, the outcomes of \<open>malloc\<close>, and a part of its own for the code of the handlers.  The
  outcomes the system chooses are part of the state, so a theorem about every world is a theorem
  about all of them.
\<close>

text \<open>
  A file as \<open>stat\<close> and \<open>fread\<close> show it; reading a broken file fails.  \<open>w_read_errors\<close> are the errors the
  next calls of \<open>read\<close> report before one succeeds, \<open>w_dirs\<close> lists the entries of the directories
  (the flag tells a regular file), \<open>w_mallocs\<close> the outcomes of the next allocations, and \<open>w_slack\<close> how
  many bytes beyond the request an allocated block has: a write there goes unnoticed, a write
  further out is a fault.  With \<open>w_slack = 0\<close> every write outside the requested bytes is one.
\<close>

record fs_file =
  f_mtime :: int
  f_bytes :: string
  f_regular :: bool
  f_broken :: bool

record 'u world =
  w_clock :: "int option"
  w_files :: "(string \<times> fs_file) list"
  w_fds :: "(nat \<times> fs_file) list"
  w_fd_limit :: nat
  w_read_errors :: "errno list"
  w_dirs :: "(string \<times> (string \<times> bool) list) list"
  w_mallocs :: "bool list"
  w_slack :: nat
  w_user :: 'u

text \<open>\<open>time (NULL)\<close>, which may fail.\<close>

definition time_now :: "'u world \<Rightarrow> int option" where
  "time_now w = w_clock w"

text \<open>\<open>malloc\<close>: whether the next allocation succeeds.\<close>

definition malloc_ok :: "'u world \<Rightarrow> bool \<times> 'u world" where
  "malloc_ok w = (case w_mallocs w of [] \<Rightarrow> (True, w) | b # bs \<Rightarrow> (b, w\<lparr>w_mallocs := bs\<rparr>))"

text \<open>All coming allocations succeed.\<close>

definition memory_granted :: "'u world \<Rightarrow> bool" where
  "memory_granted w \<longleftrightarrow> (\<forall>b \<in> set (w_mallocs w). b)"

lemma malloc_keeps_granted: "memory_granted w \<Longrightarrow> malloc_ok w = (b, w') \<Longrightarrow> b \<and> memory_granted w'"
  by (cases "w_mallocs w") (auto simp: malloc_ok_def memory_granted_def)

lemma malloc_granted:
  assumes "memory_granted w"
  obtains w' where "malloc_ok w = (True, w')" "memory_granted w'"
  using malloc_keeps_granted [OF assms] by (cases "malloc_ok w") simp

record stat_buf =
  st_mtime :: int
  st_size :: nat

text \<open>\<open>stat\<close>, \<open>None\<close> for a non-zero result.\<close>

definition stat_path :: "'u world \<Rightarrow> string \<Rightarrow> stat_buf option" where
  "stat_path w path = map_option (\<lambda>f. \<lparr> st_mtime = f_mtime f, st_size = length (f_bytes f) \<rparr>)
     (map_of (w_files w) path)"

text \<open>
  \<open>open (path, O_RDONLY)\<close>: a descriptor above the standard ones that is not in use, with the bytes
  still to read; \<open>read\<close> and \<open>close\<close> on it.
\<close>

definition free_fd :: "(nat \<times> fs_file) list \<Rightarrow> nat" where
  "free_fd fds = Suc (fold max (map fst fds) 2)"

definition open_file :: "'u world \<Rightarrow> string \<Rightarrow> nat option \<times> 'u world" where
  "open_file w path = (case map_of (w_files w) path of
     None \<Rightarrow> (None, w)
   | Some f \<Rightarrow> if w_fd_limit w \<le> length (w_fds w) then (None, w)
       else let fd = free_fd (w_fds w) in (Some fd, w\<lparr>w_fds := (fd, f) # w_fds w\<rparr>))"

definition read_file :: "'u world \<Rightarrow> nat \<Rightarrow> nat \<Rightarrow> (string + errno) \<times> 'u world" where
  "read_file w fd cap = (case w_read_errors w of
     e # es \<Rightarrow> (Inr e, w\<lparr>w_read_errors := es\<rparr>)
   | [] \<Rightarrow> (case map_of (w_fds w) fd of
         None \<Rightarrow> (Inr EOTHER, w)
       | Some f \<Rightarrow> if f_broken f then (Inr EOTHER, w)
           else (Inl (take cap (f_bytes f)),
                 w\<lparr>w_fds := AList.update fd (f\<lparr>f_bytes := drop cap (f_bytes f)\<rparr>) (w_fds w)\<rparr>)))"

definition close_file :: "'u world \<Rightarrow> nat \<Rightarrow> 'u world" where
  "close_file w fd = w\<lparr>w_fds := AList.delete fd (w_fds w)\<rparr>"

lemma free_fd_fresh: "map_of fds (free_fd fds) = None"
proof -
  have fold_max: "Suc (fold max ns k) > n" if "n \<in> set ns \<or> n \<le> k" for ns and n k :: nat
    using that
  proof (induction ns arbitrary: k)
    case (Cons m ns)
    have "n \<in> set ns \<or> n \<le> max m k" using Cons.prems by auto
    from Cons.IH [OF this] show ?case by simp
  qed simp
  have "n < free_fd fds" if "n \<in> fst ` set fds" for n
    using that unfolding free_fd_def by (intro fold_max) simp
  then have "free_fd fds \<notin> fst ` set fds" by blast
  then show ?thesis by (simp add: map_of_eq_None_iff)
qed

lemma read_file_room: "read_file w fd cap = (Inl bs, w') \<Longrightarrow> length bs \<le> cap"
  by (auto simp: read_file_def split: option.splits if_splits list.splits)

text \<open>A small world for examples.\<close>

definition demo_world :: "unit world" where
  "demo_world = \<lparr> w_clock = Some 1000000000, w_files = [], w_fds = [], w_fd_limit = 8,
     w_read_errors = [], w_dirs = [], w_mallocs = [], w_slack = 0, w_user = () \<rparr>"

end
