(* ===== verification/Http_Config.thy ===== *)
theory Http_Config
  imports Http_Prelude
begin

text \<open>
  \<open>include/http_server/Config.h\<close>: the compile-time limits.  Every macro there is
  \<open>#ifndef\<close>-guarded, so a build may choose any values; the model passes them as a record and its
  theorems hold for every record that meets the stated conditions.  The two profiles the header
  spells out are the records \<open>posix_config\<close> (the defaults) and \<open>esp32_config\<close>
  (\<open>-DHTTP_PROFILE_ESP32\<close>).
\<close>

record config =
  max_path_len :: nat
  max_query_len :: nat
  max_request_len :: nat
  version_len :: nat
  max_headers :: nat
  max_header_key_len :: nat
  max_header_value_len :: nat
  max_body_len :: nat
  max_dechunk_size :: nat
  response_buffer_size :: nat
  stream_chunk_size :: nat
  max_requests :: nat
  max_connections :: nat
  arena_slack :: nat
  bucket_count :: nat

definition posix_config :: config where
  "posix_config = \<lparr>
     max_path_len = 2048, max_query_len = 512, max_request_len = 8 * 1024 * 1024,
     version_len = 8, max_headers = 32, max_header_key_len = 64, max_header_value_len = 256,
     max_body_len = 1 * 1024 * 1000, max_dechunk_size = 16 * 1024,
     response_buffer_size = 8 * 1024, stream_chunk_size = 4 * 1024, max_requests = 100,
     max_connections = 4, arena_slack = 8 * 1024, bucket_count = 1024 \<rparr>"

definition esp32_config :: config where
  "esp32_config = \<lparr>
     max_path_len = 256, max_query_len = 128, max_request_len = 4 * 1024,
     version_len = 8, max_headers = 16, max_header_key_len = 48, max_header_value_len = 128,
     max_body_len = 4 * 1024, max_dechunk_size = 2 * 1024,
     response_buffer_size = 4 * 1024, stream_chunk_size = 1 * 1024, max_requests = 100,
     max_connections = 4, arena_slack = 4 * 1024, bucket_count = 64 \<rparr>"

text \<open>\<open>HTTP_CONN_ARENA_SIZE\<close>: the backing bytes of one connection.\<close>

definition conn_arena_size :: "config \<Rightarrow> nat" where
  "conn_arena_size cfg =
     max_request_len cfg + response_buffer_size cfg + max_dechunk_size cfg + arena_slack cfg"

text \<open>
  What the code takes for granted of its limits: the protocol-fixed version length, a request
  buffer that holds the longest method name and a response buffer that holds every canned error
  response, arrays with room for a terminator, limits that leave the \<open>size_t\<close> arithmetic of the
  number parser in range, and a connection that may serve a request.
\<close>

definition wf_config :: "config \<Rightarrow> bool" where
  "wf_config cfg \<longleftrightarrow>
     version_len cfg = 8 \<and> 2 \<le> max_path_len cfg \<and> 2 \<le> max_query_len cfg
   \<and> 8 \<le> max_request_len cfg \<and> 1 \<le> max_header_key_len cfg \<and> 1 \<le> max_header_value_len cfg
   \<and> 15 \<le> max_body_len cfg \<and> max_body_len cfg < 2 ^ 32
   \<and> 256 \<le> response_buffer_size cfg \<and> 1 \<le> stream_chunk_size cfg \<and> 1 \<le> max_requests cfg
   \<and> 1 \<le> max_dechunk_size cfg \<and> 0 < bucket_count cfg \<and> conn_arena_size cfg < 2 ^ 32"

lemma wf_posix_config [simp]: "wf_config posix_config"
  by (simp add: wf_config_def posix_config_def conn_arena_size_def)

lemma wf_esp32_config [simp]: "wf_config esp32_config"
  by (simp add: wf_config_def esp32_config_def conn_arena_size_def)

lemma wf_configD [dest]:
  assumes "wf_config cfg"
  shows "version_len cfg = 8" "2 \<le> max_path_len cfg" "2 \<le> max_query_len cfg"
    "8 \<le> max_request_len cfg" "1 \<le> max_header_key_len cfg" "1 \<le> max_header_value_len cfg"
    "15 \<le> max_body_len cfg" "max_body_len cfg < 2 ^ 32" "256 \<le> response_buffer_size cfg"
    "1 \<le> stream_chunk_size cfg" "1 \<le> max_requests cfg" "1 \<le> max_dechunk_size cfg"
    "0 < bucket_count cfg" "conn_arena_size cfg < 2 ^ 32"
  using assms by (simp_all add: wf_config_def)

end
