(* ===== verification/Dictionary.thy ===== *)
theory Dictionary
  imports World Http_Config
begin

text \<open>
  \<open>src/Dictionary.c\<close>: the hash map of the content registry, an array of \<open>HTTP_BUCKET\<close> linked lists.
  A list of nodes is the list of its key/value pairs, in the order of the \<open>next\<close> pointers; a value is
  a non-null pointer.  \<open>finite_map\<close> is the contract its clients use; the dictionary is shown to meet it.
\<close>

subsection \<open>The hash\<close>

text \<open>FNV-1a on 64 bits.\<close>

definition key_hash_step :: "64 word \<Rightarrow> char \<Rightarrow> 64 word" where
  "key_hash_step hash c = xor hash (word_of_nat (ord c)) * 1099511628211"

fun key_hash_loop :: "64 word \<Rightarrow> string \<Rightarrow> 64 word" where
  "key_hash_loop hash [] = hash"
| "key_hash_loop hash (c # cs) = key_hash_loop (key_hash_step hash c) cs"

definition key_hash :: "string \<Rightarrow> 64 word" where
  "key_hash cs = key_hash_loop 1469598103934665603 cs"

subsection \<open>The operations\<close>

text \<open>A key is the copy \<open>strdup\<close> made, \<open>None\<close> the \<open>NULL\<close> it returns without memory.\<close>

type_synonym 'v bucket = "(string option \<times> 'v) list"
type_synonym 'v dictionary = "'v bucket list"

definition bucket_index :: "config \<Rightarrow> string \<Rightarrow> nat" where
  "bucket_index cfg key = unat (key_hash key) mod bucket_count cfg"

text \<open>
  The search loop of \<open>dict_insert\<close>: the value is replaced in the node that has the key.  The outer
  \<open>None\<close> is a fault, \<open>strcmp\<close> on a key that is \<open>NULL\<close>.
\<close>

fun bucket_replace :: "'v bucket \<Rightarrow> string \<Rightarrow> 'v \<Rightarrow> ('v \<times> 'v bucket) option option" where
  "bucket_replace [] key value = Some None"
| "bucket_replace ((k, v) # b) key value = do {
     name \<leftarrow> k;
     if name = key then Some (Some (v, (k, value) # b))
     else map_option (map_option (\<lambda>(old, b). (old, (k, v) # b))) (bucket_replace b key value)
   }"

text \<open>
  \<open>dict_insert\<close>: its result, the dictionary afterwards, and the value it has freed, if any.  A new key
  goes to the head of its list.  Neither of its two allocations is checked: when \<open>strdup\<close> fails the node
  gets the key \<open>NULL\<close>, and when \<open>malloc\<close> fails in \<open>Kvp_node_init\<close> the write to the node is a fault.
\<close>

definition dict_insert :: "config \<Rightarrow> 'v dictionary \<Rightarrow> string \<Rightarrow> 'v \<Rightarrow> 'u world
    \<Rightarrow> (int \<times> 'v dictionary \<times> 'v option \<times> 'u world) option" where
  "dict_insert cfg d key value w = (let index = bucket_index cfg key in do {
     require (index < length d);
     found \<leftarrow> bucket_replace (d ! index) key value;
     case found of
       Some (old, b) \<Rightarrow> Some (1, d[index := b], Some old, w)
     | None \<Rightarrow> (let (copied, w) = malloc_ok w; (node, w) = malloc_ok w in do {
         require node;
         Some (1, d[index := (if copied then Some key else None, value) # d ! index], None, w)
       })
   })"

text \<open>\<open>malloc\<close> of the table may fail; the lists start empty.\<close>

definition dict_init :: "config \<Rightarrow> 'u world \<Rightarrow> 'v dictionary option \<times> 'u world" where
  "dict_init cfg w = (case malloc_ok w of (ok, w) \<Rightarrow>
     (if ok then Some (replicate (bucket_count cfg) []) else None, w))"

fun bucket_find :: "'v bucket \<Rightarrow> string \<Rightarrow> 'v option option" where
  "bucket_find [] key = Some None"
| "bucket_find ((k, v) # b) key = do { name \<leftarrow> k; if name = key then Some (Some v) else bucket_find b key }"

text \<open>\<open>dict_find\<close>: the outer \<open>None\<close> is a fault, the inner one \<open>NULL\<close>.\<close>

definition dict_find :: "config \<Rightarrow> 'v dictionary option \<Rightarrow> string \<Rightarrow> 'v option option" where
  "dict_find cfg d key = (case d of None \<Rightarrow> Some None | Some d \<Rightarrow>
     (let index = bucket_index cfg key in do { require (index < length d); bucket_find (d ! index) key }))"

text \<open>\<open>Kvp_node_free_all\<close> and \<open>dict_free\<close>: \<open>destroy\<close> is called on every pair, list by list.\<close>

fun nodes_free_all :: "'v bucket \<Rightarrow> (string option \<times> 'v \<Rightarrow> 's \<Rightarrow> 's) option \<Rightarrow> 's \<Rightarrow> 's" where
  "nodes_free_all [] destroy s = s"
| "nodes_free_all (kvp # b) destroy s =
     nodes_free_all b destroy (case destroy of None \<Rightarrow> s | Some f \<Rightarrow> f kvp s)"

fun dict_free_loop :: "'v bucket list \<Rightarrow> (string option \<times> 'v \<Rightarrow> 's \<Rightarrow> 's) option \<Rightarrow> 's \<Rightarrow> 's" where
  "dict_free_loop [] destroy s = s"
| "dict_free_loop (b # d) destroy s =
     dict_free_loop d destroy (if b \<noteq> [] then nodes_free_all b destroy s else s)"

definition dict_free :: "'v dictionary option \<Rightarrow> (string option \<times> 'v \<Rightarrow> 's \<Rightarrow> 's) option \<Rightarrow> 's \<Rightarrow> 's" where
  "dict_free d destroy s = (case d of None \<Rightarrow> s | Some d \<Rightarrow> dict_free_loop d destroy s)"

text \<open>\<open>dict_show\<close>, given the text \<open>printf\<close> makes of a value; a \<open>NULL\<close> key given to \<open>%s\<close> is a fault.\<close>

fun bucket_show :: "('v \<Rightarrow> string) \<Rightarrow> 'v bucket \<Rightarrow> string option" where
  "bucket_show shw [] = Some []"
| "bucket_show shw ((k, v) # b) = do {
     name \<leftarrow> k;
     rest \<leftarrow> bucket_show shw b;
     Some (name @ '' -> '' @ shw v @ [LF] @ rest)
   }"

fun dict_show :: "('v \<Rightarrow> string) \<Rightarrow> 'v dictionary \<Rightarrow> string option" where
  "dict_show shw [] = Some []"
| "dict_show shw (b # d) = do {
     line \<leftarrow> (if b \<noteq> [] then bucket_show shw b else Some (''---'' @ [LF]));
     rest \<leftarrow> dict_show shw d;
     Some (line @ rest)
   }"

subsection \<open>The contract of a map\<close>

text \<open>
  What a client relies on: a lookup after an insertion gives the new value for its key and the old
  ones for all others, and an insertion keeps the invariant.
\<close>

locale finite_map =
  fixes find :: "'d \<Rightarrow> 'k \<Rightarrow> 'v option"
    and insert :: "'d \<Rightarrow> 'k \<Rightarrow> 'v \<Rightarrow> 'd"
    and inv :: "'d \<Rightarrow> bool"
  assumes inv_insert: "inv d \<Longrightarrow> inv (insert d k v)"
    and find_insert: "inv d \<Longrightarrow> find (insert d k v) k' = (if k' = k then Some v else find d k')"
begin

definition inserts :: "'d \<Rightarrow> ('k \<times> 'v) list \<Rightarrow> 'd" where
  "inserts d kvs = fold (\<lambda>(k, v) d. insert d k v) kvs d"

lemma inv_inserts: "inv d \<Longrightarrow> inv (inserts d kvs)"
  by (induction kvs arbitrary: d) (auto simp: inserts_def inv_insert)

lemma find_inserts:
  "inv d \<Longrightarrow> find (inserts d kvs) k = (case map_of (rev kvs) k of None \<Rightarrow> find d k | Some v \<Rightarrow> Some v)"
proof (induction kvs arbitrary: d)
  case Nil
  then show ?case by (simp add: inserts_def)
next
  case (Cons kv kvs)
  obtain k' v' where kv: "kv = (k', v')" by fastforce
  have "inserts d (kv # kvs) = inserts (insert d k' v') kvs" by (simp add: inserts_def kv)
  with Cons.IH [OF inv_insert [OF Cons.prems, of k' v']] find_insert [OF Cons.prems, of k' v' k]
  show ?case by (auto simp: kv map_add_def split: option.splits)
qed

lemma find_inserts_last:
  "inv d \<Longrightarrow> find (inserts d (kvs @ [(k, v)])) k = Some v"
  by (simp add: find_inserts)

end

subsection \<open>The dictionary meets it\<close>

text \<open>Every key is a string, in the list it hashes to, and no key occurs twice.\<close>

definition dict_inv :: "config \<Rightarrow> 'v dictionary \<Rightarrow> bool" where
  "dict_inv cfg d \<longleftrightarrow> 0 < bucket_count cfg \<and> length d = bucket_count cfg
     \<and> (\<forall>i < length d. distinct (map fst (d ! i))
         \<and> (\<forall>k \<in> fst ` set (d ! i). k \<noteq> None \<and> bucket_index cfg (the k) = i))"

lemma bucket_find_map_of: "None \<notin> fst ` set b \<Longrightarrow> bucket_find b key = Some (map_of b (Some key))"
proof (induction b)
  case (Cons kv b)
  then obtain k v where "kv = (Some k, v)" by (cases kv, cases "fst kv") auto
  with Cons show ?case by auto
qed simp

text \<open>What the search loop makes of a list without \<open>NULL\<close> keys.\<close>

lemma bucket_replace_cases:
  assumes "None \<notin> fst ` set b"
  shows "case map_of b (Some key) of None \<Rightarrow> bucket_replace b key v = Some None
    | Some old \<Rightarrow> \<exists>b'. bucket_replace b key v = Some (Some (old, b')) \<and> map fst b' = map fst b
        \<and> map_of b' = (map_of b)(Some key \<mapsto> v)"
  using assms
proof (induction b)
  case (Cons kv b)
  then obtain k old where "kv = (Some k, old)" by (cases kv, cases "fst kv") auto
  with Cons show ?case by (auto split: option.splits simp: fun_upd_twist)
qed simp

lemma bucket_index_less: "0 < bucket_count cfg \<Longrightarrow> bucket_index cfg k < bucket_count cfg"
  by (simp add: bucket_index_def)

lemma dict_inv_update:
  assumes "dict_inv cfg d" "distinct (map fst b)" "\<forall>k \<in> fst ` set b. k \<noteq> None \<and> bucket_index cfg (the k) = i"
  shows "dict_inv cfg (d[i := b])"
proof -
  have "distinct (map fst (d[i := b] ! j)) \<and> (\<forall>k \<in> fst ` set (d[i := b] ! j). k \<noteq> None \<and> bucket_index cfg (the k) = j)"
    if "j < length d" for j
    using assms that unfolding dict_inv_def by (cases "j = i") simp_all
  then show ?thesis using assms(1) by (simp add: dict_inv_def)
qed

lemma dict_invD:
  assumes "dict_inv cfg d"
  shows "bucket_index cfg k < length d" "None \<notin> fst ` set (d ! bucket_index cfg k)" "distinct (map fst (d ! bucket_index cfg k))"
    "\<forall>key \<in> fst ` set (d ! bucket_index cfg k). key \<noteq> None \<and> bucket_index cfg (the key) = bucket_index cfg k"
proof -
  show i: "bucket_index cfg k < length d" using assms by (simp add: dict_inv_def bucket_index_less)
  with assms show "distinct (map fst (d ! bucket_index cfg k))"
    and keys: "\<forall>key \<in> fst ` set (d ! bucket_index cfg k). key \<noteq> None \<and> bucket_index cfg (the key) = bucket_index cfg k"
    unfolding dict_inv_def by blast+
  show "None \<notin> fst ` set (d ! bucket_index cfg k)" using keys by blast
qed

lemma dict_find_in:
  assumes "dict_inv cfg d"
  shows "dict_find cfg (Some d) k = Some (map_of (d ! bucket_index cfg k) (Some k))"
  using dict_invD(1,2) [OF assms, of k] by (simp add: dict_find_def Let_def bucket_find_map_of)

text \<open>Lookup in a table that does not fault, and an insertion that gets its memory, as the client uses them.\<close>

definition dict_get :: "config \<Rightarrow> 'v dictionary \<Rightarrow> string \<Rightarrow> 'v option" where
  "dict_get cfg d key = map_of (d ! bucket_index cfg key) (Some key)"

definition dict_put :: "config \<Rightarrow> 'v dictionary \<Rightarrow> string \<Rightarrow> 'v \<Rightarrow> 'v dictionary" where
  "dict_put cfg d key value = (let i = bucket_index cfg key in
     case bucket_replace (d ! i) key value of Some (Some (_, b)) \<Rightarrow> d[i := b] | _ \<Rightarrow> d[i := (Some key, value) # d ! i])"

lemma dict_find_get: "dict_inv cfg d \<Longrightarrow> dict_find cfg (Some d) key = Some (dict_get cfg d key)"
  by (simp add: dict_get_def dict_find_in)

text \<open>The three ends of an insertion: the key is there, or the two allocations of a new one decide.\<close>

lemma dict_insert_cases:
  assumes "dict_inv cfg d"
  shows "dict_insert cfg d key v w = (case dict_get cfg d key of
      Some old \<Rightarrow> Some (1, dict_put cfg d key v, Some old, w)
    | None \<Rightarrow> (let (copied, w) = malloc_ok w; (node, w) = malloc_ok w in
        if \<not> node then None
        else Some (1, if copied then dict_put cfg d key v else d[bucket_index cfg key := (None, v) # d ! bucket_index cfg key], None, w)))"
  using bucket_replace_cases [OF dict_invD(2) [OF assms, of key], of key v] dict_invD(1) [OF assms, of key]
  by (auto simp: dict_insert_def dict_put_def dict_get_def Let_def split: option.splits prod.splits)

lemma dict_insert_found:
  "dict_inv cfg d \<Longrightarrow> dict_get cfg d key = Some old \<Longrightarrow> dict_insert cfg d key v w = Some (1, dict_put cfg d key v, Some old, w)"
  by (simp add: dict_insert_cases)

lemma dict_insert_granted:
  assumes "dict_inv cfg d" "memory_granted w"
  obtains w' where "dict_insert cfg d key v w = Some (1, dict_put cfg d key v, dict_get cfg d key, w')" "memory_granted w'"
    "w' = w \<or> (\<exists>wa. malloc_ok w = (True, wa) \<and> malloc_ok wa = (True, w'))"
proof -
  obtain wa where wa: "malloc_ok w = (True, wa)" "memory_granted wa" by (rule malloc_granted [OF assms(2)])
  obtain wb where wb: "malloc_ok wa = (True, wb)" "memory_granted wb" by (rule malloc_granted [OF wa(2)])
  from that [of w] that [of wb] wa wb assms(2) show thesis
    by (cases "dict_get cfg d key") (auto simp: dict_insert_cases [OF assms(1)])
qed

lemma dict_put_inv:
  assumes "dict_inv cfg d"
  shows "dict_inv cfg (dict_put cfg d key v)"
    "dict_get cfg (dict_put cfg d key v) k = (if k = key then Some v else dict_get cfg d k)"
proof -
  define i where "i = bucket_index cfg key"
  note b = dict_invD [OF assms, of key, folded i_def]
  obtain b' where put: "dict_put cfg d key v = d[i := b']" and b': "distinct (map fst b')"
    "\<forall>k \<in> fst ` set b'. k \<noteq> None \<and> bucket_index cfg (the k) = i" "map_of b' = (map_of (d ! i))(Some key \<mapsto> v)"
  proof (cases "map_of (d ! i) (Some key)")
    case None
    with bucket_replace_cases [OF b(2), of key v] have "dict_put cfg d key v = d[i := (Some key, v) # d ! i]"
      by (simp add: dict_put_def Let_def i_def)
    moreover from None have "Some key \<notin> fst ` set (d ! i)" by (simp add: map_of_eq_None_iff)
    ultimately show thesis using b(3,4) by (intro that [of "(Some key, v) # d ! i"]) (simp_all add: i_def)
  next
    case (Some old)
    with bucket_replace_cases [OF b(2), of key v] obtain b' where
      b': "bucket_replace (d ! i) key v = Some (Some (old, b'))" "map fst b' = map fst (d ! i)"
      "map_of b' = (map_of (d ! i))(Some key \<mapsto> v)" by auto
    from b'(2) have "fst ` set b' = fst ` set (d ! i)" by (simp only: list.set_map [symmetric])
    with b' b(3,4) show thesis by (intro that [of b']) (simp_all add: dict_put_def Let_def i_def)
  qed
  show "dict_inv cfg (dict_put cfg d key v)" unfolding put by (rule dict_inv_update [OF assms b'(1,2)])
  show "dict_get cfg (dict_put cfg d key v) k = (if k = key then Some v else dict_get cfg d k)"
    using b(1) b'(3) by (cases "bucket_index cfg k = i") (auto simp: put dict_get_def i_def)
qed

interpretation dict: finite_map "dict_get cfg" "dict_put cfg" "dict_inv cfg" for cfg
  by unfold_locales (auto simp: dict_put_inv)

lemma dict_inv_empty: "0 < bucket_count cfg \<Longrightarrow> dict_inv cfg (replicate (bucket_count cfg) [])"
  by (simp add: dict_inv_def)

lemma dict_get_empty: "0 < bucket_count cfg \<Longrightarrow> dict_get cfg (replicate (bucket_count cfg) []) k = None"
  by (simp add: dict_get_def bucket_index_less)

subsection \<open>Properties of the dictionary\<close>

fun dict_insert_all :: "config \<Rightarrow> 'v dictionary \<Rightarrow> (string \<times> 'v) list \<Rightarrow> 'u world \<Rightarrow> ('v dictionary \<times> 'u world) option" where
  "dict_insert_all cfg d [] w = Some (d, w)"
| "dict_insert_all cfg d ((k, v) # kvs) w = do {
     (r, d, freed, w) \<leftarrow> dict_insert cfg d k v w;
     dict_insert_all cfg d kvs w
   }"

lemma dict_insert_all_inserts:
  "dict_inv cfg d \<Longrightarrow> memory_granted w \<Longrightarrow> \<exists>w'. dict_insert_all cfg d kvs w = Some (dict.inserts cfg d kvs, w')"
proof (induction kvs arbitrary: d w)
  case Nil
  then show ?case by (simp add: dict.inserts_def)
next
  case (Cons kv kvs)
  obtain k v where kv: "kv = (k, v)" by fastforce
  obtain w1 where "dict_insert cfg d k v w = Some (1, dict_put cfg d k v, dict_get cfg d k, w1)" "memory_granted w1"
    by (rule dict_insert_granted [OF Cons.prems])
  with Cons.IH [OF dict_put_inv(1) [OF Cons.prems(1), of k v]] show ?case
    by (simp add: kv dict.inserts_def)
qed

text \<open>A new key without its copy makes its list unusable, and only that list.\<close>

lemma null_key_faults:
  assumes "dict_inv cfg d"
  shows "dict_find cfg (Some (d[bucket_index cfg key := (None, v) # b])) k
    = (if bucket_index cfg k = bucket_index cfg key then None else dict_find cfg (Some d) k)"
  using dict_invD(1) [OF assms] by (simp add: dict_find_def Let_def)

text \<open>
  C28: the dictionary is a map as long as there is memory.  Whatever keys and values are inserted into
  the empty table of \<open>dict_init\<close> while all allocations succeed, no insertion faults, and afterwards \<open>dict_find\<close>
  gives for every key the value inserted last under it, or \<open>NULL\<close> when there is none: neither collisions
  nor replacements lose a key.  A further new key needs two allocations, and neither is checked: where the one
  of the node fails the insertion writes through \<open>NULL\<close>, and where only the copy of the key fails it reports
  success, but from then on every lookup of a key of the same list is a fault; with both it adds the key.
\<close>

theorem dict_find_after_inserts:
  assumes "0 < bucket_count cfg" "dict_init cfg w = (Some d, w1)" "memory_granted w1"
  shows "\<exists>d' w'. dict_insert_all cfg d kvs w1 = Some (d', w') \<and> dict_inv cfg d'
    \<and> (\<forall>k. dict_find cfg (Some d') k = Some (map_of (rev kvs) k))
    \<and> (\<forall>key v (u :: 'u world) copied u1 node u2.
         key \<notin> fst ` set kvs \<and> malloc_ok u = (copied, u1) \<and> malloc_ok u1 = (node, u2) \<longrightarrow>
         (case dict_insert cfg d' key v u of
            None \<Rightarrow> \<not> node
          | Some (r, d'', freed, u') \<Rightarrow> node \<and> r = 1 \<and> freed = None \<and> u' = u2
              \<and> (\<forall>k. dict_find cfg (Some d'') k =
                    (if copied then Some (if k = key then Some v else map_of (rev kvs) k)
                     else if bucket_index cfg k = bucket_index cfg key then None
                     else Some (map_of (rev kvs) k)))))"
proof -
  have d: "d = replicate (bucket_count cfg) []"
    using assms(2) by (auto simp: dict_init_def split: prod.splits if_splits)
  have inv: "dict_inv cfg d" unfolding d using assms(1) by (rule dict_inv_empty)
  let ?d = "dict.inserts cfg d kvs"
  note inv' = dict.inv_inserts [OF inv, of kvs]
  have "dict_get cfg d k = None" for k unfolding d using assms(1) by (rule dict_get_empty)
  then have get: "dict_get cfg ?d k = map_of (rev kvs) k" for k
    using dict.find_inserts [OF inv, of kvs k] by (simp split: option.splits)
  have find: "dict_find cfg (Some ?d) k = Some (map_of (rev kvs) k)" for k
    by (simp add: dict_find_get [OF inv'] get)
  have put: "dict_find cfg (Some (dict_put cfg ?d key v)) k = Some (if k = key then Some v else map_of (rev kvs) k)" for key v k
    by (simp add: dict_find_get [OF dict_put_inv(1) [OF inv']] dict_put_inv(2) [OF inv'] get)
  obtain w' where "dict_insert_all cfg d kvs w1 = Some (?d, w')" using dict_insert_all_inserts [OF inv assms(3)] by blast
  moreover have "dict_get cfg ?d key = None" if "key \<notin> fst ` set kvs" for key
    using that by (simp add: get map_of_eq_None_iff)
  ultimately show ?thesis using inv' find
    by (intro exI [of _ ?d] exI [of _ w'])
      (simp add: dict_insert_cases [OF inv'] put null_key_faults [OF inv'])
qed

text \<open>Here the memory of a third key's copy is refused.\<close>

theorem dict_find_after_inserts_witness:
  "\<exists>d' w'. dict_insert_all esp32_config (replicate (bucket_count esp32_config) []) [(''/a'', 1::nat), (''/b'', 2), (''/a'', 3)] demo_world
      = Some (d', w')
    \<and> dict_find esp32_config (Some d') ''/a'' = Some (Some 3)
    \<and> (\<exists>d'' u'. dict_insert esp32_config d' ''/c'' 4 (demo_world\<lparr>w_mallocs := [False, True]\<rparr>) = Some (1, d'', None, u')
         \<and> dict_find esp32_config (Some d'') ''/c'' = None)
    \<and> dict_insert esp32_config d' ''/c'' 4 (demo_world\<lparr>w_mallocs := [True, False]\<rparr>) = None"
proof -
  have "0 < bucket_count esp32_config" "dict_init esp32_config demo_world = (Some (replicate (bucket_count esp32_config) []), demo_world)"
    "memory_granted demo_world"
    by (simp_all add: esp32_config_def dict_init_def malloc_ok_def demo_world_def memory_granted_def)
  from dict_find_after_inserts [OF this, of "[(''/a'', 1::nat), (''/b'', 2), (''/a'', 3)]"] obtain d' :: "nat dictionary" and w' where
    d': "dict_insert_all esp32_config (replicate (bucket_count esp32_config) []) [(''/a'', 1::nat), (''/b'', 2), (''/a'', 3)] demo_world
      = Some (d', w')" "dict_find esp32_config (Some d') ''/a'' = Some (Some 3)" and
    new: "\<forall>key v (u :: unit world) copied u1 node u2.
         key \<notin> fst ` set [(''/a'', 1::nat), (''/b'', 2), (''/a'', 3)] \<and> malloc_ok u = (copied, u1) \<and> malloc_ok u1 = (node, u2) \<longrightarrow>
         (case dict_insert esp32_config d' key v u of None \<Rightarrow> \<not> node
          | Some (r, d'', freed, u') \<Rightarrow> node \<and> r = 1 \<and> freed = None \<and> u' = u2
              \<and> (\<forall>k. dict_find esp32_config (Some d'') k =
                    (if copied then Some (if k = key then Some v else map_of (rev [(''/a'', 1), (''/b'', 2), (''/a'', 3)]) k)
                     else if bucket_index esp32_config k = bucket_index esp32_config key then None
                     else Some (map_of (rev [(''/a'', 1), (''/b'', 2), (''/a'', 3)]) k))))"
    by (elim exE conjE) simp
  let ?u = "\<lambda>bs. demo_world\<lparr>w_mallocs := bs\<rparr>"
  have m: "malloc_ok (?u (b # bs)) = (b, ?u bs)" for b bs by (simp add: malloc_ok_def)
  have "\<exists>d'' u'. dict_insert esp32_config d' ''/c'' 4 (?u [False, True]) = Some (1, d'', None, u')
      \<and> dict_find esp32_config (Some d'') ''/c'' = None"
    using new [rule_format, of "''/c''" "?u [False, True]" False "?u [True]" True "?u []" 4] m by (auto split: option.splits)
  moreover have "dict_insert esp32_config d' ''/c'' 4 (?u [True, False]) = None"
    using new [rule_format, of "''/c''" "?u [True, False]" True "?u [False]" False "?u []" 4] m by (simp split: option.splits prod.splits)
  ultimately show ?thesis using d' by blast
qed

lemma nodes_free_all_fold: "nodes_free_all b (Some f) s = fold f b s"
  by (induction b arbitrary: s) simp_all

lemma dict_free_loop_fold: "dict_free_loop d (Some f) s = fold f (concat d) s"
  by (induction d arbitrary: s) (simp_all add: nodes_free_all_fold)

lemma distinct_concat_buckets:
  assumes "\<forall>i < length d. distinct (map fst (d ! i)) \<and> (\<forall>k \<in> fst ` set (d ! i). h k = i + n)"
  shows "distinct (map fst (concat d)) \<and> (\<forall>k \<in> fst ` set (concat d). n \<le> (h k :: nat) \<and> h k < n + length d)"
  using assms
proof (induction d arbitrary: n)
  case (Cons b d)
  have b: "distinct (map fst b)" "\<forall>k \<in> fst ` set b. h k = n" using Cons.prems by force+
  have "\<forall>i < length d. distinct (map fst (d ! i)) \<and> (\<forall>k \<in> fst ` set (d ! i). h k = i + Suc n)"
  proof (intro allI impI)
    fix i assume "i < length d"
    then have "Suc i < length (b # d)" by simp
    from Cons.prems [THEN spec, THEN mp, OF this]
    show "distinct (map fst (d ! i)) \<and> (\<forall>k \<in> fst ` set (d ! i). h k = i + Suc n)" by simp
  qed
  note d = Cons.IH [OF this]
  have "fst ` set b \<inter> fst ` set (concat d) = {}"
  proof (rule ccontr)
    assume "fst ` set b \<inter> fst ` set (concat d) \<noteq> {}"
    then obtain k where "k \<in> fst ` set b" "k \<in> fst ` set (concat d)" by blast
    with b(2) d have "h k = n" "Suc n \<le> h k" by blast+
    then show False by simp
  qed
  then have "distinct (map fst (concat (b # d)))" using b(1) d by (simp add: image_Un)
  moreover have "n \<le> h k \<and> h k < n + length (b # d)" if "k \<in> fst ` set (concat (b # d))" for k
  proof (cases "k \<in> fst ` set b")
    case False
    with that have "k \<in> fst ` set (concat d)" by auto
    with d have "Suc n \<le> h k" "h k < Suc n + length d" by blast+
    then show ?thesis by simp
  qed (use b(2) in auto)
  ultimately show ?case by blast
qed simp

text \<open>
  C35: \<open>dict_free\<close> calls the destructor exactly once for every key of the map, with the value the key
  has at that time, and for nothing else.
\<close>

theorem dict_free_destroys_each_pair_once:
  assumes "dict_inv cfg d"
  shows "dict_free (Some d) (Some f) s = fold f (concat d) s \<and> distinct (map fst (concat d))
    \<and> (\<forall>k. dict_find cfg (Some d) k = Some (map_of (concat d) (Some k)))"
proof -
  have buckets: "\<forall>i < length d. distinct (map fst (d ! i)) \<and> (\<forall>k \<in> fst ` set (d ! i). bucket_index cfg (the k) = i + 0)"
    using assms by (simp add: dict_inv_def)
  from distinct_concat_buckets [OF this] have dist: "distinct (map fst (concat d))" by blast
  have "map_of (concat d) (Some k) = map_of (d ! bucket_index cfg k) (Some k)" for k
  proof -
    have i: "bucket_index cfg k < length d" using assms by (simp add: dict_inv_def bucket_index_less)
    have "map_of (concat d) (Some k) = Some v \<longleftrightarrow> map_of (d ! bucket_index cfg k) (Some k) = Some v" for v
    proof -
      have "map_of (concat d) (Some k) = Some v \<longleftrightarrow> (Some k, v) \<in> set (concat d)"
        using dist by (rule map_of_eq_Some_iff)
      also have "\<dots> \<longleftrightarrow> (Some k, v) \<in> set (d ! bucket_index cfg k)"
      proof
        assume "(Some k, v) \<in> set (concat d)"
        then obtain b where "b \<in> set d" "(Some k, v) \<in> set b" by auto
        then obtain j where j: "j < length d" "(Some k, v) \<in> set (d ! j)" by (auto simp: in_set_conv_nth [of b])
        then have "Some k \<in> fst ` set (d ! j)" by force
        with buckets [THEN spec, THEN mp, OF j(1)] have "bucket_index cfg k = j" by (metis add_0_right option.sel)
        with j show "(Some k, v) \<in> set (d ! bucket_index cfg k)" by simp
      next
        assume "(Some k, v) \<in> set (d ! bucket_index cfg k)"
        with i nth_mem [OF i] show "(Some k, v) \<in> set (concat d)" by auto
      qed
      also have "\<dots> \<longleftrightarrow> map_of (d ! bucket_index cfg k) (Some k) = Some v"
        using buckets i by (intro map_of_eq_Some_iff [symmetric]) blast
      finally show ?thesis .
    qed
    then show ?thesis by (metis not_None_eq)
  qed
  then show ?thesis
    using dist by (simp add: dict_free_def dict_free_loop_fold dict_find_in [OF assms])
qed

theorem dict_free_destroys_each_pair_once_witness:
  "dict_free (Some (dict_put esp32_config (replicate 64 []) ''/a'' (1::nat))) (Some (\<lambda>kvp log. kvp # log)) []
      = fold (\<lambda>kvp log. kvp # log) (concat (dict_put esp32_config (replicate 64 []) ''/a'' 1)) []
    \<and> distinct (map fst (concat (dict_put esp32_config (replicate 64 []) ''/a'' (1::nat))))
    \<and> (\<forall>k. dict_find esp32_config (Some (dict_put esp32_config (replicate 64 []) ''/a'' (1::nat))) k
        = Some (map_of (concat (dict_put esp32_config (replicate 64 []) ''/a'' 1)) (Some k)))"
proof (rule dict_free_destroys_each_pair_once)
  have "0 < bucket_count esp32_config" "bucket_count esp32_config = 64" by (simp_all add: esp32_config_def)
  with dict_inv_empty [of esp32_config] have "dict_inv esp32_config (replicate 64 [] :: nat dictionary)" by simp
  then show "dict_inv esp32_config (dict_put esp32_config (replicate 64 []) ''/a'' (1::nat))"
    by (rule dict_put_inv(1))
qed

end
