(* ===== verification/Byte_Parser.thy ===== *)
theory Byte_Parser
  imports Http_Config
begin

text \<open>
  \<open>src/parser.c\<close>: byte classes, the cursor scans every parser is built from, and the
  comparisons of NUL-terminated strings.  A scan takes the bytes of the object, a cursor and an
  end; \<open>forward_scan\<close> is the contract the parsers rely on (the scan stays inside the range and
  stops at the first hit), interpreted on \<open>crlf_find\<close>, \<open>colon_find\<close> and \<open>ows_skip\<close>.
\<close>

subsection \<open>Byte classes\<close>

definition is_ows :: "char \<Rightarrow> bool" where
  "is_ows c \<longleftrightarrow> c = SP \<or> c = HTAB"

definition is_colon :: "char \<Rightarrow> bool" where
  "is_colon c \<longleftrightarrow> c = CHR '':''"

text \<open>The C library's \<open>isdigit\<close>, \<open>isalnum\<close> and \<open>tolower\<close> in the C locale.\<close>

definition isdigit :: "char \<Rightarrow> bool" where
  "isdigit c \<longleftrightarrow> ord (CHR ''0'') \<le> ord c \<and> ord c \<le> ord (CHR ''9'')"

definition isupper :: "char \<Rightarrow> bool" where
  "isupper c \<longleftrightarrow> ord (CHR ''A'') \<le> ord c \<and> ord c \<le> ord (CHR ''Z'')"

definition islower :: "char \<Rightarrow> bool" where
  "islower c \<longleftrightarrow> ord (CHR ''a'') \<le> ord c \<and> ord c \<le> ord (CHR ''z'')"

definition isalnum :: "char \<Rightarrow> bool" where
  "isalnum c \<longleftrightarrow> isdigit c \<or> isupper c \<or> islower c"

definition tolower :: "char \<Rightarrow> char" where
  "tolower c = (if isupper c then char_of (ord c + 32) else c)"

definition is_hex :: "char \<Rightarrow> bool" where
  "is_hex c \<longleftrightarrow> isdigit c
     \<or> (ord (CHR ''a'') \<le> ord c \<and> ord c \<le> ord (CHR ''f''))
     \<or> (ord (CHR ''A'') \<le> ord c \<and> ord c \<le> ord (CHR ''F''))"

definition is_tchar :: "char \<Rightarrow> bool" where
  "is_tchar c \<longleftrightarrow> c = CHR ''!'' \<or> c = CHR ''#'' \<or> c = CHR ''$'' \<or> c = CHR ''%'' \<or> c = CHR ''&''
     \<or> c = CHR 0x27 \<or> c = CHR ''*'' \<or> c = CHR ''+'' \<or> c = CHR ''-'' \<or> c = CHR ''.''
     \<or> c = CHR ''^'' \<or> c = CHR ''_'' \<or> c = CHR 0x60 \<or> c = CHR ''|'' \<or> c = CHR ''~''
     \<or> isalnum c"

definition is_vchar :: "char \<Rightarrow> bool" where
  "is_vchar c \<longleftrightarrow> 0x21 \<le> ord c \<and> ord c \<le> 0x7e"

definition is_field_content_byte :: "char \<Rightarrow> bool" where
  "is_field_content_byte c \<longleftrightarrow> is_ows c \<or> is_vchar c \<or> 0x80 \<le> ord c"

lemmas byte_class_defs = is_ows_def is_colon_def isdigit_def isupper_def islower_def isalnum_def
  is_hex_def is_tchar_def is_vchar_def is_field_content_byte_def

subsection \<open>Cursor scans\<close>

text \<open>The while loops of \<open>parser.c\<close>; \<open>cur[1]\<close> is read only after \<open>cur[0]\<close> matched.\<close>

function crlf_find :: "mem \<Rightarrow> nat \<Rightarrow> nat \<Rightarrow> nat option" where
  "crlf_find m cur en =
     (if cur + 1 < en then do {
        a \<leftarrow> rd m cur;
        hit \<leftarrow> (if a = CR then do { b \<leftarrow> rd m (cur + 1); Some (b = LF) } else Some False);
        if hit then Some cur else crlf_find m (cur + 1) en
      } else Some en)"
  by pat_completeness auto
termination
  by (relation "measure (\<lambda>(m, cur, en). en - cur)") auto

function colon_find :: "mem \<Rightarrow> nat \<Rightarrow> nat \<Rightarrow> nat option" where
  "colon_find m cur en =
     (if cur < en then do {
        c \<leftarrow> rd m cur;
        if is_colon c then Some cur else colon_find m (cur + 1) en
      } else Some en)"
  by pat_completeness auto
termination
  by (relation "measure (\<lambda>(m, cur, en). en - cur)") auto

function ows_skip :: "mem \<Rightarrow> nat \<Rightarrow> nat \<Rightarrow> nat option" where
  "ows_skip m cur en =
     (if cur < en then do {
        c \<leftarrow> rd m cur;
        if is_ows c then ows_skip m (cur + 1) en else Some cur
      } else Some cur)"
  by pat_completeness auto
termination
  by (relation "measure (\<lambda>(m, cur, en). en - cur)") auto

text \<open>The two backward scans: \<open>en\<close> moves down to \<open>start\<close>.\<close>

fun ows_trim_trailing :: "mem \<Rightarrow> nat \<Rightarrow> nat \<Rightarrow> nat option" where
  "ows_trim_trailing m start 0 = Some 0"
| "ows_trim_trailing m start (Suc en) =
     (if start < Suc en then do {
        c \<leftarrow> rd m en;
        if is_ows c then ows_trim_trailing m start en else Some (Suc en)
      } else Some (Suc en))"

fun range_trim_to_comma :: "mem \<Rightarrow> nat \<Rightarrow> nat \<Rightarrow> nat option" where
  "range_trim_to_comma m start 0 = Some 0"
| "range_trim_to_comma m start (Suc en) =
     (if start < Suc en then do {
        c \<leftarrow> rd m (Suc en);
        if c \<noteq> CHR '','' then range_trim_to_comma m start en else Some (Suc en)
      } else Some (Suc en))"

declare crlf_find.simps [simp del] colon_find.simps [simp del] ows_skip.simps [simp del]

definition is_crlf :: "mem \<Rightarrow> nat \<Rightarrow> bool option" where
  "is_crlf m cur = do {
     a \<leftarrow> rd m cur;
     if a = CR then do { b \<leftarrow> rd m (cur + 1); Some (b = LF) } else Some False
   }"

fun is_token_loop :: "mem \<Rightarrow> nat \<Rightarrow> nat \<Rightarrow> bool option" where
  "is_token_loop m i 0 = Some True"
| "is_token_loop m i (Suc n) = do {
     c \<leftarrow> rd m i;
     if \<not> is_tchar c then Some False else is_token_loop m (i + 1) n
   }"

definition is_token :: "mem \<Rightarrow> nat \<Rightarrow> nat \<Rightarrow> bool option" where
  "is_token m i n = (if n = 0 then Some False else is_token_loop m i n)"

subsection \<open>NUL-terminated strings\<close>

text \<open>
  A HOL string stands for the bytes before the terminator, so \<open>*a\<close> is false exactly at its
  end.
\<close>

fun ascii_ieq :: "string \<Rightarrow> string \<Rightarrow> bool" where
  "ascii_ieq (a # as) (b # bs) = (if tolower a \<noteq> tolower b then False else ascii_ieq as bs)"
| "ascii_ieq as bs = (as = [] \<and> bs = [])"

definition str_ends_with :: "string option \<Rightarrow> string option \<Rightarrow> bool" where
  "str_ends_with str suffix = (case (str, suffix) of
       (Some s, Some t) \<Rightarrow> if length t > length s then False
                           else take (length t) (drop (length s - length t) s) = t
     | _ \<Rightarrow> False)"

subsection \<open>The contract of a forward scan\<close>

locale forward_scan =
  fixes scan :: "mem \<Rightarrow> nat \<Rightarrow> nat \<Rightarrow> nat option"
    and hit :: "mem \<Rightarrow> nat \<Rightarrow> nat \<Rightarrow> bool"
  assumes scan_first_hit:
    "cur \<le> en \<Longrightarrow> en \<le> length m \<Longrightarrow>
       \<exists>p. scan m cur en = Some p \<and> cur \<le> p \<and> p \<le> en \<and> (p < en \<longrightarrow> hit m p en)
         \<and> (\<forall>i. cur \<le> i \<and> i < p \<longrightarrow> \<not> hit m i en)"
begin

lemma scan_cases:
  assumes "cur \<le> en" "en \<le> length m"
  obtains p where "scan m cur en = Some p" "cur \<le> p" "p \<le> en" "p < en \<Longrightarrow> hit m p en"
    "\<And>i. cur \<le> i \<Longrightarrow> i < p \<Longrightarrow> \<not> hit m i en"
  using scan_first_hit [OF assms] by blast

lemma scan_eqI:
  assumes "en \<le> length m" "cur \<le> p" "p \<le> en" "p < en \<Longrightarrow> hit m p en"
    "\<And>i. cur \<le> i \<Longrightarrow> i < p \<Longrightarrow> \<not> hit m i en"
  shows "scan m cur en = Some p"
proof -
  from assms(2,3) have "cur \<le> en" by simp
  then obtain q where q: "scan m cur en = Some q" "cur \<le> q" "q \<le> en" "q < en \<Longrightarrow> hit m q en"
    "\<And>i. cur \<le> i \<Longrightarrow> i < q \<Longrightarrow> \<not> hit m i en"
    using scan_cases [OF _ assms(1)] by blast
  have "q = p"
  proof (rule linorder_cases [of q p])
    assume "q < p"
    with assms(3) q(4) assms(5) [OF q(2)] show ?thesis by simp
  next
    assume "p < q"
    with q(3) assms(4) q(5) [OF assms(2)] show ?thesis by simp
  qed
  with q(1) show ?thesis by simp
qed

lemma scan_inside:
  assumes "cur \<le> en" "en \<le> length m" "scan m cur en = Some p"
  shows "cur \<le> p" "p \<le> en" "p < en \<Longrightarrow> hit m p en"
    "cur \<le> i \<Longrightarrow> i < p \<Longrightarrow> \<not> hit m i en"
  using scan_first_hit [OF assms(1,2)] assms(3) by auto

lemma scan_defined: "cur \<le> en \<Longrightarrow> en \<le> length m \<Longrightarrow> scan m cur en \<noteq> None"
  using scan_first_hit by fastforce

end

text \<open>What each scan stops at.\<close>

definition crlf_at :: "mem \<Rightarrow> nat \<Rightarrow> nat \<Rightarrow> bool" where
  "crlf_at m i en \<longleftrightarrow> i + 1 < en \<and> m ! i = CR \<and> m ! (i + 1) = LF"

definition colon_at :: "mem \<Rightarrow> nat \<Rightarrow> nat \<Rightarrow> bool" where
  "colon_at m i en \<longleftrightarrow> is_colon (m ! i)"

definition non_ows_at :: "mem \<Rightarrow> nat \<Rightarrow> nat \<Rightarrow> bool" where
  "non_ows_at m i en \<longleftrightarrow> \<not> is_ows (m ! i)"

lemma crlf_find_unfold:
  assumes "en \<le> length m"
  shows "crlf_find m cur en =
    (if cur + 1 < en \<and> \<not> crlf_at m cur en then crlf_find m (cur + 1) en
     else Some (if cur + 1 < en then cur else en))"
  using assms by (subst crlf_find.simps) (auto simp: fault_simps crlf_at_def)

lemma colon_find_unfold:
  assumes "en \<le> length m"
  shows "colon_find m cur en =
    (if cur < en \<and> \<not> is_colon (m ! cur) then colon_find m (cur + 1) en
     else Some (if cur < en then cur else en))"
  using assms by (subst colon_find.simps) (simp add: fault_simps)

lemma ows_skip_unfold:
  assumes "en \<le> length m"
  shows "ows_skip m cur en =
    (if cur < en \<and> is_ows (m ! cur) then ows_skip m (cur + 1) en else Some cur)"
  using assms by (subst ows_skip.simps) (simp add: fault_simps)

text \<open>One step of a scan, for the induction on the distance to the end.\<close>

lemma first_hit_step:
  assumes "\<exists>p. r = Some p \<and> Suc cur \<le> p \<and> p \<le> en \<and> (p < en \<longrightarrow> Q p) \<and> (\<forall>i. Suc cur \<le> i \<and> i < p \<longrightarrow> \<not> Q i)"
    and "\<not> Q cur"
  shows "\<exists>p. r = Some p \<and> cur \<le> p \<and> p \<le> (en::nat) \<and> (p < en \<longrightarrow> Q p) \<and> (\<forall>i. cur \<le> i \<and> i < p \<longrightarrow> \<not> Q i)"
  using assms by (metis Suc_leD Suc_leI le_neq_implies_less)

interpretation crlf_scan: forward_scan crlf_find crlf_at
proof
  fix cur en :: nat and m :: mem
  assume "cur \<le> en" and len: "en \<le> length m"
  then show "\<exists>p. crlf_find m cur en = Some p \<and> cur \<le> p \<and> p \<le> en \<and> (p < en \<longrightarrow> crlf_at m p en)
      \<and> (\<forall>i. cur \<le> i \<and> i < p \<longrightarrow> \<not> crlf_at m i en)"
  proof (induction "en - cur" arbitrary: cur rule: less_induct)
    case less
    show ?case
    proof (cases "cur + 1 < en \<and> \<not> crlf_at m cur en")
      case True
      with len have eq: "crlf_find m cur en = crlf_find m (Suc cur) en"
        by (simp add: crlf_find_unfold [of en m cur])
      moreover from True have "\<not> crlf_at m cur en" by simp
      moreover from True have "Suc cur \<le> en" "en - Suc cur < en - cur" by auto
      ultimately show ?thesis
        unfolding eq using less.hyps [of "Suc cur"] len by - (rule first_hit_step, simp_all)
    next
      case False
      then show ?thesis
        using less.prems by (auto simp: crlf_find_unfold [of en m cur] crlf_at_def)
    qed
  qed
qed

interpretation colon_scan: forward_scan colon_find colon_at
proof
  fix cur en :: nat and m :: mem
  assume "cur \<le> en" and len: "en \<le> length m"
  then show "\<exists>p. colon_find m cur en = Some p \<and> cur \<le> p \<and> p \<le> en \<and> (p < en \<longrightarrow> colon_at m p en)
      \<and> (\<forall>i. cur \<le> i \<and> i < p \<longrightarrow> \<not> colon_at m i en)"
  proof (induction "en - cur" arbitrary: cur rule: less_induct)
    case less
    show ?case
    proof (cases "cur < en \<and> \<not> is_colon (m ! cur)")
      case True
      with len have eq: "colon_find m cur en = colon_find m (Suc cur) en"
        by (simp add: colon_find_unfold [of en m cur])
      moreover from True have "\<not> colon_at m cur en" by (simp add: colon_at_def)
      moreover from True have "Suc cur \<le> en" "en - Suc cur < en - cur" by auto
      ultimately show ?thesis
        unfolding eq using less.hyps [of "Suc cur"] len by - (rule first_hit_step, simp_all)
    next
      case False
      then show ?thesis
        using less.prems by (auto simp: colon_find_unfold [of en m cur] colon_at_def)
    qed
  qed
qed

interpretation ows_scan: forward_scan ows_skip non_ows_at
proof
  fix cur en :: nat and m :: mem
  assume "cur \<le> en" and len: "en \<le> length m"
  then show "\<exists>p. ows_skip m cur en = Some p \<and> cur \<le> p \<and> p \<le> en \<and> (p < en \<longrightarrow> non_ows_at m p en)
      \<and> (\<forall>i. cur \<le> i \<and> i < p \<longrightarrow> \<not> non_ows_at m i en)"
  proof (induction "en - cur" arbitrary: cur rule: less_induct)
    case less
    show ?case
    proof (cases "cur < en \<and> is_ows (m ! cur)")
      case True
      with len have eq: "ows_skip m cur en = ows_skip m (Suc cur) en"
        by (simp add: ows_skip_unfold [of en m cur])
      moreover from True have "\<not> non_ows_at m cur en" by (simp add: non_ows_at_def)
      moreover from True have "Suc cur \<le> en" "en - Suc cur < en - cur" by auto
      ultimately show ?thesis
        unfolding eq using less.hyps [of "Suc cur"] len by - (rule first_hit_step, simp_all)
    next
      case False
      then show ?thesis
        using less.prems by (auto simp: ows_skip_unfold [of en m cur] non_ows_at_def)
    qed
  qed
qed

subsection \<open>The backward scan, tokens and string comparison\<close>

lemma ows_trim_trailing_spec:
  assumes "start \<le> en" "en \<le> length m"
  shows "\<exists>p. ows_trim_trailing m start en = Some p \<and> start \<le> p \<and> p \<le> en
     \<and> (\<forall>i. p \<le> i \<and> i < en \<longrightarrow> is_ows (m ! i)) \<and> (start < p \<longrightarrow> \<not> is_ows (m ! (p - 1)))"
  using assms
proof (induction en)
  case 0
  then show ?case by simp
next
  case (Suc en)
  show ?case
  proof (cases "start < Suc en \<and> is_ows (m ! en)")
    case True
    with Suc.prems have "ows_trim_trailing m start (Suc en) = ows_trim_trailing m start en"
      by (simp add: fault_simps)
    moreover from True Suc.prems obtain p where "ows_trim_trailing m start en = Some p" "start \<le> p"
      "p \<le> en" "\<forall>i. p \<le> i \<and> i < en \<longrightarrow> is_ows (m ! i)" "start < p \<longrightarrow> \<not> is_ows (m ! (p - 1))"
      using Suc.IH by auto
    ultimately show ?thesis using True by (auto simp: less_Suc_eq)
  next
    case False
    with Suc.prems have "ows_trim_trailing m start (Suc en) = Some (Suc en)"
      by (auto simp: fault_simps)
    with False Suc.prems show ?thesis by auto
  qed
qed

lemma ows_trim_trailing_cases:
  assumes "start \<le> en" "en \<le> length m"
  obtains p where "ows_trim_trailing m start en = Some p" "start \<le> p" "p \<le> en"
    "\<And>i. p \<le> i \<Longrightarrow> i < en \<Longrightarrow> is_ows (m ! i)" "start < p \<Longrightarrow> \<not> is_ows (m ! (p - 1))"
  using ows_trim_trailing_spec [OF assms] by blast

lemma ows_trim_trailing_eqI:
  assumes "en \<le> length m" "start \<le> p" "p \<le> en" "\<And>i. p \<le> i \<Longrightarrow> i < en \<Longrightarrow> is_ows (m ! i)"
    "start < p \<Longrightarrow> \<not> is_ows (m ! (p - 1))"
  shows "ows_trim_trailing m start en = Some p"
proof -
  from assms(2,3) have "start \<le> en" by simp
  then obtain q where q: "ows_trim_trailing m start en = Some q" "start \<le> q" "q \<le> en"
    "\<And>i. q \<le> i \<Longrightarrow> i < en \<Longrightarrow> is_ows (m ! i)" "start < q \<Longrightarrow> \<not> is_ows (m ! (q - 1))"
    using ows_trim_trailing_cases [OF _ assms(1)] by blast
  have "q = p"
  proof (rule linorder_cases [of q p])
    assume "q < p"
    with assms(3) q(2) q(4) [of "p - 1"] assms(5) show ?thesis by simp
  next
    assume "p < q"
    with q(3) assms(2) assms(4) [of "q - 1"] q(5) show ?thesis by simp
  qed
  with q(1) show ?thesis by simp
qed

lemma is_token_loop_eq [scan_simps]:
  "i + n \<le> length m \<Longrightarrow> is_token_loop m i n = Some (list_all is_tchar (take n (drop i m)))"
proof (induction n arbitrary: i)
  case 0
  then show ?case by simp
next
  case (Suc n)
  then have "drop i m = m ! i # drop (Suc i) m" by (simp add: Cons_nth_drop_Suc)
  with Suc show ?case by (simp add: fault_simps)
qed

lemma is_token_eq [scan_simps]:
  "i + n \<le> length m \<Longrightarrow> is_token m i n = Some (n \<noteq> 0 \<and> list_all is_tchar (take n (drop i m)))"
  by (simp add: is_token_def is_token_loop_eq)

lemma is_crlf_eq [scan_simps]:
  "cur + 1 < length m \<Longrightarrow> is_crlf m cur = Some (m ! cur = CR \<and> m ! (cur + 1) = LF)"
  by (simp add: is_crlf_def fault_simps)

lemma ascii_ieq_iff: "ascii_ieq a b \<longleftrightarrow> map tolower a = map tolower b"
  by (induction a b rule: ascii_ieq.induct) auto

lemma ascii_ieq_refl [simp]: "ascii_ieq a a"
  by (simp add: ascii_ieq_iff)

lemma ascii_ieq_sym: "ascii_ieq a b \<longleftrightarrow> ascii_ieq b a"
  by (auto simp: ascii_ieq_iff)

lemma str_ends_with_iff: "str_ends_with (Some s) (Some t) \<longleftrightarrow> (\<exists>p. s = p @ t)"
proof
  assume "str_ends_with (Some s) (Some t)"
  then have "length t \<le> length s" "drop (length s - length t) s = t"
    by (auto simp: str_ends_with_def split: if_splits)
  then show "\<exists>p. s = p @ t" by (metis append_take_drop_id)
qed (auto simp: str_ends_with_def)

subsection \<open>The scans on segments\<close>

lemma seg_all_prefix:
  assumes "a \<le> p" "p \<le> b" "b \<le> length m" "\<And>i. a \<le> i \<Longrightarrow> i < p \<Longrightarrow> P (m ! i)"
    "p < b \<Longrightarrow> \<not> P (m ! p)"
  shows "dropWhile P (seg m a b) = seg m p b" "takeWhile P (seg m a b) = seg m a p"
proof -
  have split: "seg m a b = seg m a p @ seg m p b" using assms(1,2) by (rule seg_append)
  have all: "\<forall>x \<in> set (seg m a p). P x" using assms(2-4) by (auto simp: set_seg)
  have "dropWhile P (seg m p b) = seg m p b \<and> takeWhile P (seg m p b) = []"
  proof (cases "p < b")
    case True
    then show ?thesis using assms(3,5) by (simp add: seg_Cons)
  qed simp
  with all show "dropWhile P (seg m a b) = seg m p b" "takeWhile P (seg m a b) = seg m a p"
    unfolding split by (simp_all add: dropWhile_append takeWhile_append)
qed

lemma ows_skip_seg:
  assumes "a \<le> b" "b \<le> length m"
  obtains p where "ows_skip m a b = Some p" "a \<le> p" "p \<le> b" "seg m p b = dropWhile is_ows (seg m a b)"
proof -
  obtain p where p: "ows_skip m a b = Some p" "a \<le> p" "p \<le> b" "p < b \<Longrightarrow> non_ows_at m p b"
    "\<And>i. a \<le> i \<Longrightarrow> i < p \<Longrightarrow> \<not> non_ows_at m i b"
    using ows_scan.scan_cases [OF assms] by blast
  have "dropWhile is_ows (seg m a b) = seg m p b"
    using p assms(2) by (intro seg_all_prefix) (auto simp: non_ows_at_def)
  with p(1-3) show thesis by (intro that) simp_all
qed

lemma ows_trim_seg:
  assumes "a \<le> b" "b \<le> length m"
  obtains p where "ows_trim_trailing m a b = Some p" "a \<le> p" "p \<le> b"
    "seg m a p = rev (dropWhile is_ows (rev (seg m a b)))"
proof -
  obtain p where p: "ows_trim_trailing m a b = Some p" "a \<le> p" "p \<le> b"
    "\<And>i. p \<le> i \<Longrightarrow> i < b \<Longrightarrow> is_ows (m ! i)" "a < p \<Longrightarrow> \<not> is_ows (m ! (p - 1))"
    using ows_trim_trailing_cases [OF assms] by blast
  have split: "seg m a b = seg m a p @ seg m p b" using p(2,3) by (rule seg_append)
  have all: "\<forall>x \<in> set (rev (seg m p b)). is_ows x" using p(4) assms(2) by (auto simp: set_seg)
  have "dropWhile is_ows (rev (seg m a p)) = rev (seg m a p)"
  proof (cases "a < p")
    case True
    then have "seg m a p = seg m a (p - 1) @ [m ! (p - 1)]"
      using p(3) assms(2) seg_append [of a "p - 1" p m] by (simp add: seg_Cons)
    with p(5) [OF True] show ?thesis by simp
  qed simp
  with all have "rev (dropWhile is_ows (rev (seg m a b))) = seg m a p"
    unfolding split by (simp add: dropWhile_append)
  with p(1-3) show thesis by (intro that) simp_all
qed

text \<open>A string without the spaces and tabs around it.\<close>

definition ows_strip :: "string \<Rightarrow> string" where
  "ows_strip v = rev (dropWhile is_ows (rev (dropWhile is_ows v)))"

lemma set_ows_strip: "set (ows_strip v) \<subseteq> set v"
  by (auto simp: ows_strip_def dest!: set_dropWhileD)

lemma length_ows_strip: "length (ows_strip v) \<le> length v"
  unfolding ows_strip_def by (metis length_dropWhile_le length_rev order_trans)

text \<open>What the two scans leave out are spaces and tabs.\<close>

lemma ows_strip_parts: "\<exists>l r. v = l @ ows_strip v @ r \<and> list_all is_ows l \<and> list_all is_ows r"
proof (intro exI conjI)
  let ?d = "dropWhile is_ows v"
  show "list_all is_ows (takeWhile is_ows v)" by (auto simp: list_all_iff dest: set_takeWhileD)
  show "list_all is_ows (rev (takeWhile is_ows (rev ?d)))"
    by (auto simp: list_all_iff dest: set_takeWhileD)
  have "ows_strip v @ rev (takeWhile is_ows (rev ?d)) = rev (takeWhile is_ows (rev ?d) @ dropWhile is_ows (rev ?d))"
    unfolding ows_strip_def by (simp only: rev_append)
  then show "v = takeWhile is_ows v @ ows_strip v @ rev (takeWhile is_ows (rev ?d))"
    by simp
qed

lemma ows_strip_all: "(\<And>c. is_ows c \<Longrightarrow> P c) \<Longrightarrow> list_all P (ows_strip v) \<longleftrightarrow> list_all P v"
proof -
  assume ows: "\<And>c. is_ows c \<Longrightarrow> P c"
  obtain l r where v: "v = l @ ows_strip v @ r" "list_all is_ows l" "list_all is_ows r"
    using ows_strip_parts by blast
  have "list_all P l" "list_all P r" using v(2,3) ows by (auto simp: list_all_iff)
  moreover have "list_all P v \<longleftrightarrow> list_all P (l @ ows_strip v @ r)" using v(1) by simp
  ultimately show ?thesis by simp
qed

end
