(* ===== verification/Arena.thy ===== *)
theory Arena
  imports Http_Prelude
begin

unbundle bit_operations_syntax

text \<open>
  \<open>src/Arena.c\<close>: the bump allocator over the static backing region of one connection.  Sizes
  and addresses are 64-bit words, so the rounding of \<open>arena_alloc\<close> wraps exactly where the C
  does; the assertions of the source are \<open>require\<close> steps.  \<open>region_allocator\<close> states what the
  clients rely on (fresh blocks inside the region, rewinding frees everything above the mark).
\<close>

subsection \<open>The model\<close>

type_synonym size_t = "64 word"

record arena =
  ar_base :: size_t
  ar_cap :: size_t
  ar_used :: size_t

definition arena_init :: "size_t \<Rightarrow> size_t \<Rightarrow> arena option" where
  "arena_init region cap = do {
     require (region \<noteq> 0);
     require (cap > 0);
     Some \<lparr> ar_base = region, ar_cap = cap, ar_used = 0 \<rparr>
   }"

definition arena_mark :: "arena \<Rightarrow> size_t option" where
  "arena_mark a = do {
     require (ar_used a \<le> ar_cap a);
     Some (ar_used a)
   }"

definition arena_reset_to :: "arena \<Rightarrow> size_t \<Rightarrow> arena option" where
  "arena_reset_to a mark = do {
     require (mark \<le> ar_used a);
     let a' = a\<lparr>ar_used := mark\<rparr>;
     require (ar_used a' \<le> ar_cap a');
     Some a'
   }"

definition arena_reset :: "arena \<Rightarrow> arena option" where
  "arena_reset a = do {
     let a' = a\<lparr>ar_used := 0\<rparr>;
     require (ar_used a' = 0);
     Some a'
   }"

text \<open>\<open>Some (None, a)\<close> is the \<open>NULL\<close> of an exhausted arena.\<close>

definition arena_alloc :: "arena \<Rightarrow> size_t \<Rightarrow> size_t \<Rightarrow> (size_t option \<times> arena) option" where
  "arena_alloc a n align = do {
     require (align > 0);
     require (align AND (align - 1) = 0);
     require (ar_used a \<le> ar_cap a);
     let aligned = (ar_used a + (align - 1)) AND NOT (align - 1);
     if aligned > ar_cap a \<or> n > ar_cap a - aligned then Some (None, a)
     else do {
       let p = ar_base a + aligned;
       let a' = a\<lparr>ar_used := aligned + n\<rparr>;
       require (p AND (align - 1) = 0);
       require (ar_used a' \<le> ar_cap a');
       Some (Some p, a')
     }
   }"

text \<open>The macros \<open>arena_new\<close> and \<open>arena_array\<close> for a type of the given size and alignment.\<close>

definition arena_new :: "arena \<Rightarrow> size_t \<Rightarrow> size_t \<Rightarrow> (size_t option \<times> arena) option" where
  "arena_new a sizeof_T alignof_T = arena_alloc a sizeof_T alignof_T"

definition arena_array :: "arena \<Rightarrow> size_t \<Rightarrow> size_t \<Rightarrow> size_t \<Rightarrow> (size_t option \<times> arena) option" where
  "arena_array a sizeof_T alignof_T k = arena_alloc a (sizeof_T * k) alignof_T"

subsection \<open>Rounding up to a power of two\<close>

text \<open>
  An arena the server uses: the cursor is inside the region, the region does not wrap around the
  address space, and rounding the cursor up to the largest alignment in use cannot overflow.
\<close>

definition wf_arena :: "arena \<Rightarrow> bool" where
  "wf_arena a \<longleftrightarrow> ar_used a \<le> ar_cap a \<and> 0 < unat (ar_base a)
     \<and> unat (ar_base a) + unat (ar_cap a) \<le> 2 ^ 63"

definition round_up :: "nat \<Rightarrow> nat \<Rightarrow> nat" where
  "round_up x k = (x + (2 ^ k - 1)) div 2 ^ k * 2 ^ k"

lemma pow2_Suc: "\<exists>e. (2::nat) ^ k = Suc e"
  by (metis not0_implies_Suc power_not_zero zero_neq_numeral)

lemma round_up_decomp: "round_up x k + (x + (2 ^ k - 1)) mod 2 ^ k = x + (2 ^ k - 1)"
  unfolding round_up_def by (rule div_mult_mod_eq)

lemma le_round_up: "x \<le> round_up x k"
proof -
  have "(x + (2 ^ k - 1)) mod 2 ^ k < 2 ^ k" by simp
  with round_up_decomp [of x k] show ?thesis by linarith
qed

lemma round_up_bound: "round_up x k < x + 2 ^ k"
proof -
  have "(0::nat) < 2 ^ k" by simp
  with round_up_decomp [of x k] show ?thesis by linarith
qed

lemma dvd_round_up: "2 ^ k dvd round_up x k"
  by (simp add: round_up_def)

lemma round_up_least:
  assumes "2 ^ k dvd y" "x \<le> y"
  shows "round_up x k \<le> y"
proof (rule ccontr)
  assume "\<not> ?thesis"
  then have "y < round_up x k" by simp
  with assms(1) dvd_round_up [of k x] have "y + 2 ^ k \<le> round_up x k"
    by (metis add.commute dvd_add_right_iff dvd_diff_nat dvd_imp_le le_add_diff_inverse less_imp_le_nat
      nat_add_left_cancel_le zero_less_diff)
  with round_up_bound [of x k] assms(2) show False by linarith
qed

lemma round_up_aligned: "2 ^ k dvd x \<Longrightarrow> round_up x k = x"
  using round_up_least [of k x x] le_round_up [of x k] by simp

text \<open>The bit trick of \<open>arena_alloc\<close> is this rounding.\<close>

lemma and_not_mask_word: "(w :: size_t) AND NOT (mask k) = w div 2 ^ k * 2 ^ k"
proof -
  have "w AND NOT (mask k) = push_bit k (drop_bit k w)"
    by (rule bit_eqI) (auto simp: bit_simps)
  then show ?thesis by (simp add: push_bit_eq_mult drop_bit_eq_div)
qed

lemma unat_lt_64: "unat (w :: size_t) < 2 ^ 64"
  using unsigned_less [of w] by (simp del: unsigned_less)

lemma unat_pow2: "k < 64 \<Longrightarrow> unat ((2::size_t) ^ k) = 2 ^ k"
proof -
  assume "k < 64"
  then have "(2::nat) ^ k < 2 ^ 64" by (rule power_strict_increasing) simp
  then have "unat (word_of_nat (2 ^ k) :: size_t) = 2 ^ k"
    by (subst unat_of_nat) simp
  then show ?thesis by simp
qed

lemma unat_pow2_minus_1: "k < 64 \<Longrightarrow> unat ((2::size_t) ^ k - 1) = 2 ^ k - 1"
  by (subst unat_sub) (simp_all add: unat_pow2 word_le_nat_alt)

lemma unat_and_not_mask: "k < 64 \<Longrightarrow> unat ((w :: size_t) AND NOT (2 ^ k - 1)) = unat w div 2 ^ k * 2 ^ k"
proof -
  assume k: "k < 64"
  have "w AND NOT (2 ^ k - 1) = w div 2 ^ k * 2 ^ k"
    by (simp add: and_not_mask_word [of w k, unfolded mask_eq_exp_minus_1])
  moreover have "unat w < 2 ^ 64" by (rule unat_lt_64)
  then have "unat (w div 2 ^ k) * unat ((2::size_t) ^ k) < 2 ^ 64"
    using k le_less_trans [OF div_times_less_eq_dividend] by (simp add: unat_div unat_pow2)
  ultimately show ?thesis
    using k unat_mult_lem [of "w div 2 ^ k" "2 ^ k"] by (simp add: unat_div unat_pow2)
qed

lemma unat_align_up:
  assumes "k < 64" "unat (u :: size_t) + (2 ^ k - 1) < 2 ^ 64"
  shows "unat ((u + (2 ^ k - 1)) AND NOT (2 ^ k - 1)) = round_up (unat u) k"
proof -
  have "unat (u + (2 ^ k - 1)) = unat u + (2 ^ k - 1)"
    using assms unat_add_lem [of u "2 ^ k - 1"] by (simp add: unat_pow2_minus_1)
  with assms(1) show ?thesis by (simp add: unat_and_not_mask round_up_def)
qed

lemma pow2_and_pred: "(2::size_t) ^ k AND (2 ^ k - 1) = 0"
  by (rule bit_eqI) (auto simp: mask_eq_exp_minus_1 [symmetric] bit_simps)

lemma aligned_word_iff:
  "k < 64 \<Longrightarrow> (p :: size_t) AND (2 ^ k - 1) = 0 \<longleftrightarrow> 2 ^ k dvd unat p"
proof -
  assume k: "k < 64"
  have "p AND (2 ^ k - 1) = p mod 2 ^ k"
    by (simp add: mask_eq_exp_minus_1 [symmetric] take_bit_eq_mask [symmetric] take_bit_eq_mod)
  moreover have "unat (p mod 2 ^ k) = unat p mod 2 ^ k"
    using k by (simp add: unat_mod unat_pow2)
  ultimately show ?thesis
    by (metis mod_0_imp_dvd dvd_imp_mod_0 unat_0 unsigned_eq_0_iff)
qed

subsection \<open>Allocation\<close>

lemma wf_arena_used: "wf_arena a \<Longrightarrow> unat (ar_used a) \<le> unat (ar_cap a)"
  by (simp add: wf_arena_def word_le_nat_alt)

lemma wf_arena_room:
  assumes "wf_arena a" "k \<le> 62"
  shows "unat (ar_used a) + (2 ^ k - 1) < 2 ^ 64"
proof -
  have "(2::nat) ^ k \<le> 2 ^ 62" using assms(2) by (rule power_increasing) simp
  moreover from assms(1) have "unat (ar_used a) \<le> 2 ^ 63"
    using wf_arena_used [OF assms(1)] by (simp add: wf_arena_def)
  ultimately show ?thesis by simp
qed

text \<open>The offset an allocation aligned to \<open>2 ^ k\<close> is placed at.\<close>

abbreviation alloc_offset :: "arena \<Rightarrow> nat \<Rightarrow> nat" where
  "alloc_offset a k \<equiv> round_up (unat (ar_used a)) k"

lemma unat_add_base:
  assumes "wf_arena a" "off \<le> ar_cap a"
  shows "unat (ar_base a + off) = unat (ar_base a) + unat off"
  using assms unat_add_lem [of "ar_base a" off]
  by (simp add: wf_arena_def word_le_nat_alt)

lemma arena_alloc_eq:
  assumes wf: "wf_arena a" and k: "k \<le> 62" and base: "2 ^ k dvd unat (ar_base a)"
  shows "arena_alloc a n (2 ^ k) =
    (if alloc_offset a k + unat n \<le> unat (ar_cap a)
     then Some (Some (ar_base a + word_of_nat (alloc_offset a k)),
                a\<lparr>ar_used := word_of_nat (alloc_offset a k + unat n)\<rparr>)
     else Some (None, a))"
proof -
  let ?al = "(ar_used a + (2 ^ k - 1)) AND NOT (2 ^ k - 1)"
  have un: "unat ?al = alloc_offset a k"
    using k wf_arena_room [OF wf k] by (intro unat_align_up) simp_all
  have al: "?al = word_of_nat (alloc_offset a k)"
    by (simp add: un [symmetric])
  have pos: "(2::size_t) ^ k > 0"
    using k by (simp add: word_less_nat_alt unat_pow2)
  have used: "ar_used a \<le> ar_cap a" using wf by (simp add: wf_arena_def)
  have fits: "\<not> (?al > ar_cap a \<or> n > ar_cap a - ?al) \<longleftrightarrow> alloc_offset a k + unat n \<le> unat (ar_cap a)"
    by (auto simp: not_less word_le_nat_alt un unat_sub)
  show ?thesis
  proof (cases "alloc_offset a k + unat n \<le> unat (ar_cap a)")
    case False
    with fits pos used show ?thesis
      unfolding arena_alloc_def by (simp add: pow2_and_pred Let_def)
  next
    case True
    then have le: "?al \<le> ar_cap a" by (simp add: word_le_nat_alt un)
    have "unat (ar_base a + ?al) = unat (ar_base a) + alloc_offset a k"
      using unat_add_base [OF wf le] un by simp
    with base dvd_round_up [of k] have dv: "2 ^ k dvd unat (ar_base a + ?al)" by simp
    have sum: "?al + n = word_of_nat (alloc_offset a k + unat n)"
      by (simp add: al)
    have "unat (?al + n) = alloc_offset a k + unat n"
      using True un unat_add_lem [of ?al n] wf by (simp add: wf_arena_def)
    then have le': "?al + n \<le> ar_cap a" using True by (simp add: word_le_nat_alt)
    from k dv have "(ar_base a + ?al) AND (2 ^ k - 1) = 0" by (simp add: aligned_word_iff)
    then show ?thesis
      using True fits pos used le' unfolding arena_alloc_def
      by (simp add: pow2_and_pred Let_def sum [symmetric] al [symmetric])
  qed
qed

lemma arena_alloc_SomeD:
  assumes "wf_arena a" "k \<le> 62" "2 ^ k dvd unat (ar_base a)"
    and "arena_alloc a n (2 ^ k) = Some (Some p, a')"
  shows "unat p = unat (ar_base a) + alloc_offset a k"
    "unat (ar_used a') = alloc_offset a k + unat n"
    "ar_base a' = ar_base a" "ar_cap a' = ar_cap a" "unat (ar_used a') \<le> unat (ar_cap a)"
    "wf_arena a'" "2 ^ k dvd unat p"
proof -
  from arena_alloc_eq [OF assms(1-3), of n] assms(4)
  have fit: "alloc_offset a k + unat n \<le> unat (ar_cap a)"
    and p: "p = ar_base a + word_of_nat (alloc_offset a k)"
    and a': "a' = a\<lparr>ar_used := word_of_nat (alloc_offset a k + unat n)\<rparr>"
    by (auto split: if_splits)
  have lt: "x \<le> unat (ar_cap a) \<Longrightarrow> unat (word_of_nat x :: size_t) = x" for x
    using unat_lt_64 [of "ar_cap a"] by (simp add: unat_of_nat)
  from fit have off: "alloc_offset a k \<le> unat (ar_cap a)" by simp
  then show up: "unat p = unat (ar_base a) + alloc_offset a k"
    using unat_add_base [OF assms(1), of "word_of_nat (alloc_offset a k)"] p lt [OF off]
    by (simp add: word_le_nat_alt)
  show used: "unat (ar_used a') = alloc_offset a k + unat n"
    using a' lt [OF fit] by simp
  with fit show le: "unat (ar_used a') \<le> unat (ar_cap a)" by simp
  show "ar_base a' = ar_base a" "ar_cap a' = ar_cap a" using a' by simp_all
  then show "wf_arena a'" using assms(1) le by (simp add: wf_arena_def word_le_nat_alt)
  show "2 ^ k dvd unat p" using up assms(3) dvd_round_up [of k] by simp
qed

subsection \<open>The contract of an allocator over a region\<close>

text \<open>
  \<open>lo\<close> is the first free address and \<open>hi\<close> the end of the region; \<open>ok\<close> says which alignments the
  region can serve.  A list of requests is served in order.
\<close>

fun alloc_all :: "('s \<Rightarrow> size_t \<Rightarrow> size_t \<Rightarrow> (size_t option \<times> 's) option) \<Rightarrow> 's
    \<Rightarrow> (size_t \<times> size_t) list \<Rightarrow> ((nat \<times> nat) list \<times> 's) option" where
  "alloc_all alloc s [] = Some ([], s)"
| "alloc_all alloc s ((n, al) # rs) = do {
     (r, s') \<leftarrow> alloc s n al;
     (bs, s'') \<leftarrow> alloc_all alloc s' rs;
     Some (case r of None \<Rightarrow> (bs, s'') | Some p \<Rightarrow> ((unat p, unat n) # bs, s''))
   }"

text \<open>Blocks in increasing order, none reaching into the next.\<close>

definition in_order :: "(nat \<times> nat) list \<Rightarrow> bool" where
  "in_order bs \<longleftrightarrow> sorted_wrt (\<lambda>b c. fst b + snd b \<le> fst c) bs"

locale region_allocator =
  fixes alloc :: "'s \<Rightarrow> size_t \<Rightarrow> size_t \<Rightarrow> (size_t option \<times> 's) option"
    and mark :: "'s \<Rightarrow> 'm option"
    and reset :: "'s \<Rightarrow> 'm \<Rightarrow> 's option"
    and lo :: "'s \<Rightarrow> nat" and hi :: "'s \<Rightarrow> nat"
    and ok :: "'s \<Rightarrow> size_t \<Rightarrow> bool"
    and invar :: "'s \<Rightarrow> bool"
  assumes alloc_total: "invar s \<Longrightarrow> ok s al \<Longrightarrow> alloc s n al \<noteq> None"
    and alloc_block: "invar s \<Longrightarrow> ok s al \<Longrightarrow> alloc s n al = Some (Some p, s') \<Longrightarrow>
      lo s \<le> unat p \<and> unat p + unat n = lo s' \<and> lo s' \<le> hi s \<and> hi s' = hi s \<and> invar s'
        \<and> ok s' = ok s"
    and alloc_null: "invar s \<Longrightarrow> ok s al \<Longrightarrow> alloc s n al = Some (None, s') \<Longrightarrow> s' = s"
    and mark_total: "invar s \<Longrightarrow> mark s \<noteq> None"
    and reset_marked: "invar s \<Longrightarrow> mark s = Some m \<Longrightarrow> reset s m = Some s"
    and reset_alloc: "invar s \<Longrightarrow> ok s al \<Longrightarrow> alloc s n al = Some (r, s') \<Longrightarrow>
      reset s m = Some s0 \<Longrightarrow> reset s' m = Some s0"
    and lo_le_hi: "invar s \<Longrightarrow> lo s \<le> hi s"
begin

lemma alloc_all_blocks:
  assumes "invar s" "\<And>n al. (n, al) \<in> set rs \<Longrightarrow> ok s al"
  shows "\<exists>bs s'. alloc_all alloc s rs = Some (bs, s') \<and> invar s' \<and> hi s' = hi s \<and> lo s \<le> lo s'
    \<and> in_order bs \<and> (\<forall>b \<in> set bs. lo s \<le> fst b \<and> fst b + snd b \<le> lo s')"
  using assms
proof (induction rs arbitrary: s)
  case Nil
  then show ?case by (simp add: in_order_def)
next
  case (Cons q rs)
  obtain n al where q: "q = (n, al)" by force
  from Cons.prems(2) q have ok: "ok s al" by (meson list.set_intros(1))
  from alloc_total [OF Cons.prems(1) ok, of n] obtain r s1 where al: "alloc s n al = Some (r, s1)"
    by auto
  show ?case
  proof (cases r)
    case None
    with al alloc_null [OF Cons.prems(1) ok] have "s1 = s" by blast
    with Cons.IH [OF Cons.prems(1)] Cons.prems(2) al None q show ?thesis by auto
  next
    case (Some p)
    with alloc_block [OF Cons.prems(1) ok] al
    have s1: "lo s \<le> unat p" "unat p + unat n = lo s1" "hi s1 = hi s" "invar s1" "ok s1 = ok s"
      by blast+
    then obtain bs s2 where bs: "alloc_all alloc s1 rs = Some (bs, s2)" "invar s2" "hi s2 = hi s1"
      "lo s1 \<le> lo s2" "in_order bs" "\<forall>b \<in> set bs. lo s1 \<le> fst b \<and> fst b + snd b \<le> lo s2"
      using Cons.IH [OF s1(4)] Cons.prems(2) by force
    then have "alloc_all alloc s (q # rs) = Some ((unat p, unat n) # bs, s2)"
      using al Some q by simp
    moreover have "in_order ((unat p, unat n) # bs)"
      using bs(5,6) s1(2) by (auto simp: in_order_def)
    ultimately show ?thesis using bs s1 by fastforce
  qed
qed

lemma alloc_all_keeps_mark:
  assumes "invar s" "\<And>n al. (n, al) \<in> set rs \<Longrightarrow> ok s al" "alloc_all alloc s rs = Some (bs, s')"
    and "reset s m = Some s0"
  shows "reset s' m = Some s0"
  using assms
proof (induction rs arbitrary: s bs)
  case Nil
  then show ?case by simp
next
  case (Cons q rs)
  obtain n al where q: "q = (n, al)" by force
  from Cons.prems(2) q have ok: "ok s al" by (meson list.set_intros(1))
  from Cons.prems(3) q obtain r s1 bs1 where s1: "alloc s n al = Some (r, s1)"
    "alloc_all alloc s1 rs = Some (bs1, s')"
    by (auto simp: bind_eq_Some_conv split: option.splits)
  from reset_alloc [OF Cons.prems(1) ok s1(1) Cons.prems(4)] have rst: "reset s1 m = Some s0" .
  have kept: "invar s1 \<and> ok s1 = ok s"
  proof (cases r)
    case None
    with s1(1) alloc_null [OF Cons.prems(1) ok] have "s1 = s" by blast
    with Cons.prems(1) show ?thesis by simp
  next
    case (Some p)
    with s1(1) alloc_block [OF Cons.prems(1) ok] show ?thesis by blast
  qed
  have "ok s1 al'" if "(n', al') \<in> set rs" for n' al'
    using Cons.prems(2) [of n' al'] that kept by simp
  with kept show ?case
    using Cons.IH [OF _ _ s1(2) rst] by blast
qed

lemma reset_after_allocs:
  assumes "invar s" "\<And>n al. (n, al) \<in> set rs \<Longrightarrow> ok s al" "alloc_all alloc s rs = Some (bs, s')"
    and "mark s = Some m"
  shows "reset s' m = Some s"
  using alloc_all_keeps_mark [OF assms(1-3) reset_marked [OF assms(1,4)]] .

end

text \<open>The arena serves power-of-two alignments its base is aligned to.\<close>

definition arena_lo :: "arena \<Rightarrow> nat" where
  "arena_lo a = unat (ar_base a) + unat (ar_used a)"

definition arena_hi :: "arena \<Rightarrow> nat" where
  "arena_hi a = unat (ar_base a) + unat (ar_cap a)"

definition arena_ok :: "arena \<Rightarrow> size_t \<Rightarrow> bool" where
  "arena_ok a al \<longleftrightarrow> (\<exists>k \<le> 62. al = 2 ^ k \<and> 2 ^ k dvd unat (ar_base a))"

interpretation arena: region_allocator arena_alloc arena_mark arena_reset_to arena_lo arena_hi
  arena_ok wf_arena
proof
  fix a :: arena and n al :: size_t
  assume wf: "wf_arena a" and "arena_ok a al"
  then obtain k where k: "k \<le> 62" "al = 2 ^ k" "2 ^ k dvd unat (ar_base a)"
    by (auto simp: arena_ok_def)
  note eq = arena_alloc_eq [OF wf k(1,3), of n] and D = arena_alloc_SomeD [OF wf k(1,3), of n]
  show "arena_alloc a n al \<noteq> None" using eq k(2) by simp
  fix a' :: arena
  show "a' = a" if "arena_alloc a n al = Some (None, a')"
    using that eq k(2) by (simp split: if_splits)
  show "arena_lo a \<le> unat p \<and> unat p + unat n = arena_lo a' \<and> arena_lo a' \<le> arena_hi a
      \<and> arena_hi a' = arena_hi a \<and> wf_arena a' \<and> arena_ok a' = arena_ok a"
    if "arena_alloc a n al = Some (Some p, a')" for p
    using D [of p a'] that k(2) le_round_up [of "unat (ar_used a)" k]
    by (auto simp: arena_lo_def arena_hi_def arena_ok_def fun_eq_iff)
  show "arena_reset_to a' m = Some a0"
    if "arena_alloc a n al = Some (r, a')" "arena_reset_to a m = Some a0" for r a0 m
  proof (cases r)
    case None
    with that eq k(2) show ?thesis by (simp split: if_splits)
  next
    case (Some p)
    with that(1) D [of p a'] k(2) le_round_up [of "unat (ar_used a)" k]
    have "ar_used a \<le> ar_used a'" "ar_base a' = ar_base a" "ar_cap a' = ar_cap a"
      by (auto simp: word_le_nat_alt)
    with that(2) show ?thesis
      by (auto simp: arena_reset_to_def require_def split: if_splits)
  qed
next
  fix a m assume "wf_arena a"
  then show "arena_mark a \<noteq> None" "arena_lo a \<le> arena_hi a"
    by (auto simp: arena_mark_def arena_lo_def arena_hi_def wf_arena_def word_le_nat_alt)
  show "arena_reset_to a m = Some a" if "arena_mark a = Some m"
    using that by (auto simp: arena_mark_def arena_reset_to_def bind_eq_Some_conv)
qed

subsection \<open>Properties\<close>

text \<open>
  C38: \<open>arena_alloc\<close> with a power-of-two alignment the region's base meets never fails an
  assertion.  When some aligned block of the requested size fits above the cursor it returns the
  lowest one, aligned and inside the region, and moves the cursor just past it; otherwise it
  returns \<open>NULL\<close> and leaves the arena as it was, however large the request.
\<close>

theorem arena_alloc_lowest_fit:
  assumes "wf_arena a" "k \<le> 62" "2 ^ k dvd unat (ar_base a)"
  shows "(\<exists>off p a'. arena_alloc a n (2 ^ k) = Some (Some p, a')
        \<and> unat (ar_used a) \<le> off \<and> 2 ^ k dvd off \<and> off + unat n \<le> unat (ar_cap a)
        \<and> (\<forall>off'. unat (ar_used a) \<le> off' \<and> 2 ^ k dvd off' \<longrightarrow> off \<le> off')
        \<and> unat p = unat (ar_base a) + off \<and> 2 ^ k dvd unat p
        \<and> unat (ar_used a') = off + unat n \<and> wf_arena a')
    \<or> (arena_alloc a n (2 ^ k) = Some (None, a)
        \<and> (\<forall>off. unat (ar_used a) \<le> off \<and> 2 ^ k dvd off \<longrightarrow> unat (ar_cap a) < off + unat n))"
proof (cases "alloc_offset a k + unat n \<le> unat (ar_cap a)")
  case True
  with arena_alloc_eq [OF assms, of n] obtain p a' where pa: "arena_alloc a n (2 ^ k) = Some (Some p, a')"
    by simp
  from arena_alloc_SomeD [OF assms this] pa True show ?thesis
    using le_round_up [of "unat (ar_used a)" k] dvd_round_up [of k] round_up_least [of k]
    by (intro disjI1 exI [of _ "alloc_offset a k"] exI [of _ p] exI [of _ a']) auto
next
  case False
  with arena_alloc_eq [OF assms, of n] round_up_least [of k _ "unat (ar_used a)"] show ?thesis
    by (intro disjI2) force
qed

definition demo_arena :: arena where
  "demo_arena = \<lparr> ar_base = 4096, ar_cap = 256, ar_used = 1 \<rparr>"

lemma wf_demo_arena: "wf_arena demo_arena" "2 ^ 3 dvd unat (ar_base demo_arena)"
  by (simp_all add: wf_arena_def demo_arena_def)

theorem arena_alloc_lowest_fit_witness:
  "(\<exists>off p a'. arena_alloc demo_arena 4 (2 ^ 3) = Some (Some p, a')
        \<and> unat (ar_used demo_arena) \<le> off \<and> 2 ^ 3 dvd off \<and> off + unat (4::size_t) \<le> unat (ar_cap demo_arena)
        \<and> (\<forall>off'. unat (ar_used demo_arena) \<le> off' \<and> 2 ^ 3 dvd off' \<longrightarrow> off \<le> off')
        \<and> unat p = unat (ar_base demo_arena) + off \<and> 2 ^ 3 dvd unat p
        \<and> unat (ar_used a') = off + unat (4::size_t) \<and> wf_arena a')
    \<or> (arena_alloc demo_arena 4 (2 ^ 3) = Some (None, demo_arena)
        \<and> (\<forall>off. unat (ar_used demo_arena) \<le> off \<and> 2 ^ 3 dvd off
              \<longrightarrow> unat (ar_cap demo_arena) < off + unat (4::size_t)))"
  using arena_alloc_lowest_fit [OF wf_demo_arena(1) _ wf_demo_arena(2), of 4] by simp

text \<open>
  C39: the blocks a sequence of allocations hands out follow one another inside the region, so no
  two of them overlap, and resetting to the mark taken before the sequence gives back exactly the
  arena of that moment.
\<close>

theorem arena_blocks_disjoint_and_reclaimed:
  assumes "wf_arena a" "\<forall>(n, al) \<in> set rs. arena_ok a al"
  shows "\<exists>bs a' m. alloc_all arena_alloc a rs = Some (bs, a') \<and> in_order bs
    \<and> (\<forall>b \<in> set bs. arena_lo a \<le> fst b \<and> fst b + snd b \<le> arena_hi a)
    \<and> arena_mark a = Some m \<and> arena_reset_to a' m = Some a"
proof -
  have ok: "\<And>n al. (n, al) \<in> set rs \<Longrightarrow> arena_ok a al" using assms(2) by blast
  obtain bs a' where
    bs: "alloc_all arena_alloc a rs = Some (bs, a')" "wf_arena a'" "arena_hi a' = arena_hi a"
      "in_order bs" "\<forall>b \<in> set bs. arena_lo a \<le> fst b \<and> fst b + snd b \<le> arena_lo a'"
    using arena.alloc_all_blocks [OF assms(1), of rs] ok by blast
  obtain m where "arena_mark a = Some m" using arena.mark_total [OF assms(1)] by auto
  moreover from this have "arena_reset_to a' m = Some a"
    using arena.reset_after_allocs [OF assms(1) _ bs(1)] ok by blast
  ultimately show ?thesis using bs arena.lo_le_hi [OF bs(2)] by force
qed

theorem arena_blocks_disjoint_and_reclaimed_witness:
  "\<exists>bs a' m. alloc_all arena_alloc demo_arena [(4, 2 ^ 3), (300, 1), (1, 2 ^ 0)] = Some (bs, a')
    \<and> in_order bs \<and> (\<forall>b \<in> set bs. arena_lo demo_arena \<le> fst b \<and> fst b + snd b \<le> arena_hi demo_arena)
    \<and> arena_mark demo_arena = Some m \<and> arena_reset_to a' m = Some demo_arena"
proof -
  have "arena_ok demo_arena (2 ^ 3)" "arena_ok demo_arena 1"
    unfolding arena_ok_def demo_arena_def
    by (rule exI [of _ 3], simp) (rule exI [of _ 0], simp)
  then show ?thesis
    by (intro arena_blocks_disjoint_and_reclaimed wf_demo_arena) simp
qed

end
