(* ===== verification/Parse_Result.thy ===== *)
theory Parse_Result
  imports Byte_Parser Arena
begin

text \<open>
  \<open>src/ParseResult.c\<close> and its header: the status codes, the result every parser returns, and the
  strict unsigned number parser, in 64-bit \<open>size_t\<close> arithmetic.  \<open>uint_reference\<close> is what the
  number parser means on unbounded numbers; the two agree for every limit not below the largest digit of
  the base, and for a smaller one the \<open>size_t\<close> arithmetic wraps.
\<close>

datatype parse_status =
    PARSE_OK
  | PARSE_BAD_REQUEST
  | PARSE_URI_TOO_LONG
  | PARSE_HEADER_KEY_TOO_LONG
  | PARSE_HEADER_VALUE_TOO_LONG
  | PARSE_HEADER_TOO_LONG
  | PARSE_VERSION_NOT_SUPPORTED
  | PARSE_PAYLOAD_TOO_LARGE
  | PARSE_NOT_IMPLEMENTED
  | PARSE_INCOMPLETE
  | PARSE_NOT_FOUND
  | PARSE_NOT_ALLOWED
  | PARSE_SERVER_ERROR

text \<open>Pointers into the parsed object are indices; \<open>None\<close> is the null pointer.\<close>

record parse_result =
  status :: parse_status
  error_position :: "nat option"
  next_pos :: "nat option"

text \<open>\<open>ParseResult res = {0}\<close>.\<close>

definition parse_result_zero :: parse_result where
  "parse_result_zero = \<lparr> status = PARSE_OK, error_position = None, next_pos = None \<rparr>"

definition parse_error_set :: "parse_result \<Rightarrow> parse_status \<Rightarrow> nat \<Rightarrow> parse_result" where
  "parse_error_set res st pos = res\<lparr>status := st, error_position := Some pos\<rparr>"

lemma parse_error_set_simps [simp]:
  "status (parse_error_set res st pos) = st"
  "error_position (parse_error_set res st pos) = Some pos"
  "next_pos (parse_error_set res st pos) = next_pos res"
  by (simp_all add: parse_error_set_def)

lemma parse_result_zero_simps [simp]:
  "status parse_result_zero = PARSE_OK" "next_pos parse_result_zero = None"
  by (simp_all add: parse_result_zero_def)

subsection \<open>Numbers\<close>

definition digit_value :: "char \<Rightarrow> int \<Rightarrow> int" where
  "digit_value c base =
     (let v = (if ord (CHR ''0'') \<le> ord c \<and> ord c \<le> ord (CHR ''9'') then
                 (if \<not> isdigit c then None else Some (int (ord c) - int (ord (CHR ''0''))))
               else if ord (CHR ''a'') \<le> ord c \<and> ord c \<le> ord (CHR ''f'') then
                 (if \<not> is_hex c then None else Some (10 + (int (ord c) - int (ord (CHR ''a'')))))
               else if ord (CHR ''A'') \<le> ord c \<and> ord c \<le> ord (CHR ''F'') then
                 (if \<not> is_hex c then None else Some (10 + (int (ord c) - int (ord (CHR ''A'')))))
               else None)
      in case v of None \<Rightarrow> -1 | Some v \<Rightarrow> if v < base then v else -1)"

text \<open>
  The loop of \<open>uint_parse\<close>: \<open>n\<close> bytes are left at \<open>i\<close>; \<open>digit\<close> and \<open>base\<close> are converted to
  \<open>size_t\<close> before the comparison, as C does.
\<close>

fun uint_parse_loop :: "mem \<Rightarrow> nat \<Rightarrow> nat \<Rightarrow> int \<Rightarrow> size_t \<Rightarrow> size_t
    \<Rightarrow> (parse_status + size_t) option" where
  "uint_parse_loop s i 0 base mx result = Some (Inr result)"
| "uint_parse_loop s i (Suc n) base mx result = do {
     c \<leftarrow> rd s i;
     let digit = digit_value c base;
     if digit = -1 then Some (Inl PARSE_BAD_REQUEST)
     else if result > (mx - word_of_int digit) div word_of_int base then Some (Inl PARSE_PAYLOAD_TOO_LARGE)
     else uint_parse_loop s (i + 1) n base mx (result * word_of_int base + word_of_int digit)
   }"

text \<open>The second component is the value stored through \<open>out\<close>, \<open>None\<close> when it is left alone.\<close>

definition uint_parse :: "mem \<Rightarrow> nat \<Rightarrow> nat \<Rightarrow> int \<Rightarrow> size_t
    \<Rightarrow> (parse_status \<times> size_t option) option" where
  "uint_parse s i n base mx = do {
     empty \<leftarrow> (if n = 0 then Some True else do { c \<leftarrow> rd s i; Some (c = NUL) });
     if empty then Some (PARSE_BAD_REQUEST, None)
     else do {
       r \<leftarrow> uint_parse_loop s i n base mx 0;
       Some (case r of Inl st \<Rightarrow> (st, None) | Inr v \<Rightarrow> (PARSE_OK, Some v))
     }
   }"

subsection \<open>What a number means\<close>

definition digit_ok :: "int \<Rightarrow> char \<Rightarrow> bool" where
  "digit_ok base c \<longleftrightarrow> digit_value c base \<noteq> -1"

definition digits_value :: "nat \<Rightarrow> string \<Rightarrow> nat" where
  "digits_value base cs = foldl (\<lambda>v c. v * base + nat (digit_value c (int base))) 0 cs"

text \<open>Left to right: the first bad byte or the first prefix above the limit decides.\<close>

fun uint_reference :: "nat \<Rightarrow> nat \<Rightarrow> nat \<Rightarrow> string \<Rightarrow> parse_status + nat" where
  "uint_reference base mx v [] = Inr v"
| "uint_reference base mx v (c # cs) =
     (if \<not> digit_ok (int base) c then Inl PARSE_BAD_REQUEST
      else let v' = v * base + nat (digit_value c (int base))
           in if mx < v' then Inl PARSE_PAYLOAD_TOO_LARGE else uint_reference base mx v' cs)"

lemma digit_value_range: "digit_ok base c \<Longrightarrow> 0 \<le> digit_value c base \<and> digit_value c base < base \<and> digit_value c base < 16"
  by (auto simp: digit_ok_def digit_value_def Let_def ord_def split: if_splits)

lemma digit_ok_NUL [simp]: "\<not> digit_ok base NUL"
  by (simp add: digit_ok_def digit_value_def ord_def)

text \<open>The overflow guard of the loop, on words, is the comparison with the limit on numbers.\<close>

lemma uint_guard:
  assumes base: "2 \<le> base" "base \<le> 16" and mx: "base \<le> unat mx + 1" "unat mx < 2 ^ 59"
    and d: "d < base" and r: "unat r \<le> unat (mx :: size_t)"
  shows "r > (mx - word_of_nat d) div word_of_nat base \<longleftrightarrow> unat mx < unat r * base + d"
    and "unat (r * word_of_nat base + word_of_nat d) = unat r * base + d"
proof -
  have small: "x < 2 ^ 64 \<Longrightarrow> unat (word_of_nat x :: size_t) = x" for x
    by (subst unat_of_nat) simp
  have ub: "unat (word_of_nat base :: size_t) = base" and ud: "unat (word_of_nat d :: size_t) = d"
    using base d by (simp_all add: small)
  have "(word_of_nat d :: size_t) \<le> mx" using mx d base by (simp add: word_le_nat_alt ud)
  then have "unat (mx - word_of_nat d) = unat mx - d" by (simp add: unat_sub ud)
  then have q: "unat ((mx - word_of_nat d) div word_of_nat base) = (unat mx - d) div base"
    by (simp add: unat_div ub)
  have "(unat mx - d) div base < unat r \<longleftrightarrow> unat mx - d < unat r * base"
    using base by (simp add: div_less_iff_less_mult)
  also have "\<dots> \<longleftrightarrow> unat mx < unat r * base + d"
    using mx d base by linarith
  finally show "r > (mx - word_of_nat d) div word_of_nat base \<longleftrightarrow> unat mx < unat r * base + d"
    by (simp add: word_less_nat_alt q)
  have "unat r * base \<le> unat mx * 16" using r base(2) by (rule mult_le_mono)
  then have lt: "unat r * base + d < 2 ^ 64" using mx base d by simp
  then have "unat (r * word_of_nat base) = unat r * base"
    using unat_mult_lem [of r "word_of_nat base"] ub by simp
  with lt ud show "unat (r * word_of_nat base + word_of_nat d) = unat r * base + d"
    using unat_add_lem [of "r * word_of_nat base" "word_of_nat d"] by simp
qed

lemma uint_parse_loop_reference:
  assumes "2 \<le> base" "base \<le> 16" "base \<le> unat mx + 1" "unat mx < 2 ^ 59"
    and "i + n \<le> length s" "unat r \<le> unat mx"
  shows "map_option (map_sum id unat) (uint_parse_loop s i n (int base) mx r)
    = Some (uint_reference base (unat mx) (unat r) (take n (drop i s)))"
  using assms(5,6)
proof (induction n arbitrary: i r)
  case 0
  then show ?case by simp
next
  case (Suc n)
  then have dr: "drop i s = s ! i # drop (Suc i) s" by (simp add: Cons_nth_drop_Suc)
  show ?case
  proof (cases "digit_ok (int base) (s ! i)")
    case False
    with Suc.prems dr show ?thesis by (simp add: fault_simps digit_ok_def)
  next
    case True
    define d where "d = nat (digit_value (s ! i) (int base))"
    from digit_value_range [OF True] have d: "d < base" "digit_value (s ! i) (int base) = int d"
      by (auto simp: d_def)
    note g = uint_guard [OF assms(1-4) d(1) Suc.prems(2)]
    show ?thesis
    proof (cases "unat mx < unat r * base + d")
      case True
      with g(1) d(2) \<open>digit_ok _ _\<close> Suc.prems dr show ?thesis
        by (simp add: fault_simps digit_ok_def Let_def)
    next
      case False
      with g(2) have "unat (r * word_of_nat base + word_of_nat d) \<le> unat mx" by simp
      from Suc.IH [OF _ this, of "Suc i"] Suc.prems False g d(2) \<open>digit_ok _ _\<close> dr show ?thesis
        by (simp add: fault_simps digit_ok_def Let_def)
    qed
  qed
qed

lemma uint_reference_Inr_iff:
  "uint_reference base mx v cs = Inr r \<longleftrightarrow>
     list_all (digit_ok (int base)) cs \<and> r = foldl (\<lambda>v c. v * base + nat (digit_value c (int base))) v cs
     \<and> (r \<le> mx \<or> cs = [])" if "1 \<le> base"
proof (induction cs arbitrary: v)
  case Nil
  then show ?case by auto
next
  case (Cons c cs)
  have grow: "v \<le> foldl (\<lambda>v c. v * base + nat (digit_value c (int base))) v cs" for v
  proof (induction cs arbitrary: v)
    case (Cons c cs)
    have "v \<le> v * base" using that by simp
    then have "v \<le> v * base + nat (digit_value c (int base))" by (rule trans_le_add1)
    also have "\<dots> \<le> foldl (\<lambda>v c. v * base + nat (digit_value c (int base))) \<dots> cs" by (rule Cons.IH)
    finally show ?case by simp
  qed simp
  let ?v' = "v * base + nat (digit_value c (int base))"
  show ?case
  proof (cases "digit_ok (int base) c \<and> ?v' \<le> mx")
    case True
    then have "uint_reference base mx v (c # cs) = uint_reference base mx ?v' cs"
      by (simp add: Let_def)
    with True Cons.IH [of ?v'] show ?thesis by auto
  next
    case False
    with grow [of ?v'] show ?thesis by (auto simp: Let_def)
  qed
qed

lemma uint_reference_Inl_status:
  "uint_reference base mx v cs = Inl st \<Longrightarrow> st = PARSE_BAD_REQUEST \<or> st = PARSE_PAYLOAD_TOO_LARGE"
  by (induction cs arbitrary: v) (auto simp: Let_def split: if_splits)

lemma uint_parse_reference_any:
  assumes "2 \<le> base" "base \<le> 16" "base \<le> unat mx + 1" "unat mx < 2 ^ 59" "i + n \<le> length s"
  shows "map_option (map_prod id (map_option unat)) (uint_parse s i n (int base) mx)
    = Some (if n = 0 then (PARSE_BAD_REQUEST, None)
            else case uint_reference base (unat mx) 0 (take n (drop i s)) of
                   Inl st \<Rightarrow> (st, None) | Inr v \<Rightarrow> (PARSE_OK, Some v))"
proof (cases "n = 0")
  case True
  then show ?thesis by (simp add: uint_parse_def)
next
  case False
  with assms(5) have dr: "take n (drop i s) = s ! i # take (n - 1) (drop (Suc i) s)"
    by (simp add: Cons_nth_drop_Suc [symmetric] take_Cons')
  from uint_parse_loop_reference [OF assms, of 0] obtain r where
    r: "uint_parse_loop s i n (int base) mx 0 = Some r"
    "map_sum id unat r = uint_reference base (unat mx) 0 (take n (drop i s))"
    by auto
  show ?thesis
  proof (cases "s ! i = NUL")
    case True
    with False assms(5) dr show ?thesis by (simp add: uint_parse_def fault_simps)
  next
    case nn: False
    with False assms(5) r show ?thesis
      by (cases r) (simp_all add: uint_parse_def fault_simps r(2) [symmetric])
  qed
qed

text \<open>The limits of a configuration are in range for both bases.\<close>

lemma uint_parse_reference_plain:
  assumes "2 \<le> base" "base \<le> 16" "15 \<le> unat mx" "unat mx < 2 ^ 59" "i + n \<le> length s"
  shows "map_option (map_prod id (map_option unat)) (uint_parse s i n (int base) mx)
    = Some (if n = 0 then (PARSE_BAD_REQUEST, None)
            else case uint_reference base (unat mx) 0 (take n (drop i s)) of
                   Inl st \<Rightarrow> (st, None) | Inr v \<Rightarrow> (PARSE_OK, Some v))"
  by (rule uint_parse_reference_any) (use assms in simp_all)

abbreviation body_limit :: "config \<Rightarrow> size_t" where
  "body_limit cfg \<equiv> word_of_nat (max_body_len cfg)"

lemma unat_body_limit [simp]: "wf_config cfg \<Longrightarrow> unat (body_limit cfg) = max_body_len cfg"
  using wf_configD(8) [of cfg] by (subst unat_of_nat) simp

text \<open>When a number is accepted.\<close>

lemma uint_parse_OK_iff:
  assumes "2 \<le> base" "base \<le> 16" "base \<le> unat mx + 1" "unat mx < 2 ^ 59" "i + n \<le> length s"
  shows "uint_parse s i n (int base) mx = Some (PARSE_OK, Some v) \<longleftrightarrow>
     n \<noteq> 0 \<and> list_all (digit_ok (int base)) (take n (drop i s))
     \<and> unat v = digits_value base (take n (drop i s)) \<and> unat v \<le> unat mx"
proof -
  let ?cs = "take n (drop i s)"
  have ne: "n \<noteq> 0 \<Longrightarrow> ?cs \<noteq> []" using assms(5) by auto
  have "uint_parse s i n (int base) mx = Some (PARSE_OK, Some v) \<longleftrightarrow>
      map_option (map_prod id (map_option unat)) (uint_parse s i n (int base) mx)
        = Some (PARSE_OK, Some (unat v))"
    by (auto simp: map_option_case split: option.splits prod.splits dest: unsigned_word_eqI)
  also have "\<dots> \<longleftrightarrow> n \<noteq> 0 \<and> uint_reference base (unat mx) 0 ?cs = Inr (unat v)"
    unfolding uint_parse_reference_any [OF assms]
    by (auto split: sum.splits dest: uint_reference_Inl_status)
  also have "\<dots> \<longleftrightarrow> n \<noteq> 0 \<and> list_all (digit_ok (int base)) ?cs
      \<and> unat v = digits_value base ?cs \<and> unat v \<le> unat mx"
    using uint_reference_Inr_iff [of base "unat mx" 0 ?cs "unat v"] assms(1) ne
    by (auto simp: digits_value_def)
  finally show ?thesis .
qed

text \<open>
  A limit below a digit does not hold for that digit: \<open>max - digit\<close> wraps around, and a number of this one
  digit is accepted.
\<close>

lemma uint_parse_small_limit:
  assumes "i < length s" "digit_value (s ! i) base = int d" "unat mx < d"
  shows "uint_parse s i 1 base mx = Some (PARSE_OK, Some (word_of_nat d))"
proof -
  have "digit_ok base (s ! i)" using assms(2) by (simp add: digit_ok_def)
  then have "s ! i \<noteq> NUL" by (auto simp del: digit_ok_NUL dest: digit_ok_NUL [THEN notE])
  with assms(1,2) show ?thesis by (simp add: uint_parse_def fault_simps)
qed

subsection \<open>Property of the number parser\<close>

text \<open>
  C37: what \<open>uint_parse\<close> makes of any range of bytes, for any base from 2 to 16 and any limit below \<open>2 ^ 59\<close>.  When
  the limit is at least the largest digit of the base it returns what the unbounded left-to-right reference
  returns, so its word arithmetic does not wrap: an empty range or a leading NUL is a bad request, and a number
  is accepted exactly if it has digits of the base only and its value is at most the limit, and then it is that
  value.  The limits the program uses are of this kind.  For a smaller limit the arithmetic does wrap:
  a number of one digit is accepted although it is above the limit.
\<close>

theorem uint_parse_reference:
  assumes "2 \<le> base" "base \<le> 16" "unat mx < 2 ^ 59" "i + n \<le> length s"
  shows "(base \<le> unat mx + 1 \<longrightarrow>
       map_option (map_prod id (map_option unat)) (uint_parse s i n (int base) mx)
       = Some (if n = 0 then (PARSE_BAD_REQUEST, None)
               else case uint_reference base (unat mx) 0 (take n (drop i s)) of
                      Inl st \<Rightarrow> (st, None) | Inr v \<Rightarrow> (PARSE_OK, Some v))
       \<and> (\<forall>v. uint_parse s i n (int base) mx = Some (PARSE_OK, Some v) \<longleftrightarrow>
            n \<noteq> 0 \<and> list_all (digit_ok (int base)) (take n (drop i s))
            \<and> unat v = digits_value base (take n (drop i s)) \<and> unat v \<le> unat mx))
    \<and> (\<forall>d. n = 1 \<and> digit_value (s ! i) (int base) = int d \<and> unat mx < d \<longrightarrow>
         uint_parse s i n (int base) mx = Some (PARSE_OK, Some (word_of_nat d)))"
proof (intro conjI impI allI)
  assume "base \<le> unat mx + 1"
  note hyps = assms(1,2) this assms(3,4)
  show "map_option (map_prod id (map_option unat)) (uint_parse s i n (int base) mx)
       = Some (if n = 0 then (PARSE_BAD_REQUEST, None)
               else case uint_reference base (unat mx) 0 (take n (drop i s)) of
                      Inl st \<Rightarrow> (st, None) | Inr v \<Rightarrow> (PARSE_OK, Some v))"
    by (rule uint_parse_reference_any [OF hyps])
  show "uint_parse s i n (int base) mx = Some (PARSE_OK, Some v) \<longleftrightarrow>
            n \<noteq> 0 \<and> list_all (digit_ok (int base)) (take n (drop i s))
            \<and> unat v = digits_value base (take n (drop i s)) \<and> unat v \<le> unat mx" for v
    by (rule uint_parse_OK_iff [OF hyps])
qed (use assms(4) uint_parse_small_limit [of i s "int base"] in auto)

text \<open>In range, and above a limit that is smaller than a digit.\<close>

theorem uint_parse_reference_witness:
  "uint_parse ''1024'' 0 4 (int 10) 1024 = Some (PARSE_OK, Some 1024)
    \<and> uint_parse ''1024'' 0 4 (int 10) 1023 \<noteq> Some (PARSE_OK, Some 1024)
    \<and> uint_parse ''9'' 0 1 (int 10) 5 = Some (PARSE_OK, Some (word_of_nat 9))"
proof (intro conjI)
  have digits: "digits_value 10 ''1024'' = 1024" "list_all (digit_ok (int 10)) ''1024''" "digit_value (CHR ''9'') (int 10) = int 9"
    by code_simp+
  show "uint_parse ''1024'' 0 4 (int 10) 1024 = Some (PARSE_OK, Some 1024)"
    using uint_parse_reference [of 10 1024 0 4 "''1024''"] digits by simp
  show "uint_parse ''1024'' 0 4 (int 10) 1023 \<noteq> Some (PARSE_OK, Some 1024)"
    using uint_parse_reference [of 10 1023 0 4 "''1024''"] digits by simp
  show "uint_parse ''9'' 0 1 (int 10) 5 = Some (PARSE_OK, Some (word_of_nat 9))"
    using uint_parse_reference [of 10 5 0 1 "''9''"] digits(3) by simp
qed

subsection \<open>The contract of a line parser\<close>

text \<open>
  What \<open>request_parse\<close> relies on: given the bytes of one line, with at least one more byte of the
  buffer behind them and at least \<open>reads\<close> bytes of the buffer from the cursor on (whatever the
  length of the line), a line parser does not fault, accepts exactly a relation between the state
  before, the line and the state after, and on acceptance leaves the cursor at the end of the line.
  \<open>request_line_parse\<close> and \<open>header_line_parse\<close> provide it.
\<close>

locale line_parser =
  fixes parse :: "config \<Rightarrow> mem \<Rightarrow> nat \<Rightarrow> nat \<Rightarrow> 's \<Rightarrow> (parse_result \<times> 's) option"
    and accepts :: "config \<Rightarrow> 's \<Rightarrow> string \<Rightarrow> 's \<Rightarrow> bool"
    and errors :: "parse_status set"
    and reads :: nat
  assumes parse_decides:
    "wf_config cfg \<Longrightarrow> cur \<le> en \<Longrightarrow> en < length m \<Longrightarrow> cur + reads \<le> length m \<Longrightarrow>
       \<exists>res s'. parse cfg m cur en s = Some (res, s')
       \<and> (if status res = PARSE_OK then accepts cfg s (seg m cur en) s' \<and> next_pos res = Some en
          else status res \<in> errors \<and> (\<nexists>s'. accepts cfg s (seg m cur en) s'))"
begin

lemma parse_cases:
  assumes "wf_config cfg" "cur \<le> en" "en < length m" "cur + reads \<le> length m"
  obtains (ok) res s' where "parse cfg m cur en s = Some (res, s')" "status res = PARSE_OK"
      "next_pos res = Some en" "accepts cfg s (seg m cur en) s'"
  | (bad) res s' where "parse cfg m cur en s = Some (res, s')" "status res \<noteq> PARSE_OK"
      "status res \<in> errors" "\<And>s'. \<not> accepts cfg s (seg m cur en) s'"
  using parse_decides [OF assms, of s] by (metis (no_types, lifting))

lemma parse_OK_iff:
  assumes "wf_config cfg" "cur \<le> en" "en < length m" "cur + reads \<le> length m"
  shows "(\<exists>res s'. parse cfg m cur en s = Some (res, s') \<and> status res = PARSE_OK)
     \<longleftrightarrow> (\<exists>s'. accepts cfg s (seg m cur en) s')"
  using assms by (cases rule: parse_cases [of cfg cur en m s]) auto

end

end
