(* ===== verification/Text_Format.thy ===== *)
theory Text_Format
  imports Parse_Result
begin

text \<open>
  The formatted output the server uses: \<open>snprintf\<close> with \<open>%d\<close>, \<open>%zu\<close>, \<open>%zx\<close> and \<open>%s\<close>, \<open>strncat\<close> on a
  string, and \<open>gmtime\<close> with \<open>strftime\<close> for the date format of HTTP.
\<close>

subsection \<open>Numbers\<close>

definition digit_char :: "nat \<Rightarrow> char" where
  "digit_char d = (if d < 10 then char_of (48 + d) else char_of (87 + d))"

text \<open>The digits of a number in a base of at least two.\<close>

function show_base :: "nat \<Rightarrow> nat \<Rightarrow> string" where
  "show_base b n = (if n < b \<or> b < 2 then [digit_char n]
     else show_base b (n div b) @ [digit_char (n mod b)])"
  by pat_completeness auto
termination
  by (relation "measure snd") (auto intro: div_less_dividend)

declare show_base.simps [simp del]

definition show_nat :: "nat \<Rightarrow> string" where
  "show_nat n = show_base 10 n"

definition show_hex :: "nat \<Rightarrow> string" where
  "show_hex n = show_base 16 n"

definition show_int :: "int \<Rightarrow> string" where
  "show_int i = (if i < 0 then CHR ''-'' # show_nat (nat (- i)) else show_nat (nat i))"

text \<open>\<open>%02d\<close> of a number below 100.\<close>

definition show_2 :: "nat \<Rightarrow> string" where
  "show_2 n = [digit_char (n div 10), digit_char (n mod 10)]"

lemma digit_value_digit_char:
  assumes "d < base" "base \<le> 16"
  shows "digit_value (digit_char d) (int base) = int d"
proof -
  have "d \<in> set [0..<16]" using assms by simp
  moreover have "[0..<16] = [0, 1, 2, 3, 4, 5, 6, 7, 8, 9, 10, 11, 12, 13, 14, 15]" by (simp add: upt_rec)
  ultimately have "d \<in> {0, 1, 2, 3, 4, 5, 6, 7, 8, 9, 10, 11, 12, 13, 14, 15}" by simp
  with assms show ?thesis
    by (auto simp: digit_value_def digit_char_def ord_def is_hex_def isdigit_def)
qed

lemma digit_char_ok: "d < base \<Longrightarrow> base \<le> 16 \<Longrightarrow> digit_ok (int base) (digit_char d)"
  by (simp add: digit_ok_def digit_value_digit_char)

text \<open>Printed digits read back as the number.\<close>

lemma show_base_digits:
  assumes "2 \<le> base" "base \<le> 16"
  shows "list_all (digit_ok (int base)) (show_base base n) \<and> digits_value base (show_base base n) = n
    \<and> show_base base n \<noteq> []"
proof (induction n rule: less_induct)
  case (less n)
  show ?case
  proof (cases "n < base")
    case True
    then show ?thesis using assms
      by (subst (1 2 3) show_base.simps) (simp add: digit_char_ok digits_value_def digit_value_digit_char)
  next
    case False
    then have "n div base < n" using assms by simp
    note ih = less.IH [OF this]
    have "show_base base n = show_base base (n div base) @ [digit_char (n mod base)]"
      using False assms by (subst show_base.simps) simp
    moreover have "n mod base < base" using assms by simp
    ultimately show ?thesis using ih assms
      by (simp add: digit_char_ok digits_value_def digit_value_digit_char)
  qed
qed

lemma length_show_base:
  assumes "2 \<le> base" "n < base ^ k" "0 < k"
  shows "length (show_base base n) \<le> k"
  using assms(2,3)
proof (induction k arbitrary: n)
  case 0
  then show ?case by simp
next
  case (Suc k)
  show ?case
  proof (cases "n < base")
    case True
    then show ?thesis by (subst show_base.simps) simp
  next
    case False
    have "n div base < base ^ k" using Suc.prems(1) assms(1) by (simp add: less_mult_imp_div_less mult.commute)
    moreover have "0 < k" using False Suc.prems(1) by (cases k) auto
    ultimately have "length (show_base base (n div base)) \<le> k" by (rule Suc.IH)
    with False assms(1) show ?thesis by (subst show_base.simps) simp
  qed
qed

lemma digit_char_no_CRLF: "d < 16 \<Longrightarrow> digit_char d \<noteq> CR \<and> digit_char d \<noteq> LF"
proof -
  assume "d < 16"
  then have "digit_ok (int 16) (digit_char d)" by (rule digit_char_ok) simp
  moreover have "\<not> digit_ok (int 16) CR" "\<not> digit_ok (int 16) LF"
    by (simp_all add: digit_ok_def digit_value_def ord_def)
  ultimately show ?thesis by metis
qed

subsection \<open>Formatted writes\<close>

text \<open>
  \<open>snprintf (m + at, cap, ...)\<close> for the formatted text \<open>s\<close>: at most \<open>cap - 1\<close> bytes and a NUL are
  written, the length of the whole text is returned.
\<close>

definition snprintf :: "mem \<Rightarrow> nat \<Rightarrow> nat \<Rightarrow> string \<Rightarrow> (nat \<times> mem) option" where
  "snprintf m at cap s = (if cap = 0 then Some (length s, m) else do {
     m \<leftarrow> blit m at (take (cap - 1) s @ [NUL]);
     Some (length s, m)
   })"

text \<open>\<open>strncat (dst, src, n)\<close> on the text in \<open>dst\<close>.\<close>

definition strncat :: "string \<Rightarrow> string \<Rightarrow> nat \<Rightarrow> string" where
  "strncat dst src n = dst @ take n src"

subsection \<open>Dates\<close>

record tm =
  tm_year :: int
  tm_mon :: nat
  tm_mday :: nat
  tm_hour :: nat
  tm_min :: nat
  tm_sec :: nat
  tm_wday :: nat

text \<open>
  The proleptic Gregorian calendar, in cycles of 400, 100, 4 and 1 years that start on the first of
  March, so that a leap day is the last of its cycle. \<open>year_day\<close> gives the year and the day of such a
  year, \<open>tm_mon\<close> counts from 0, \<open>tm_year\<close> is the year itself.
\<close>

definition year_day :: "int \<Rightarrow> int \<times> int" where
  "year_day z = (let
     n400 = z div 146097; r400 = z mod 146097;
     n100 = min (r400 div 36524) 3; r100 = r400 - 36524 * n100;
     n4 = r100 div 1461; r4 = r100 mod 1461;
     n1 = min (r4 div 365) 3
   in (400 * n400 + 100 * n100 + 4 * n4 + n1, r4 - 365 * n1))"

definition gmtime :: "int \<Rightarrow> tm" where
  "gmtime t = (let
     days = t div 86400; secs = nat (t mod 86400);
     (year, doy) = year_day (days + 719468);
     mp = (5 * doy + 2) div 153;
     mday = nat (doy - (153 * mp + 2) div 5 + 1);
     mon = nat (if mp < 10 then mp + 2 else mp - 10)
   in \<lparr> tm_year = (if mon \<le> 1 then year + 1 else year), tm_mon = mon,
        tm_mday = mday, tm_hour = secs div 3600, tm_min = secs div 60 mod 60, tm_sec = secs mod 60,
        tm_wday = nat ((days + 4) mod 7) \<rparr>)"

definition wday_names :: "string list" where
  "wday_names = [''Sun'', ''Mon'', ''Tue'', ''Wed'', ''Thu'', ''Fri'', ''Sat'']"

definition mon_names :: "string list" where
  "mon_names = [''Jan'', ''Feb'', ''Mar'', ''Apr'', ''May'', ''Jun'', ''Jul'', ''Aug'', ''Sep'', ''Oct'', ''Nov'', ''Dec'']"

text \<open>The text of \<open>HTTP_DATE_FMT\<close>, \<open>%a, %d %b %Y %H:%M:%S GMT\<close>.\<close>

definition http_date_text :: "tm \<Rightarrow> string" where
  "http_date_text g = wday_names ! tm_wday g @ '', '' @ show_2 (tm_mday g) @ '' '' @ mon_names ! tm_mon g
     @ '' '' @ show_int (tm_year g) @ '' '' @ show_2 (tm_hour g) @ '':'' @ show_2 (tm_min g) @ '':''
     @ show_2 (tm_sec g) @ '' GMT''"

text \<open>\<open>strftime\<close>: the text and a NUL when both fit, else the result 0 and nothing to rely on.\<close>

definition strftime :: "mem \<Rightarrow> nat \<Rightarrow> nat \<Rightarrow> string \<Rightarrow> (nat \<times> mem) option" where
  "strftime m at cap s = (if length s < cap then do {
     m \<leftarrow> blit m at (s @ [NUL]);
     Some (length s, m)
   } else Some (0, m))"

definition http_date_format :: "int \<Rightarrow> mem \<Rightarrow> nat \<Rightarrow> (nat \<times> mem) option" where
  "http_date_format t buf buf_len = strftime buf 0 buf_len (http_date_text (gmtime t))"

text \<open>Clocks whose year has four digits.\<close>

definition sane_clock :: "int \<Rightarrow> bool" where
  "sane_clock t \<longleftrightarrow> 0 \<le> t \<and> t < 240784704000"

lemma year_day_bounds:
  assumes "year_day z = (y, doy)"
  shows "0 \<le> doy" "doy \<le> 365" "400 * (z div 146097) \<le> y" "y \<le> 400 * (z div 146097) + 399"
proof -
  define r400 where "r400 = z mod 146097"
  define p where "p = r400 div 36524"
  define r100 where "r100 = r400 - 36524 * min p 3"
  define r where "r = r100 mod 1461"
  define n where "n = r100 div 1461"
  define q where "q = r div 365"
  have y: "y = 400 * (z div 146097) + 100 * min p 3 + 4 * n + min q 3" and doy: "doy = r - 365 * min q 3"
    using assms [symmetric] by (simp_all only: year_day_def Let_def r400_def p_def r100_def r_def n_def q_def prod.inject simp_thms)
  have r400: "0 \<le> r400" "r400 < 146097" by (simp_all add: r400_def)
  have p: "r400 = 36524 * p + r400 mod 36524" "0 \<le> r400 mod 36524" "r400 mod 36524 < 36524"
    by (simp_all add: p_def)
  have p0: "0 \<le> p" using p r400 by linarith
  have r100: "0 \<le> r100" "r100 \<le> 36524"
    using p p0 r400 unfolding r100_def by (cases "p \<le> 3"; simp add: min_def; linarith)+
  have n: "r100 = 1461 * n + r" "0 \<le> r" "r < 1461" by (simp_all add: r_def n_def)
  have n0: "0 \<le> n" "n \<le> 24" using n r100 by linarith+
  have q: "r = 365 * q + r mod 365" "0 \<le> r mod 365" "r mod 365 < 365" by (simp_all add: q_def)
  have q0: "0 \<le> q" using q n by linarith
  show "0 \<le> doy" "doy \<le> 365"
    using q q0 n unfolding doy by (cases "q \<le> 3"; simp add: min_def; linarith)+
  show "400 * (z div 146097) \<le> y" using p0 n0 q0 by (simp add: y)
  have "min p 3 \<le> 3" "min q 3 \<le> 3" by simp_all
  then show "y \<le> 400 * (z div 146097) + 399" using n0 unfolding y by linarith
qed

lemma gmtime_ranges:
  "tm_wday (gmtime t) < 7" "tm_mon (gmtime t) < 12" "tm_mday (gmtime t) \<le> 31"
  "sane_clock t \<Longrightarrow> 1000 \<le> tm_year (gmtime t) \<and> tm_year (gmtime t) < 10000"
proof -
  obtain y doy where yd: "year_day (t div 86400 + 719468) = (y, doy)" by fastforce
  note b = year_day_bounds [OF yd]
  define mp where "mp = (5 * doy + 2) div 153"
  define w where "w = (t div 86400 + 4) mod 7"
  have mp: "0 \<le> mp" "mp \<le> 11" using b(1,2) unfolding mp_def by linarith+
  have w: "w < 7" by (simp add: w_def)
  have g: "tm_wday (gmtime t) = nat w" "tm_mon (gmtime t) = nat (if mp < 10 then mp + 2 else mp - 10)"
    "tm_mday (gmtime t) = nat (doy - (153 * mp + 2) div 5 + 1)"
    "tm_year (gmtime t) = y \<or> tm_year (gmtime t) = y + 1"
    by (simp_all add: gmtime_def Let_def yd mp_def w_def)
  show "tm_wday (gmtime t) < 7" using w by (simp add: g)
  show "tm_mon (gmtime t) < 12" using mp by (auto simp: g)
  have "5 * doy + 2 = 153 * mp + (5 * doy + 2) mod 153" "(5 * doy + 2) mod 153 < 153"
    by (simp_all add: mp_def)
  moreover have "153 * mp + 2 = 5 * ((153 * mp + 2) div 5) + (153 * mp + 2) mod 5" "(153 * mp + 2) mod 5 < 5"
    by simp_all
  ultimately have "doy - (153 * mp + 2) div 5 + 1 \<le> 31" by linarith
  then show "tm_mday (gmtime t) \<le> 31" by (simp add: g)
  assume "sane_clock t"
  then have t: "0 \<le> t div 86400" "t div 86400 < 2786860" by (auto simp: sane_clock_def)
  define k where "k = (t div 86400 + 719468) div 146097"
  have "t div 86400 + 719468 = 146097 * k + (t div 86400 + 719468) mod 146097"
    "0 \<le> (t div 86400 + 719468) mod 146097" "(t div 86400 + 719468) mod 146097 < 146097"
    by (simp_all add: k_def)
  with t have "4 \<le> k" "k \<le> 23" by linarith+
  with b(3,4) g(4) show "1000 \<le> tm_year (gmtime t) \<and> tm_year (gmtime t) < 10000"
    unfolding k_def by linarith
qed

lemma length_show_2 [simp]: "length (show_2 n) = 2"
  by (simp add: show_2_def)

lemma length_show_int_year:
  assumes "1000 \<le> i" "i < 10000"
  shows "length (show_int i) = 4"
proof -
  define n where "n = nat i"
  have n: "1000 \<le> n" "n < 10000" using assms by (simp_all add: n_def)
  then have "show_base 10 n = show_base 10 (n div 10) @ [digit_char (n mod 10)]"
    "show_base 10 (n div 10) = show_base 10 (n div 10 div 10) @ [digit_char (n div 10 mod 10)]"
    "show_base 10 (n div 10 div 10) = show_base 10 (n div 10 div 10 div 10) @ [digit_char (n div 10 div 10 mod 10)]"
    "show_base 10 (n div 10 div 10 div 10) = [digit_char (n div 10 div 10 div 10)]"
    by (subst show_base.simps; simp)+
  then show ?thesis using assms by (simp add: show_int_def show_nat_def n_def)
qed

lemma nth_names:
  "i < 7 \<Longrightarrow> length (wday_names ! i) = 3" "j < 12 \<Longrightarrow> length (mon_names ! j) = 3"
proof -
  have "list_all (\<lambda>s. length s = 3) wday_names" "list_all (\<lambda>s. length s = 3) mon_names"
    "length wday_names = 7" "length mon_names = 12"
    by (simp_all add: wday_names_def mon_names_def)
  then show "i < 7 \<Longrightarrow> length (wday_names ! i) = 3" "j < 12 \<Longrightarrow> length (mon_names ! j) = 3"
    by (simp_all add: list_all_length)
qed

lemma length_http_date: "sane_clock t \<Longrightarrow> length (http_date_text (gmtime t)) = 29"
  using gmtime_ranges [of t]
  by (simp add: http_date_text_def nth_names length_show_int_year)

end
