(* ===== verification/Http_Date.thy ===== *)
theory Http_Date
  imports Text_Format
begin

text \<open>
  Reading back the dates of \<open>HTTP_DATE_FMT\<close>: \<open>strptime\<close> for the directives of that format and
  \<open>timegm\<close>, as \<open>http_date_parse\<close> of \<open>src/ParseResult.c\<close> uses them.  The calendar of \<open>timegm\<close> is the
  inverse of that of \<open>gmtime\<close>, so a date the server has sent reads back as its time.
\<close>

subsection \<open>strptime\<close>

definition is_space :: "char \<Rightarrow> bool" where
  "is_space c \<longleftrightarrow> c = CHR 0x20 \<or> (9 \<le> ord c \<and> ord c \<le> 13)"

text \<open>A space of the format skips white space, other characters stand for themselves.\<close>

definition skip_space :: "string \<Rightarrow> string" where
  "skip_space s = dropWhile is_space s"

fun literal :: "string \<Rightarrow> string \<Rightarrow> string option" where
  "literal [] s = Some s"
| "literal (c # cs) s = (if c = CHR 0x20 then literal cs (skip_space s)
     else case s of [] \<Rightarrow> None | d # s \<Rightarrow> if c = d then literal cs s else None)"

text \<open>A name, in any case, in full or in its first three letters.\<close>

fun match_name :: "nat \<Rightarrow> (string \<times> string) list \<Rightarrow> string \<Rightarrow> (nat \<times> string) option" where
  "match_name i [] s = None"
| "match_name i ((full, abbr) # names) s =
     (if map tolower (take (length full) s) = map tolower full then Some (i, drop (length full) s)
      else if map tolower (take (length abbr) s) = map tolower abbr then Some (i, drop (length abbr) s)
      else match_name (i + 1) names s)"

definition wday_full :: "string list" where
  "wday_full = [''Sunday'', ''Monday'', ''Tuesday'', ''Wednesday'', ''Thursday'', ''Friday'', ''Saturday'']"

definition mon_full :: "string list" where
  "mon_full = [''January'', ''February'', ''March'', ''April'', ''May'', ''June'', ''July'', ''August'',
     ''September'', ''October'', ''November'', ''December'']"

text \<open>A number of at most \<open>n\<close> digits between \<open>lo\<close> and \<open>hi\<close>; no further digit is read once the value would leave the range.\<close>

fun digits_loop :: "nat \<Rightarrow> nat \<Rightarrow> nat \<Rightarrow> string \<Rightarrow> nat \<times> string" where
  "digits_loop 0 hi v s = (v, s)"
| "digits_loop (Suc n) hi v s = (case s of [] \<Rightarrow> (v, s)
     | c # s' \<Rightarrow> if v * 10 \<le> hi \<and> isdigit c then digits_loop n hi (v * 10 + (ord c - 48)) s' else (v, s))"

definition get_number :: "nat \<Rightarrow> nat \<Rightarrow> nat \<Rightarrow> string \<Rightarrow> (nat \<times> string) option" where
  "get_number lo hi n s = (case dropWhile (\<lambda>c. c = CHR 0x20) s of [] \<Rightarrow> None
     | c # s \<Rightarrow> if \<not> isdigit c then None
         else let (v, s) = digits_loop (n - 1) hi (ord c - 48) s in
           if v < lo \<or> hi < v then None else Some (v, s))"

text \<open>\<open>%a, %d %b %Y %H:%M:%S GMT\<close>; text behind the date is left over.\<close>

definition strptime_http_date :: "string \<Rightarrow> tm option" where
  "strptime_http_date s = do {
     (wday, s) \<leftarrow> match_name 0 (zip wday_full wday_names) s;
     s \<leftarrow> literal '', '' s;
     (mday, s) \<leftarrow> get_number 1 31 2 s;
     s \<leftarrow> literal '' '' s;
     (mon, s) \<leftarrow> match_name 0 (zip mon_full mon_names) s;
     s \<leftarrow> literal '' '' s;
     (year, s) \<leftarrow> get_number 0 9999 4 s;
     s \<leftarrow> literal '' '' s;
     (hour, s) \<leftarrow> get_number 0 23 2 s;
     s \<leftarrow> literal '':'' s;
     (minute, s) \<leftarrow> get_number 0 59 2 s;
     s \<leftarrow> literal '':'' s;
     (sec, s) \<leftarrow> get_number 0 61 2 s;
     s \<leftarrow> literal '' GMT'' s;
     Some \<lparr> tm_year = int year, tm_mon = mon, tm_mday = mday, tm_hour = hour, tm_min = minute,
            tm_sec = sec, tm_wday = wday \<rparr>
   }"

subsection \<open>timegm\<close>

text \<open>Years are counted from March; the day of the month need not exist in it.\<close>

definition timegm :: "tm \<Rightarrow> int" where
  "timegm g = (let
     year = (if tm_mon g \<le> 1 then tm_year g - 1 else tm_year g);
     mp = (if tm_mon g \<le> 1 then int (tm_mon g) + 10 else int (tm_mon g) - 2);
     doy = (153 * mp + 2) div 5 + int (tm_mday g) - 1;
     days = 365 * year + year div 4 - year div 100 + year div 400 + doy - 719468
   in days * 86400 + int (tm_hour g) * 3600 + int (tm_min g) * 60 + int (tm_sec g))"

text \<open>\<open>http_date_parse\<close>: \<open>None\<close> is the result \<open>-1\<close>.\<close>

definition http_date_parse :: "string \<Rightarrow> int option" where
  "http_date_parse s = map_option timegm (strptime_http_date s)"

subsection \<open>The calendars are inverse\<close>

lemma year_day_days:
  assumes "year_day z = (y, doy)"
  shows "365 * y + y div 4 - y div 100 + y div 400 + doy = z"
proof -
  define n400 where "n400 = z div 146097"
  define r400 where "r400 = z mod 146097"
  define n100 where "n100 = min (r400 div 36524) 3"
  define r100 where "r100 = r400 - 36524 * n100"
  define n4 where "n4 = r100 div 1461"
  define r4 where "r4 = r100 mod 1461"
  define n1 where "n1 = min (r4 div 365) 3"
  have y: "y = 400 * n400 + 100 * n100 + 4 * n4 + n1" and doy: "doy = r4 - 365 * n1"
    using assms [symmetric]
    by (simp_all only: year_day_def Let_def n400_def r400_def n100_def r100_def n4_def r4_def n1_def prod.inject simp_thms)
  have z: "z = 146097 * n400 + r400" "0 \<le> r400" "r400 < 146097" by (simp_all add: n400_def r400_def)
  have q: "r400 = 36524 * (r400 div 36524) + r400 mod 36524" "0 \<le> r400 mod 36524" "r400 mod 36524 < 36524" by simp_all
  have n100: "0 \<le> n100" "n100 \<le> 3" using z(2) by (simp_all add: n100_def)
  have r100: "0 \<le> r100" "r100 \<le> 36524"
    using q z unfolding r100_def n100_def by (cases "r400 div 36524 \<le> 3"; simp add: min_def; linarith)+
  have n4: "r100 = 1461 * n4 + r4" "0 \<le> r4" "r4 < 1461" by (simp_all add: n4_def r4_def)
  have n4b: "0 \<le> n4" "n4 \<le> 24" using n4 r100 by linarith+
  have n1: "0 \<le> n1" "n1 \<le> 3" using n4(2) by (simp_all add: n1_def)
  have "y div 4 = 100 * n400 + 25 * n100 + n4" unfolding y using n1 by linarith
  moreover have "y div 100 = 4 * n400 + n100" unfolding y using n1 n4b by linarith
  moreover have "y div 400 = n400" unfolding y using n1 n4b n100 by linarith
  ultimately show ?thesis using z(1) n4(1) y doy r100_def by linarith
qed

lemma timegm_gmtime: "timegm (gmtime t) = t"
proof -
  obtain y doy where yd: "year_day (t div 86400 + 719468) = (y, doy)" by fastforce
  note b = year_day_bounds [OF yd] and days = year_day_days [OF yd]
  define mp where "mp = (5 * doy + 2) div 153"
  define secs where "secs = nat (t mod 86400)"
  define mon where "mon = nat (if mp < 10 then mp + 2 else mp - 10)"
  have mp: "0 \<le> mp" "mp \<le> 11" using b(1,2) unfolding mp_def by linarith+
  have "5 * doy + 2 = 153 * mp + (5 * doy + 2) mod 153" "0 \<le> (5 * doy + 2) mod 153" by (simp_all add: mp_def)
  moreover have "153 * mp + 2 = 5 * ((153 * mp + 2) div 5) + (153 * mp + 2) mod 5" "0 \<le> (153 * mp + 2) mod 5" by simp_all
  ultimately have mday: "0 \<le> doy - (153 * mp + 2) div 5 + 1" by linarith
  have g: "tm_year (gmtime t) = (if mon \<le> 1 then y + 1 else y)" "tm_mon (gmtime t) = mon"
      "tm_mday (gmtime t) = nat (doy - (153 * mp + 2) div 5 + 1)" "tm_hour (gmtime t) = secs div 3600"
      "tm_min (gmtime t) = secs div 60 mod 60" "tm_sec (gmtime t) = secs mod 60"
    by (simp_all add: gmtime_def Let_def yd mp_def secs_def mon_def)
  have mon: "(if mon \<le> 1 then int mon + 10 else int mon - 2) = mp"
    using mp by (auto simp: mon_def)
  have year: "(if mon \<le> 1 then (if mon \<le> 1 then y + 1 else y) - 1 else (if mon \<le> 1 then y + 1 else y)) = y" by simp
  have doy: "int (nat (doy - (153 * mp + 2) div 5 + 1)) = doy - (153 * mp + 2) div 5 + 1" using mday by simp
  have "365 * y + y div 4 - y div 100 + y div 400 + ((153 * mp + 2) div 5 + (doy - (153 * mp + 2) div 5 + 1) - 1)
      - 719468 = t div 86400"
    using days by linarith
  then have tg: "timegm (gmtime t) = (t div 86400) * 86400 + int (secs div 3600) * 3600 + int (secs div 60 mod 60) * 60 + int (secs mod 60)"
    by (simp only: timegm_def Let_def g mon year doy)
  have "secs div 3600 * 3600 + secs div 60 mod 60 * 60 + secs mod 60 = secs"
  proof -
    have "secs div 3600 = secs div 60 div 60" by (simp add: div_mult2_eq)
    then show ?thesis
      using div_mult_mod_eq [of secs 60] div_mult_mod_eq [of "secs div 60" 60] by linarith
  qed
  then have "int (secs div 3600 * 3600 + secs div 60 mod 60 * 60 + secs mod 60) = int secs" by (rule arg_cong)
  moreover have "int secs = t mod 86400" unfolding secs_def by simp
  ultimately have "int (secs div 3600) * 3600 + int (secs div 60 mod 60) * 60 + int (secs mod 60) = t mod 86400"
    by (simp only: of_nat_add of_nat_mult of_nat_numeral)
  with tg have "timegm (gmtime t) = t div 86400 * 86400 + t mod 86400" by linarith
  then show ?thesis by (simp only: div_mult_mod_eq)
qed

lemma gmtime_mday: "1 \<le> tm_mday (gmtime t)"
proof -
  obtain y doy where yd: "year_day (t div 86400 + 719468) = (y, doy)" by fastforce
  note b = year_day_bounds [OF yd]
  define mp where "mp = (5 * doy + 2) div 153"
  have "5 * doy + 2 = 153 * mp + (5 * doy + 2) mod 153" "0 \<le> (5 * doy + 2) mod 153" by (simp_all add: mp_def)
  moreover have "153 * mp + 2 = 5 * ((153 * mp + 2) div 5) + (153 * mp + 2) mod 5" "0 \<le> (153 * mp + 2) mod 5" by simp_all
  ultimately have "1 \<le> doy - (153 * mp + 2) div 5 + 1" by linarith
  then show ?thesis by (simp add: gmtime_def Let_def yd mp_def)
qed

lemma gmtime_time: "tm_hour (gmtime t) < 24" "tm_min (gmtime t) < 60" "tm_sec (gmtime t) < 60"
proof -
  obtain y doy where yd: "year_day (t div 86400 + 719468) = (y, doy)" by fastforce
  define secs where "secs = nat (t mod 86400)"
  have g: "tm_hour (gmtime t) = secs div 3600" "tm_min (gmtime t) = secs div 60 mod 60" "tm_sec (gmtime t) = secs mod 60"
    by (simp_all add: gmtime_def Let_def yd secs_def)
  have "t mod 86400 < 86400" by simp
  then have "secs < 24 * 3600" unfolding secs_def by linarith
  then show "tm_hour (gmtime t) < 24" unfolding g by (rule less_mult_imp_div_less)
  show "tm_min (gmtime t) < 60" "tm_sec (gmtime t) < 60" by (simp_all add: g)
qed

subsection \<open>A printed date reads back\<close>

lemma digit_char_10:
  assumes "d < 10"
  shows "isdigit (digit_char d)" "ord (digit_char d) = 48 + d" "digit_char d \<noteq> CHR 0x20"
proof -
  show o: "ord (digit_char d) = 48 + d" using assms by (simp add: digit_char_def ord_def)
  show "isdigit (digit_char d)" using assms by (simp add: isdigit_def o, simp add: ord_def)
  show "digit_char d \<noteq> CHR 0x20" using o by (auto simp: ord_def)
qed

lemma get_number_2:
  assumes "n < 100" "lo \<le> n" "n \<le> hi"
  shows "get_number lo hi 2 (show_2 n @ s) = Some (n, s)"
proof -
  have d: "n div 10 < 10" "n mod 10 < 10" and n: "n div 10 * 10 + n mod 10 = n" "n div 10 * 10 \<le> hi"
    using assms by simp_all
  have "digits_loop (Suc 0) hi (n div 10) (digit_char (n mod 10) # s) = (n, s)"
    using digit_char_10 [OF d(2)] n by simp
  then show ?thesis using digit_char_10 [OF d(1)] assms
    by (simp add: get_number_def show_2_def numeral_2_eq_2)
qed

lemma show_nat_4:
  assumes "1000 \<le> n" "n < 10000"
  shows "show_nat n = [digit_char (n div 1000), digit_char (n div 100 mod 10), digit_char (n div 10 mod 10), digit_char (n mod 10)]"
proof -
  have "show_base 10 n = show_base 10 (n div 10) @ [digit_char (n mod 10)]"
    "show_base 10 (n div 10) = show_base 10 (n div 100) @ [digit_char (n div 10 mod 10)]"
    "show_base 10 (n div 100) = show_base 10 (n div 1000) @ [digit_char (n div 100 mod 10)]"
    "show_base 10 (n div 1000) = [digit_char (n div 1000)]"
    using assms by (subst show_base.simps; simp flip: div_mult2_eq)+
  then show ?thesis by (simp add: show_nat_def)
qed

lemma get_number_4:
  assumes "1000 \<le> n" "n < 10000"
  shows "get_number 0 9999 4 (show_nat n @ s) = Some (n, s)"
proof -
  let ?a = "n div 1000" and ?b = "n div 100 mod 10" and ?c = "n div 10 mod 10" and ?d = "n mod 10"
  have r: "?a < 10" "?b < 10" "?c < 10" "?d < 10" using assms by auto
  have "n div 100 = n div 10 div 10" "?a = n div 10 div 10 div 10" by (simp_all flip: div_mult2_eq)
  then have v: "((?a * 10 + ?b) * 10 + ?c) * 10 + ?d = n"
    using div_mult_mod_eq [of n 10] div_mult_mod_eq [of "n div 10" 10] div_mult_mod_eq [of "n div 10 div 10" 10] by simp
  have le: "?a * 10 \<le> 9999" "(?a * 10 + ?b) * 10 \<le> 9999" "((?a * 10 + ?b) * 10 + ?c) * 10 \<le> 9999"
  proof -
    have "a * 10 \<le> 9999 \<and> (a * 10 + b) * 10 \<le> 9999 \<and> ((a * 10 + b) * 10 + c) * 10 \<le> 9999"
      if "a < 10" "b < 10" "c < 10" for a b c :: nat using that by simp
    from this [OF r(1-3)] show "?a * 10 \<le> 9999" "(?a * 10 + ?b) * 10 \<le> 9999" "((?a * 10 + ?b) * 10 + ?c) * 10 \<le> 9999"
      by blast+
  qed
  have "digits_loop 3 9999 ?a (digit_char ?b # digit_char ?c # digit_char ?d # s) = (n, s)"
    using digit_char_10 [OF r(2)] digit_char_10 [OF r(3)] digit_char_10 [OF r(4)] le v
    by (simp add: numeral_3_eq_3)
  then show ?thesis using digit_char_10 [OF r(1)] assms(2)
    by (simp add: show_nat_4 [OF assms] get_number_def)
qed

lemma below_7: "i < 7 \<Longrightarrow> i = 0 \<or> i = 1 \<or> i = 2 \<or> i = 3 \<or> i = 4 \<or> i = 5 \<or> i = (6::nat)"
  by presburger

lemma below_12: "i < 12 \<Longrightarrow> i = 0 \<or> i = 1 \<or> i = 2 \<or> i = 3 \<or> i = 4 \<or> i = 5 \<or> i = 6
    \<or> i = 7 \<or> i = 8 \<or> i = 9 \<or> i = 10 \<or> i = (11::nat)"
  by presburger

lemma match_wday: "i < 7 \<Longrightarrow> match_name 0 (zip wday_full wday_names) (wday_names ! i @ CHR '','' # s) = Some (i, CHR '','' # s)"
  by (drule below_7) (elim disjE; simp add: wday_full_def wday_names_def tolower_def isupper_def ord_def)

lemma match_mon: "i < 12 \<Longrightarrow> match_name 0 (zip mon_full mon_names) (mon_names ! i @ CHR '' '' # s) = Some (i, CHR '' '' # s)"
  by (drule below_12) (elim disjE; simp add: mon_full_def mon_names_def tolower_def isupper_def ord_def)

lemma skip_space_digit: "d < 10 \<Longrightarrow> skip_space (digit_char d # s) = digit_char d # s"
  using digit_char_10 [of d] by (simp add: skip_space_def is_space_def)

lemma skip_space_space [simp]: "skip_space (CHR '' '' # s) = skip_space s"
  by (simp add: skip_space_def is_space_def)

lemma skip_space_show:
  "n < 100 \<Longrightarrow> skip_space (show_2 n @ s) = show_2 n @ s"
  "1000 \<le> n \<Longrightarrow> n < 10000 \<Longrightarrow> skip_space (show_nat n @ s) = show_nat n @ s"
  by (simp add: show_2_def skip_space_digit) (simp add: show_nat_4 skip_space_digit)

lemma skip_space_mon: "i < 12 \<Longrightarrow> skip_space (mon_names ! i @ s) = mon_names ! i @ s"
  by (drule below_12) (elim disjE; simp add: mon_names_def skip_space_def is_space_def ord_def)

text \<open>The fields of a date a printed text has room for.\<close>

definition printable_tm :: "tm \<Rightarrow> bool" where
  "printable_tm g \<longleftrightarrow> tm_wday g < 7 \<and> tm_mon g < 12 \<and> 1 \<le> tm_mday g \<and> tm_mday g \<le> 31
     \<and> tm_hour g < 24 \<and> tm_min g < 60 \<and> tm_sec g < 60 \<and> 1000 \<le> tm_year g \<and> tm_year g < 10000"

lemma strptime_http_date_text:
  assumes "printable_tm g"
  shows "strptime_http_date (http_date_text g) = Some g"
proof -
  define n where "n = nat (tm_year g)"
  have g: "tm_wday g < 7" "tm_mon g < 12" "1 \<le> tm_mday g" "tm_mday g \<le> 31" "tm_hour g < 24" "tm_min g < 60" "tm_sec g < 60"
    "1000 \<le> n" "n < 10000" "int n = tm_year g" "show_int (tm_year g) = show_nat n"
    using assms by (auto simp: printable_tm_def n_def show_int_def)
  define d where "d = '' '' @ mon_names ! tm_mon g
     @ '' '' @ show_nat n @ '' '' @ show_2 (tm_hour g) @ '':'' @ show_2 (tm_min g) @ '':'' @ show_2 (tm_sec g) @ '' GMT''"
  have text_d: "http_date_text g = wday_names ! tm_wday g @ CHR '','' # '' '' @ show_2 (tm_mday g) @ d"
    by (simp add: http_date_text_def d_def g(11))
  have "strptime_http_date (http_date_text g)
    = Some \<lparr> tm_year = int n, tm_mon = tm_mon g, tm_mday = tm_mday g, tm_hour = tm_hour g, tm_min = tm_min g,
            tm_sec = tm_sec g, tm_wday = tm_wday g \<rparr>"
    unfolding text_d strptime_http_date_def
    using g(1-9) by (simp add: match_wday match_mon skip_space_show skip_space_mon get_number_2 get_number_4 d_def)
      (simp add: skip_space_def is_space_def ord_def)
  then show ?thesis by (simp add: g(10))
qed

lemma printable_gmtime: "sane_clock t \<Longrightarrow> printable_tm (gmtime t)"
  using gmtime_ranges [of t] gmtime_mday [of t] gmtime_time [of t] by (simp add: printable_tm_def)

subsection \<open>Property\<close>

text \<open>
  C34: dates survive the round trip.  For every time of a year of four digits, \<open>http_date_format\<close>
  writes 29 characters into a buffer that has room for them and a terminator, and \<open>http_date_parse\<close>
  reads them back as the same time; so a client that returns a \<open>Last-Modified\<close> value names exactly
  the modification time the server had sent.
\<close>

theorem http_date_roundtrip:
  assumes "sane_clock t" "30 \<le> cap" "cap \<le> length buf"
  shows "\<exists>buf'. http_date_format t buf cap = Some (29, buf') \<and> length buf' = length buf
    \<and> http_date_parse (take 29 buf') = Some t"
proof -
  have len: "length (http_date_text (gmtime t)) = 29" by (rule length_http_date [OF assms(1)])
  then have "0 + length (http_date_text (gmtime t) @ [NUL]) \<le> length buf" using assms by simp
  then obtain buf' where b: "blit buf 0 (http_date_text (gmtime t) @ [NUL]) = Some buf'"
    using blit_in by blast
  have "take 30 buf' = http_date_text (gmtime t) @ [NUL]" using take_blit [OF b] len by simp
  then have "take 29 (take 30 buf') = http_date_text (gmtime t)" using len by simp
  then have "take 29 buf' = http_date_text (gmtime t)" by simp
  then have "http_date_parse (take 29 buf') = Some t"
    by (simp add: http_date_parse_def strptime_http_date_text [OF printable_gmtime [OF assms(1)]] timegm_gmtime)
  with b len assms(2) length_blit [OF b] show ?thesis by (simp add: http_date_format_def strftime_def)
qed

theorem http_date_roundtrip_witness:
  "\<exists>buf'. http_date_format 784111777 (replicate 32 NUL) 32 = Some (29, buf') \<and> length buf' = length (replicate 32 NUL)
    \<and> http_date_parse (take 29 buf') = Some 784111777"
  by (rule http_date_roundtrip) (simp_all add: sane_clock_def)

end
