(* ===== verification/Headers.thy ===== *)
theory Headers
  imports Parse_Result
begin

text \<open>
  \<open>src/HttpHeaders.c\<close>: one header line, the list of parsed headers and the lookup by name.  The
  array \<open>headers\<close> with its counter is the list of the headers stored so far; \<open>header_key_parse\<close> and
  \<open>header_value_parse\<close> write into one fixed array each and fault when they leave it.
\<close>

record header =
  h_key :: string
  h_value :: string

definition header_zero :: header where
  "header_zero = \<lparr> h_key = [], h_value = [] \<rparr>"

subsection \<open>Parsing\<close>

text \<open>The loop of \<open>header_key_parse\<close>: \<open>Inl\<close> is an early return, \<open>Inr\<close> the stored key.\<close>

function header_key_loop :: "config \<Rightarrow> mem \<Rightarrow> nat \<Rightarrow> nat \<Rightarrow> nat \<Rightarrow> string
    \<Rightarrow> ((parse_status \<times> nat) + string) option" where
  "header_key_loop cfg m start cur en key =
     (if cur < en then do {
        c \<leftarrow> rd m cur;
        if \<not> is_tchar c then Some (Inl (PARSE_BAD_REQUEST, start))
        else if length key \<ge> max_header_key_len cfg - 1 then Some (Inl (PARSE_HEADER_KEY_TOO_LONG, cur))
        else do {
          require (length key < max_header_key_len cfg);
          header_key_loop cfg m start (cur + 1) en (key @ [c])
        }
      } else Some (Inr key))"
  by pat_completeness auto
termination
  by (relation "measure (\<lambda>(cfg, m, start, cur, en, key). en - cur)") auto

declare header_key_loop.simps [simp del]

definition header_key_parse :: "config \<Rightarrow> mem \<Rightarrow> nat \<Rightarrow> nat \<Rightarrow> header
    \<Rightarrow> (parse_result \<times> header) option" where
  "header_key_parse cfg m cur en h = do {
     let res = parse_error_set parse_result_zero PARSE_BAD_REQUEST cur;
     if cur \<ge> en then Some (res, h) else do {
       e \<leftarrow> rd m en;
       if \<not> is_colon e then Some (res, h) else do {
         r \<leftarrow> header_key_loop cfg m cur cur en [];
         case r of
           Inl (st, pos) \<Rightarrow> Some (parse_error_set res st pos, h)
         | Inr key \<Rightarrow> do {
             require (length key < max_header_key_len cfg);
             Some (res\<lparr>status := PARSE_OK, next_pos := Some (en + 1)\<rparr>, h\<lparr>h_key := key\<rparr>)
           }
       }
     }
   }"

text \<open>The loop of \<open>header_value_parse\<close>: \<open>None\<close> inside is the return at a bad byte.\<close>

function header_value_loop :: "config \<Rightarrow> mem \<Rightarrow> nat \<Rightarrow> nat \<Rightarrow> string \<Rightarrow> string option option" where
  "header_value_loop cfg m cur en val =
     (if cur < en then do {
        c \<leftarrow> rd m cur;
        if \<not> is_field_content_byte c then Some None
        else do {
          require (length val < max_header_value_len cfg);
          header_value_loop cfg m (cur + 1) en (val @ [c])
        }
      } else Some (Some val))"
  by pat_completeness auto
termination
  by (relation "measure (\<lambda>(cfg, m, cur, en, val). en - cur)") auto

declare header_value_loop.simps [simp del]

text \<open>\<open>end - cur\<close> is a signed difference: \<open>cur\<close> may be one past \<open>end\<close>.\<close>

definition header_value_parse :: "config \<Rightarrow> mem \<Rightarrow> nat \<Rightarrow> nat \<Rightarrow> header
    \<Rightarrow> (parse_result \<times> header) option" where
  "header_value_parse cfg m cur en h = do {
     let res = parse_error_set parse_result_zero PARSE_BAD_REQUEST cur;
     if int en - int cur > int (max_header_value_len cfg) - 1 then
       Some (parse_error_set res PARSE_HEADER_VALUE_TOO_LONG cur, h)
     else if cur > en then Some (res, h)
     else do {
       cur \<leftarrow> ows_skip m cur en;
       trimmed_end \<leftarrow> ows_trim_trailing m cur en;
       r \<leftarrow> header_value_loop cfg m cur trimmed_end [];
       case r of
         None \<Rightarrow> Some (res, h)
       | Some val \<Rightarrow> do {
           require (length val < max_header_value_len cfg);
           Some (res\<lparr>status := PARSE_OK, next_pos := Some en\<rparr>, h\<lparr>h_value := val\<rparr>)
         }
     }
   }"

definition header_line_parse :: "config \<Rightarrow> mem \<Rightarrow> nat \<Rightarrow> nat \<Rightarrow> header list
    \<Rightarrow> (parse_result \<times> header list) option" where
  "header_line_parse cfg m cur en headers =
     (if cur \<ge> en then Some (parse_error_set parse_result_zero PARSE_BAD_REQUEST cur, headers)
      else do {
        colon \<leftarrow> colon_find m cur en;
        (res, h) \<leftarrow> header_key_parse cfg m cur colon header_zero;
        if status res \<noteq> PARSE_OK then Some (res, headers) else do {
          val \<leftarrow> next_pos res;
          (res, h) \<leftarrow> header_value_parse cfg m val en h;
          if status res \<noteq> PARSE_OK then Some (res, headers)
          else if length headers \<ge> max_headers cfg then
            Some (parse_error_set res PARSE_HEADER_TOO_LONG cur, headers)
          else Some (res\<lparr>status := PARSE_OK\<rparr>, headers @ [h])
        }
      })"

definition crlf_parse :: "mem \<Rightarrow> nat \<Rightarrow> nat \<Rightarrow> parse_result option" where
  "crlf_parse m cur en = do {
     hit \<leftarrow> (if cur + 2 \<le> en then is_crlf m cur else Some False);
     if hit then Some (parse_result_zero\<lparr>status := PARSE_OK, next_pos := Some (cur + 2)\<rparr>)
     else Some (parse_error_set parse_result_zero PARSE_BAD_REQUEST cur)
   }"

fun header_find :: "header list \<Rightarrow> string \<Rightarrow> header option" where
  "header_find [] name = None"
| "header_find (h # hs) name = (if ascii_ieq (h_key h) name then Some h else header_find hs name)"

text \<open>What \<open>headers_show\<close> prints.\<close>

fun headers_show :: "header list \<Rightarrow> string" where
  "headers_show [] = []"
| "headers_show (h # hs) = h_key h @ '': '' @ h_value h @ [LF] @ headers_show hs"

subsection \<open>The grammar of a header line\<close>

definition header_key_ok :: "config \<Rightarrow> string \<Rightarrow> bool" where
  "header_key_ok cfg k \<longleftrightarrow> k \<noteq> [] \<and> list_all is_tchar k \<and> length k < max_header_key_len cfg"

definition header_value_ok :: "config \<Rightarrow> string \<Rightarrow> bool" where
  "header_value_ok cfg v \<longleftrightarrow> list_all is_field_content_byte v \<and> length v < max_header_value_len cfg"

text \<open>A header field as it is written: the key and the bytes between the colon and the line end.\<close>

type_synonym field = "string \<times> string"

definition field_text :: "field \<Rightarrow> string" where
  "field_text f = fst f @ CHR '':'' # snd f"

definition field_ok :: "config \<Rightarrow> field \<Rightarrow> bool" where
  "field_ok cfg f \<longleftrightarrow> header_key_ok cfg (fst f) \<and> header_value_ok cfg (snd f)"

definition field_header :: "field \<Rightarrow> header" where
  "field_header f = \<lparr> h_key = fst f, h_value = ows_strip (snd f) \<rparr>"

definition header_line_accepts :: "config \<Rightarrow> header list \<Rightarrow> string \<Rightarrow> header list \<Rightarrow> bool" where
  "header_line_accepts cfg hs s hs' \<longleftrightarrow> (\<exists>f. field_ok cfg f \<and> s = field_text f
     \<and> length hs < max_headers cfg \<and> hs' = hs @ [field_header f])"

definition header_line_errors :: "parse_status set" where
  "header_line_errors = {PARSE_BAD_REQUEST, PARSE_HEADER_KEY_TOO_LONG, PARSE_HEADER_VALUE_TOO_LONG,
     PARSE_HEADER_TOO_LONG}"

subsection \<open>The loops\<close>

lemma header_key_loop_eq:
  assumes "en \<le> length m" "cur \<le> en" "length key < max_header_key_len cfg"
  shows "if list_all is_tchar (seg m cur en) \<and> length key + (en - cur) < max_header_key_len cfg
     then header_key_loop cfg m start cur en key = Some (Inr (key @ seg m cur en))
     else \<exists>st pos. header_key_loop cfg m start cur en key = Some (Inl (st, pos))
       \<and> st \<in> {PARSE_BAD_REQUEST, PARSE_HEADER_KEY_TOO_LONG}"
  using assms(2,3)
proof (induction "en - cur" arbitrary: cur key rule: less_induct)
  case less
  show ?case
  proof (cases "cur < en")
    case False
    with less.prems show ?thesis by (subst (1 2) header_key_loop.simps) simp
  next
    case True
    have s: "seg m cur en = m ! cur # seg m (Suc cur) en" using True assms(1) by (rule seg_Cons)
    have E: "header_key_loop cfg m start cur en key =
      (if \<not> is_tchar (m ! cur) then Some (Inl (PARSE_BAD_REQUEST, start))
       else if length key \<ge> max_header_key_len cfg - 1 then Some (Inl (PARSE_HEADER_KEY_TOO_LONG, cur))
       else header_key_loop cfg m start (Suc cur) en (key @ [m ! cur]))"
      using True assms(1) less.prems(2) by (subst header_key_loop.simps) (simp add: fault_simps)
    show ?thesis
    proof (cases "is_tchar (m ! cur) \<and> length key < max_header_key_len cfg - 1")
      case False
      with True less.prems show ?thesis unfolding E s by auto
    next
      case ok: True
      have "length (key @ [m ! cur]) < max_header_key_len cfg" using ok by auto
      from less.hyps [OF _ _ this, of "Suc cur"] True
      have "if list_all is_tchar (seg m (Suc cur) en) \<and> length key + (en - cur) < max_header_key_len cfg
        then header_key_loop cfg m start (Suc cur) en (key @ [m ! cur]) = Some (Inr (key @ seg m cur en))
        else \<exists>st pos. header_key_loop cfg m start (Suc cur) en (key @ [m ! cur]) = Some (Inl (st, pos))
          \<and> st \<in> {PARSE_BAD_REQUEST, PARSE_HEADER_KEY_TOO_LONG}"
        by (auto simp: s Suc_diff_Suc split: if_splits)
      then show ?thesis unfolding E using ok by (simp add: s split: if_splits)
    qed
  qed
qed

lemma header_value_loop_eq:
  assumes "en \<le> length m" "cur \<le> en" "length val + (en - cur) < max_header_value_len cfg"
  shows "header_value_loop cfg m cur en val =
    Some (if list_all is_field_content_byte (seg m cur en) then Some (val @ seg m cur en) else None)"
  using assms(2,3)
proof (induction "en - cur" arbitrary: cur val rule: less_induct)
  case less
  show ?case
  proof (cases "cur < en")
    case False
    then show ?thesis by (subst header_value_loop.simps) simp
  next
    case True
    have s: "seg m cur en = m ! cur # seg m (Suc cur) en" using True assms(1) by (rule seg_Cons)
    have E: "header_value_loop cfg m cur en val =
      (if \<not> is_field_content_byte (m ! cur) then Some None
       else header_value_loop cfg m (Suc cur) en (val @ [m ! cur]))"
      using True assms(1) less.prems(2) by (subst header_value_loop.simps) (simp add: fault_simps)
    have "header_value_loop cfg m (Suc cur) en (val @ [m ! cur]) =
      Some (if list_all is_field_content_byte (seg m (Suc cur) en) then Some (val @ seg m cur en) else None)"
      using less.hyps [of "Suc cur" "val @ [m ! cur]"] True less.prems(2) by (simp add: s)
    then show ?thesis unfolding E by (simp add: s)
  qed
qed

subsection \<open>Key, value and line\<close>

lemma is_tchar_not_colon: "is_tchar c \<Longrightarrow> c \<noteq> CHR '':''"
  by (auto simp: is_tchar_def isalnum_def isdigit_def isupper_def islower_def ord_def)

lemma ows_field_content: "is_ows c \<Longrightarrow> is_field_content_byte c"
  by (simp add: is_field_content_byte_def)

lemma header_key_parse_eq:
  assumes "en < length m" "cur \<le> en" "1 \<le> max_header_key_len cfg"
  obtains (ok) e where "is_colon (m ! en)" "header_key_ok cfg (seg m cur en)"
      "header_key_parse cfg m cur en h = Some (\<lparr> status = PARSE_OK, error_position = e,
         next_pos = Some (en + 1) \<rparr>, h\<lparr>h_key := seg m cur en\<rparr>)"
  | (bad) res h' where "\<not> (is_colon (m ! en) \<and> header_key_ok cfg (seg m cur en))"
      "header_key_parse cfg m cur en h = Some (res, h')"
      "status res \<in> {PARSE_BAD_REQUEST, PARSE_HEADER_KEY_TOO_LONG}"
proof (cases "cur < en \<and> is_colon (m ! en)")
  case False
  have "seg m cur en = []" if "\<not> cur < en" using that by simp
  with False have "\<not> (is_colon (m ! en) \<and> header_key_ok cfg (seg m cur en))"
    by (auto simp: header_key_ok_def)
  moreover have "header_key_parse cfg m cur en h = Some (parse_error_set parse_result_zero PARSE_BAD_REQUEST cur, h)"
    using False assms(1) by (auto simp: header_key_parse_def Let_def fault_simps)
  ultimately show thesis by (intro bad) (auto simp: parse_error_set_def)
next
  case True
  have len: "length (seg m cur en) = en - cur" using assms(1) by simp
  then have ne: "seg m cur en \<noteq> []" using True by (metis length_0_conv zero_less_diff less_irrefl)
  note loop = header_key_loop_eq [OF less_imp_le [OF assms(1)] assms(2), of "[]" cfg cur]
  show thesis
  proof (cases "header_key_ok cfg (seg m cur en)")
    case okk: True
    then have "header_key_loop cfg m cur cur en [] = Some (Inr (seg m cur en))"
      using loop assms(3) len by (simp add: header_key_ok_def)
    then have "header_key_parse cfg m cur en h = Some (\<lparr> status = PARSE_OK, error_position = Some cur,
         next_pos = Some (en + 1) \<rparr>, h\<lparr>h_key := seg m cur en\<rparr>)"
      using True assms(1) okk
      by (simp add: header_key_parse_def Let_def fault_simps parse_error_set_def parse_result_zero_def header_key_ok_def)
    with True okk show thesis by (intro ok) simp_all
  next
    case no: False
    then have "\<exists>st pos. header_key_loop cfg m cur cur en [] = Some (Inl (st, pos))
       \<and> st \<in> {PARSE_BAD_REQUEST, PARSE_HEADER_KEY_TOO_LONG}"
      using loop assms(3) len ne by (auto simp: header_key_ok_def split: if_splits)
    then obtain st pos where "header_key_loop cfg m cur cur en [] = Some (Inl (st, pos))"
      "st \<in> {PARSE_BAD_REQUEST, PARSE_HEADER_KEY_TOO_LONG}" by blast
    with True assms(1) no show thesis
      by (intro bad) (auto simp: header_key_parse_def Let_def fault_simps parse_error_set_def)
  qed
qed

lemma header_value_parse_eq:
  assumes "en \<le> length m" "cur \<le> en" "1 \<le> max_header_value_len cfg"
  obtains (ok) e where "header_value_ok cfg (seg m cur en)"
      "header_value_parse cfg m cur en h = Some (\<lparr> status = PARSE_OK, error_position = e,
         next_pos = Some en \<rparr>, h\<lparr>h_value := ows_strip (seg m cur en)\<rparr>)"
  | (bad) res h' where "\<not> header_value_ok cfg (seg m cur en)"
      "header_value_parse cfg m cur en h = Some (res, h')"
      "status res \<in> {PARSE_BAD_REQUEST, PARSE_HEADER_VALUE_TOO_LONG}"
proof (cases "en - cur < max_header_value_len cfg")
  case False
  have "length (seg m cur en) = en - cur" using assms(1) by simp
  with False have "\<not> header_value_ok cfg (seg m cur en)" by (simp add: header_value_ok_def)
  moreover from False assms(2) have "int en - int cur > int (max_header_value_len cfg) - 1" by linarith
  then have "header_value_parse cfg m cur en h
      = Some (parse_error_set (parse_error_set parse_result_zero PARSE_BAD_REQUEST cur) PARSE_HEADER_VALUE_TOO_LONG cur, h)"
    by (simp add: header_value_parse_def Let_def)
  ultimately show thesis by (intro bad) (auto simp: parse_error_set_def)
next
  case True
  then have room: "\<not> int en - int cur > int (max_header_value_len cfg) - 1" using assms(2,3) by linarith
  have len: "length (seg m cur en) = en - cur" using assms(1) by simp
  obtain p where p: "ows_skip m cur en = Some p" "cur \<le> p" "p \<le> en"
    "seg m p en = dropWhile is_ows (seg m cur en)"
    using ows_skip_seg [OF assms(2,1)] by blast
  obtain q where q: "ows_trim_trailing m p en = Some q" "p \<le> q" "q \<le> en"
    "seg m p q = rev (dropWhile is_ows (rev (seg m p en)))"
    using ows_trim_seg [OF p(3) assms(1)] by blast
  have strip: "seg m p q = ows_strip (seg m cur en)" by (simp add: q(4) p(4) ows_strip_def)
  have lenq: "length (seg m p q) = q - p" "length (seg m p q) < max_header_value_len cfg"
    using q(2,3) p(2) assms(1) True by simp_all
  have "q \<le> length m" "length ([]::string) + (q - p) < max_header_value_len cfg"
    using lenq q(3) assms(1) by simp_all
  then have loop: "header_value_loop cfg m p q [] =
      Some (if list_all is_field_content_byte (seg m cur en) then Some (ows_strip (seg m cur en)) else None)"
    using header_value_loop_eq [of q m p "[]" cfg] q(2) ows_strip_all [OF ows_field_content]
    by (simp add: strip)
  show thesis
  proof (cases "header_value_ok cfg (seg m cur en)")
    case okk: True
    then have "header_value_parse cfg m cur en h = Some (\<lparr> status = PARSE_OK, error_position = Some cur,
         next_pos = Some en \<rparr>, h\<lparr>h_value := ows_strip (seg m cur en)\<rparr>)"
      using room p q loop assms(2) lenq strip
      by (simp add: header_value_parse_def Let_def parse_error_set_def parse_result_zero_def header_value_ok_def)
    with okk show thesis by (intro ok) simp_all
  next
    case no: False
    then have "\<not> list_all is_field_content_byte (seg m cur en)"
      using True len by (simp add: header_value_ok_def)
    with room p q loop assms(2) no show thesis
      by (intro bad) (auto simp: header_value_parse_def Let_def parse_error_set_def)
  qed
qed

lemma colon_find_seg:
  assumes "cur \<le> en" "en \<le> length m"
  obtains (found) p where "colon_find m cur en = Some p" "cur \<le> p" "p < en" "m ! p = CHR '':''"
      "CHR '':'' \<notin> set (seg m cur p)" "seg m cur en = seg m cur p @ CHR '':'' # seg m (Suc p) en"
  | (absent) "colon_find m cur en = Some en" "CHR '':'' \<notin> set (seg m cur en)"
proof -
  obtain p where p: "colon_find m cur en = Some p" "cur \<le> p" "p \<le> en" "p < en \<Longrightarrow> colon_at m p en"
    "\<And>i. cur \<le> i \<Longrightarrow> i < p \<Longrightarrow> \<not> colon_at m i en"
    using colon_scan.scan_cases [OF assms] by blast
  have no: "CHR '':'' \<notin> set (seg m cur p)"
    using p assms(2) by (fastforce simp: set_seg colon_at_def is_colon_def)
  show thesis
  proof (cases "p < en")
    case True
    then have "m ! p = CHR '':''" using p(4) by (simp add: colon_at_def is_colon_def)
    moreover have "seg m cur en = seg m cur p @ m ! p # seg m (Suc p) en"
      using p(2) True assms(2) seg_append [of cur p en m] by (simp add: seg_Cons)
    ultimately show thesis using p no True by (intro found) simp_all
  next
    case False
    with p no show thesis by (intro absent) simp_all
  qed
qed

text \<open>A field is read back from its text: its key has no colon.\<close>

lemma field_text_unique:
  assumes "field_ok cfg f" "field_text f = k @ CHR '':'' # v" "CHR '':'' \<notin> set k"
  shows "f = (k, v)"
proof -
  have "CHR '':'' \<notin> set (fst f)"
    using assms(1) is_tchar_not_colon by (auto simp: field_ok_def header_key_ok_def list_all_iff)
  then have "fst f = k \<and> snd f = v" using assms(2,3) by (simp add: field_text_def first_split_unique)
  then show ?thesis by (simp add: prod_eq_iff)
qed

lemma header_line_accepts_field:
  assumes "CHR '':'' \<notin> set k"
  shows "header_line_accepts cfg hs (k @ CHR '':'' # v) s' \<longleftrightarrow> header_key_ok cfg k \<and> header_value_ok cfg v
    \<and> length hs < max_headers cfg \<and> s' = hs @ [field_header (k, v)]"
proof
  assume "header_line_accepts cfg hs (k @ CHR '':'' # v) s'"
  then obtain f where f: "field_ok cfg f" "k @ CHR '':'' # v = field_text f" "length hs < max_headers cfg" "s' = hs @ [field_header f]"
    by (auto simp: header_line_accepts_def)
  with field_text_unique [OF f(1) f(2) [symmetric] assms] show "header_key_ok cfg k \<and> header_value_ok cfg v
    \<and> length hs < max_headers cfg \<and> s' = hs @ [field_header (k, v)]" by (simp add: field_ok_def)
qed (auto simp: header_line_accepts_def field_ok_def field_text_def intro!: exI [of _ "(k, v)"])

lemma header_line_parse_no_colon:
  assumes "wf_config cfg" "cur < en" "en < length m" "colon_find m cur en = Some en"
  shows "\<exists>res. header_line_parse cfg m cur en hs = Some (res, hs) \<and> status res \<noteq> PARSE_OK \<and> status res \<in> header_line_errors"
proof -
  have caps: "1 \<le> max_header_key_len cfg" "1 \<le> max_header_value_len cfg" using wf_configD [OF assms(1)] by simp_all
  show ?thesis
  proof (rule header_key_parse_eq [OF assms(3) less_imp_le [OF assms(2)] caps(1), of header_zero])
    fix res h'
    assume "header_key_parse cfg m cur en header_zero = Some (res, h')"
      "status res \<in> {PARSE_BAD_REQUEST, PARSE_HEADER_KEY_TOO_LONG}"
    with assms(2,4) show ?thesis by (auto simp: header_line_parse_def header_line_errors_def)
  next
    fix e
    assume "header_key_parse cfg m cur en header_zero = Some (\<lparr> status = PARSE_OK, error_position = e,
       next_pos = Some (en + 1) \<rparr>, header_zero\<lparr>h_key := seg m cur en\<rparr>)"
    moreover have "header_value_parse cfg m (en + 1) en h
        = Some (parse_error_set parse_result_zero PARSE_BAD_REQUEST (en + 1), h)" for h
      using caps(2) by (simp add: header_value_parse_def Let_def)
    ultimately show ?thesis using assms(2,4)
      by (simp add: header_line_parse_def header_line_errors_def parse_error_set_def)
  qed
qed

lemma header_line_parse_colon:
  assumes "wf_config cfg" "cur \<le> p" "p < en" "en < length m" "colon_find m cur en = Some p" "m ! p = CHR '':''"
  shows "\<exists>res s'. header_line_parse cfg m cur en hs = Some (res, s')
    \<and> (if header_key_ok cfg (seg m cur p) \<and> header_value_ok cfg (seg m (Suc p) en) \<and> length hs < max_headers cfg
       then status res = PARSE_OK \<and> next_pos res = Some en \<and> s' = hs @ [field_header (seg m cur p, seg m (Suc p) en)]
       else status res \<noteq> PARSE_OK \<and> status res \<in> header_line_errors)"
proof -
  have caps: "1 \<le> max_header_key_len cfg" "1 \<le> max_header_value_len cfg" using wf_configD [OF assms(1)] by simp_all
  have at: "cur < en" "p < length m" "en \<le> length m" "p + 1 \<le> en" using assms(2-4) by simp_all
  show ?thesis
  proof (rule header_key_parse_eq [OF at(2) assms(2) caps(1), of header_zero])
    fix res h'
    assume "\<not> (is_colon (m ! p) \<and> header_key_ok cfg (seg m cur p))" "header_key_parse cfg m cur p header_zero = Some (res, h')"
      "status res \<in> {PARSE_BAD_REQUEST, PARSE_HEADER_KEY_TOO_LONG}"
    with at(1) assms(5,6) show ?thesis by (auto simp: header_line_parse_def header_line_errors_def is_colon_def)
  next
    fix e
    let ?h = "header_zero\<lparr>h_key := seg m cur p\<rparr>"
    assume k: "header_key_ok cfg (seg m cur p)" "header_key_parse cfg m cur p header_zero = Some (\<lparr> status = PARSE_OK,
        error_position = e, next_pos = Some (p + 1) \<rparr>, ?h)"
    show ?thesis
    proof (rule header_value_parse_eq [OF at(3,4) caps(2), of ?h])
      fix res h'
      assume "\<not> header_value_ok cfg (seg m (p + 1) en)" "header_value_parse cfg m (p + 1) en ?h = Some (res, h')"
        "status res \<in> {PARSE_BAD_REQUEST, PARSE_HEADER_VALUE_TOO_LONG}"
      with at(1) assms(5) k show ?thesis by (auto simp: header_line_parse_def header_line_errors_def)
    next
      fix e'
      assume "header_value_ok cfg (seg m (p + 1) en)" "header_value_parse cfg m (p + 1) en ?h = Some (\<lparr> status = PARSE_OK,
          error_position = e', next_pos = Some en \<rparr>, ?h\<lparr>h_value := ows_strip (seg m (p + 1) en)\<rparr>)"
      with at(1) assms(5) k show ?thesis
        by (auto simp: header_line_parse_def header_line_errors_def parse_error_set_def header_zero_def field_header_def)
    qed
  qed
qed

lemma header_line_decides:
  assumes "wf_config cfg" "cur \<le> en" "en < length m"
  shows "\<exists>res s'. header_line_parse cfg m cur en hs = Some (res, s')
       \<and> (if status res = PARSE_OK then header_line_accepts cfg hs (seg m cur en) s' \<and> next_pos res = Some en
          else status res \<in> header_line_errors \<and> (\<nexists>s'. header_line_accepts cfg hs (seg m cur en) s'))"
proof (cases "cur < en")
  case False
  then have "seg m cur en = []" by simp
  then have "\<not> header_line_accepts cfg hs (seg m cur en) s'" for s'
    by (auto simp: header_line_accepts_def field_text_def)
  with False show ?thesis
    by (auto simp: header_line_parse_def parse_error_set_def header_line_errors_def)
next
  case True
  show ?thesis
  proof (rule colon_find_seg [OF assms(2) less_imp_le [OF assms(3)]])
    assume c: "colon_find m cur en = Some en" "CHR '':'' \<notin> set (seg m cur en)"
    then have "\<not> header_line_accepts cfg hs (seg m cur en) s'" for s'
      by (auto simp: header_line_accepts_def field_text_def)
    with header_line_parse_no_colon [OF assms(1) True assms(3) c(1), of hs] show ?thesis by auto
  next
    fix p
    assume p: "colon_find m cur en = Some p" "cur \<le> p" "p < en" "m ! p = CHR '':''"
      "CHR '':'' \<notin> set (seg m cur p)" "seg m cur en = seg m cur p @ CHR '':'' # seg m (Suc p) en"
    show ?thesis
      using header_line_parse_colon [OF assms(1) p(2,3) assms(3) p(1,4), of hs]
      unfolding p(6) header_line_accepts_field [OF p(5)] by (fastforce split: if_splits)
  qed
qed

interpretation line2: line_parser header_line_parse header_line_accepts header_line_errors 0
  by standard (rule header_line_decides)

end
