(* ===== verification/Request_Line.thy ===== *)
theory Request_Line
  imports Parse_Result
begin

text \<open>
  \<open>src/HttpRequestLine.c\<close>: method, request target and version.  The fixed arrays of
  \<open>HttpRequestLine\<close> hold NUL-terminated strings; a store goes to the index after the bytes stored
  so far and faults when that index is outside the array.  \<open>target_ok\<close> and \<open>request_line_text\<close>
  are the grammar; the theorems say that exactly the lines of the grammar are accepted.
\<close>

datatype http_method = GET | POST | PUT | DELETE | OPTIONS | HEAD | PATCH | UNKNOWN

record request_line =
  rl_method :: http_method
  rl_path :: string
  rl_query :: string
  rl_version :: string

text \<open>\<open>HttpRequestLine line = {0}\<close>; the first enumerator is \<open>GET\<close>.\<close>

definition request_line_zero :: request_line where
  "request_line_zero = \<lparr> rl_method = GET, rl_path = '''', rl_query = '''', rl_version = '''' \<rparr>"

definition http_method_parse :: "mem \<Rightarrow> nat \<Rightarrow> nat \<Rightarrow> http_method option" where
  "http_method_parse m s len = do {
     get \<leftarrow> memcmp_eq m s ''GET'';
     if get \<and> len = 3 then Some GET else do {
     post \<leftarrow> memcmp_eq m s ''POST'';
     if post \<and> len = 4 then Some POST else do {
     put \<leftarrow> memcmp_eq m s ''PUT'';
     if put \<and> len = 3 then Some PUT else do {
     delete \<leftarrow> memcmp_eq m s ''DELETE'';
     if delete \<and> len = 6 then Some DELETE else Some UNKNOWN
     }}}}"

definition http_method_show :: "http_method \<Rightarrow> string" where
  "http_method_show meth =
     (if meth = GET then ''GET'' else if meth = POST then ''POST''
      else if meth = PUT then ''PUT'' else if meth = DELETE then ''DELETE'' else ''UNKNOWN'')"

definition method_parse :: "mem \<Rightarrow> nat \<Rightarrow> nat \<Rightarrow> request_line
    \<Rightarrow> (parse_result \<times> request_line) option" where
  "method_parse m cur en line = do {
     let res = parse_error_set parse_result_zero PARSE_BAD_REQUEST cur;
     if cur \<ge> en then Some (res, line) else do {
       c \<leftarrow> rd m cur;
       if c = SP then Some (res, line) else do {
         sp \<leftarrow> memchr m cur SP (en - cur);
         case sp of
           None \<Rightarrow> Some (res, line)
         | Some sp \<Rightarrow> do {
             meth \<leftarrow> http_method_parse m cur (sp - cur);
             let line = line\<lparr>rl_method := meth\<rparr>;
             if meth = UNKNOWN then Some (res, line)
             else Some (res\<lparr>status := PARSE_OK, next_pos := Some (sp + 1)\<rparr>, line)
           }
       }
     }
   }"

subsection \<open>The request target\<close>

text \<open>\<open>buf[(*len_ptr)++] = c\<close>, where \<open>buf\<close> is the query array once a \<open>?\<close> was seen.\<close>

definition uri_put :: "config \<Rightarrow> bool \<Rightarrow> char \<Rightarrow> request_line \<Rightarrow> request_line option" where
  "uri_put cfg in_query c line =
     (if in_query then do {
        require (length (rl_query line) < max_query_len cfg);
        Some (line\<lparr>rl_query := rl_query line @ [c]\<rparr>)
      } else do {
        require (length (rl_path line) < max_path_len cfg);
        Some (line\<lparr>rl_path := rl_path line @ [c]\<rparr>)
      })"

text \<open>
  The loop of \<open>uri_parse\<close>.  \<open>i\<close> is the offset of the next byte; the source increments it while
  reading \<open>c\<close>, so its \<open>cur + i - 1\<close> is \<open>cur + i\<close> here.  The result \<open>None\<close> of the inner option
  is a loop that ran to the space.
\<close>

function uri_parse_loop :: "config \<Rightarrow> mem \<Rightarrow> nat \<Rightarrow> nat \<Rightarrow> nat \<Rightarrow> bool \<Rightarrow> request_line
    \<Rightarrow> ((parse_status \<times> nat) option \<times> request_line) option" where
  "uri_parse_loop cfg m cur sp i in_query line =
     (if cur + i < sp then do {
        c \<leftarrow> rd m (cur + i);
        if ord c < 0x20 \<or> ord c \<ge> 0x7F then Some (Some (PARSE_BAD_REQUEST, cur), line)
        else if c = CHR ''#'' then Some (Some (PARSE_BAD_REQUEST, cur), line)
        else if \<not> in_query \<and> c = CHR ''?'' then do {
          line \<leftarrow> uri_put cfg True c line;
          uri_parse_loop cfg m cur sp (i + 1) True line
        } else do {
          let len = (if in_query then length (rl_query line) else length (rl_path line));
          let cap = (if in_query then max_query_len cfg else max_path_len cfg);
          if len \<ge> cap - 1 then Some (Some (PARSE_URI_TOO_LONG, cur + i), line)
          else if c = CHR ''%'' then
            if cur + (i + 1) + 2 > sp then Some (Some (PARSE_BAD_REQUEST, cur + i), line)
            else do {
              h1 \<leftarrow> rd m (cur + i + 1);
              hex \<leftarrow> (if is_hex h1 then do { h2 \<leftarrow> rd m (cur + i + 2); Some (is_hex h2) } else Some False);
              if \<not> hex then Some (Some (PARSE_BAD_REQUEST, cur + i), line)
              else if len + 3 > cap - 1 then Some (Some (PARSE_URI_TOO_LONG, cur + i), line)
              else do {
                line \<leftarrow> uri_put cfg in_query c line;
                line \<leftarrow> uri_put cfg in_query h1 line;
                h2 \<leftarrow> rd m (cur + i + 2);
                line \<leftarrow> uri_put cfg in_query h2 line;
                uri_parse_loop cfg m cur sp (i + 3) in_query line
              }
            }
          else do {
            line \<leftarrow> uri_put cfg in_query c line;
            uri_parse_loop cfg m cur sp (i + 1) in_query line
          }
        }
      } else Some (None, line))"
  by pat_completeness auto
termination
  by (relation "measure (\<lambda>(cfg, m, cur, sp, i, in_query, line). sp - (cur + i))") auto

declare uri_parse_loop.simps [simp del]

definition uri_parse :: "config \<Rightarrow> mem \<Rightarrow> nat \<Rightarrow> nat \<Rightarrow> request_line
    \<Rightarrow> (parse_result \<times> request_line) option" where
  "uri_parse cfg m cur en line = do {
     let res = parse_error_set parse_result_zero PARSE_BAD_REQUEST cur;
     if cur \<ge> en then Some (res, line) else do {
       sp \<leftarrow> memchr m cur SP (en - cur);
       case sp of
         None \<Rightarrow> Some (res, line)
       | Some sp \<Rightarrow> do {
           c \<leftarrow> rd m cur;
           if c \<noteq> CHR ''/'' then Some (res, line) else do {
             let line = line\<lparr>rl_path := '''', rl_query := ''''\<rparr>;
             (stop, line) \<leftarrow> uri_parse_loop cfg m cur sp 0 False line;
             case stop of
               Some (st, pos) \<Rightarrow> Some (parse_error_set res st pos, line)
             | None \<Rightarrow> do {
                 require (length (rl_query line) < max_query_len cfg);
                 require (length (rl_path line) < max_path_len cfg);
                 Some (res\<lparr>status := PARSE_OK, next_pos := Some (sp + 1)\<rparr>, line)
               }
           }
         }
     }
   }"

subsection \<open>Version and the whole line\<close>

text \<open>\<open>end - cur\<close> is a signed difference.  The version array has \<open>2 * version_len\<close> bytes.\<close>

definition version_parse :: "config \<Rightarrow> mem \<Rightarrow> nat \<Rightarrow> nat \<Rightarrow> request_line
    \<Rightarrow> (parse_result \<times> request_line) option" where
  "version_parse cfg m cur en line = do {
     let res = parse_error_set parse_result_zero PARSE_BAD_REQUEST cur;
     if int en - int cur \<noteq> int (version_len cfg) then Some (res, line) else do {
       http \<leftarrow> memcmp_eq m cur ''HTTP/'';
       if \<not> http then Some (res, line) else do {
         d1 \<leftarrow> rd m (cur + 5);
         period \<leftarrow> rd m (cur + 6);
         d2 \<leftarrow> rd m (en - 1);
         if \<not> isdigit d1 \<or> \<not> isdigit d2 \<or> period \<noteq> CHR ''.'' then Some (res, line) else do {
           v09 \<leftarrow> memcmp_eq m (cur + 5) ''0.9'';
           v10 \<leftarrow> memcmp_eq m (cur + 5) ''1.0'';
           v11 \<leftarrow> memcmp_eq m (cur + 5) ''1.1'';
           if \<not> (v09 \<or> v10 \<or> v11) then
             Some (parse_error_set res PARSE_VERSION_NOT_SUPPORTED cur, line)
           else do {
             bytes \<leftarrow> rd_range m cur (version_len cfg);
             require (version_len cfg < version_len cfg * 2);
             Some (res\<lparr>status := PARSE_OK, next_pos := Some en\<rparr>, line\<lparr>rl_version := bytes\<rparr>)
           }
         }
       }
     }
   }"

definition request_line_parse :: "config \<Rightarrow> mem \<Rightarrow> nat \<Rightarrow> nat \<Rightarrow> request_line
    \<Rightarrow> (parse_result \<times> request_line) option" where
  "request_line_parse cfg m cur en line = do {
     (method_res, line) \<leftarrow> method_parse m cur en line;
     if status method_res \<noteq> PARSE_OK then Some (method_res, line) else do {
       cur \<leftarrow> next_pos method_res;
       (uri_res, line) \<leftarrow> uri_parse cfg m cur en line;
       if status uri_res \<noteq> PARSE_OK then Some (uri_res, line) else do {
         cur \<leftarrow> next_pos uri_res;
         version_parse cfg m cur en line
       }
     }
   }"

text \<open>What \<open>request_line_show\<close> prints.\<close>

definition request_line_show :: "request_line \<Rightarrow> string" where
  "request_line_show line =
     http_method_show (rl_method line) @ '' '' @ rl_path line @ rl_query line @ '' ''
       @ rl_version line @ [LF]"

subsection \<open>The grammar of a request line\<close>

definition target_char :: "char \<Rightarrow> bool" where
  "target_char c \<longleftrightarrow> 0x20 < ord c \<and> ord c < 0x7F \<and> c \<noteq> CHR ''#''"

text \<open>Every \<open>%\<close> is followed by two hexadecimal digits.\<close>

fun pct_ok :: "string \<Rightarrow> bool" where
  "pct_ok [] = True"
| "pct_ok (c # cs) = (if c = CHR ''%'' then
     (case cs of h1 # h2 # r \<Rightarrow> is_hex h1 \<and> is_hex h2 \<and> pct_ok r | _ \<Rightarrow> False) else pct_ok cs)"

definition target_path :: "string \<Rightarrow> string" where
  "target_path t = takeWhile (\<lambda>c. c \<noteq> CHR ''?'') t"

definition target_query :: "string \<Rightarrow> string" where
  "target_query t = dropWhile (\<lambda>c. c \<noteq> CHR ''?'') t"

definition target_ok :: "config \<Rightarrow> string \<Rightarrow> bool" where
  "target_ok cfg t \<longleftrightarrow> (\<exists>r. t = CHR ''/'' # r) \<and> list_all target_char t \<and> pct_ok t
     \<and> length (target_path t) < max_path_len cfg \<and> length (target_query t) < max_query_len cfg"

definition versions :: "string set" where
  "versions = {''HTTP/0.9'', ''HTTP/1.0'', ''HTTP/1.1''}"

definition methods :: "http_method set" where
  "methods = {GET, POST, PUT, DELETE}"

definition request_line_text :: "http_method \<Rightarrow> string \<Rightarrow> string \<Rightarrow> string" where
  "request_line_text meth target version =
     http_method_show meth @ [SP] @ target @ [SP] @ version"

definition request_line_of :: "http_method \<Rightarrow> string \<Rightarrow> string \<Rightarrow> request_line" where
  "request_line_of meth target version = \<lparr> rl_method = meth, rl_path = target_path target,
     rl_query = target_query target, rl_version = version \<rparr>"

lemma is_hex_target: "is_hex c \<Longrightarrow> target_char c \<and> c \<noteq> CHR ''?'' \<and> c \<noteq> CHR ''%''"
  by (auto simp: is_hex_def target_char_def isdigit_def ord_def)

lemma target_parts_Cons [simp]:
  "target_path (c # r) = (if c = CHR ''?'' then [] else c # target_path r)"
  "target_query (c # r) = (if c = CHR ''?'' then c # r else target_query r)"
  by (simp_all add: target_path_def target_query_def)

lemma target_parts_Nil [simp]: "target_path [] = []" "target_query [] = []"
  by (simp_all add: target_path_def target_query_def)

lemma target_parts_join [simp]: "target_path t @ target_query t = t"
  by (simp add: target_path_def target_query_def)

subsection \<open>The target loop\<close>

text \<open>What is left of a target is good from the state \<open>(in_query, line)\<close> of the loop.\<close>

definition rest_ok :: "config \<Rightarrow> bool \<Rightarrow> request_line \<Rightarrow> string \<Rightarrow> bool" where
  "rest_ok cfg in_query line r \<longleftrightarrow> list_all target_char r \<and> pct_ok r
     \<and> length (rl_path line) + (if in_query then 0 else length (target_path r)) < max_path_len cfg
     \<and> length (rl_query line) + (if in_query then length r else length (target_query r)) < max_query_len cfg"

definition rest_store :: "bool \<Rightarrow> request_line \<Rightarrow> string \<Rightarrow> request_line" where
  "rest_store in_query line r = (if in_query then line\<lparr>rl_query := rl_query line @ r\<rparr>
     else line\<lparr>rl_path := rl_path line @ target_path r, rl_query := rl_query line @ target_query r\<rparr>)"

definition loop_state_ok :: "config \<Rightarrow> bool \<Rightarrow> request_line \<Rightarrow> bool" where
  "loop_state_ok cfg in_query line \<longleftrightarrow> length (rl_path line) < max_path_len cfg
     \<and> length (rl_query line) < max_query_len cfg \<and> (in_query \<or> rl_query line = [])"

definition loop_failed :: "((parse_status \<times> nat) option \<times> request_line) option \<Rightarrow> bool" where
  "loop_failed r \<longleftrightarrow> (\<exists>st pos line. r = Some (Some (st, pos), line)
     \<and> (st = PARSE_BAD_REQUEST \<or> st = PARSE_URI_TOO_LONG))"

lemma loop_failedI [simp]:
  "loop_failed (Some (Some (PARSE_BAD_REQUEST, pos), line))"
  "loop_failed (Some (Some (PARSE_URI_TOO_LONG, pos), line))"
  by (auto simp: loop_failed_def)

abbreviation loop_meets :: "config \<Rightarrow> bool \<Rightarrow> request_line \<Rightarrow> string
    \<Rightarrow> ((parse_status \<times> nat) option \<times> request_line) option \<Rightarrow> bool" where
  "loop_meets cfg in_query line r res \<equiv>
     (if rest_ok cfg in_query line r then res = Some (None, rest_store in_query line r)
      else loop_failed res)"

text \<open>Stored bytes, in the loop's state and in the description of the rest.\<close>

definition uri_store :: "bool \<Rightarrow> string \<Rightarrow> request_line \<Rightarrow> request_line" where
  "uri_store q bs line = (if q then line\<lparr>rl_query := rl_query line @ bs\<rparr>
     else line\<lparr>rl_path := rl_path line @ bs\<rparr>)"

definition cursor_len :: "bool \<Rightarrow> request_line \<Rightarrow> nat" where
  "cursor_len q line = (if q then length (rl_query line) else length (rl_path line))"

definition cursor_cap :: "config \<Rightarrow> bool \<Rightarrow> nat" where
  "cursor_cap cfg q = (if q then max_query_len cfg else max_path_len cfg)"

lemma uri_put_eq:
  "cursor_len q line < cursor_cap cfg q \<Longrightarrow> uri_put cfg q c line = Some (uri_store q [c] line)"
  by (auto simp: uri_put_def uri_store_def cursor_len_def cursor_cap_def split: if_splits)

lemma uri_store_store [simp]: "uri_store q bs (uri_store q cs line) = uri_store q (cs @ bs) line"
  by (simp add: uri_store_def)

lemma cursor_len_store [simp]: "cursor_len q (uri_store q bs line) = cursor_len q line + length bs"
  by (simp add: cursor_len_def uri_store_def)

lemma loop_state_store:
  "loop_state_ok cfg q line \<Longrightarrow> cursor_len q line + length bs < cursor_cap cfg q \<Longrightarrow>
     loop_state_ok cfg q (uri_store q bs line)"
  by (auto simp: loop_state_ok_def cursor_len_def cursor_cap_def uri_store_def)

lemma target_parts_append:
  assumes "list_all (\<lambda>c. c \<noteq> CHR ''?'') bs"
  shows "target_path (bs @ r) = bs @ target_path r" "target_query (bs @ r) = target_query r"
  using assms by (induction bs) auto

lemma rest_store_store:
  "q \<or> list_all (\<lambda>c. c \<noteq> CHR ''?'') bs \<Longrightarrow> rest_store q (uri_store q bs line) r = rest_store q line (bs @ r)"
  by (auto simp: rest_store_def uri_store_def target_parts_append)

lemma rest_ok_store:
  assumes "q \<or> list_all (\<lambda>c. c \<noteq> CHR ''?'') bs" "list_all target_char bs" "pct_ok (bs @ r) = pct_ok r"
  shows "rest_ok cfg q (uri_store q bs line) r \<longleftrightarrow> rest_ok cfg q line (bs @ r)"
  using assms by (auto simp: rest_ok_def uri_store_def target_parts_append)

lemma rest_ok_room: "rest_ok cfg q line r \<Longrightarrow> cursor_len q line < cursor_cap cfg q"
  by (auto simp: rest_ok_def cursor_len_def cursor_cap_def split: if_splits)

lemma rest_ok_room_prefix:
  assumes "rest_ok cfg q line (bs @ r)" "q \<or> list_all (\<lambda>c. c \<noteq> CHR ''?'') bs"
  shows "cursor_len q line + length bs < cursor_cap cfg q"
  using assms
  by (auto simp: rest_ok_def cursor_len_def cursor_cap_def target_parts_append split: if_splits)

lemma target_char_not_SP:
  "c \<noteq> SP \<Longrightarrow> target_char c \<longleftrightarrow> \<not> (ord c < 0x20 \<or> ord c \<ge> 0x7F) \<and> c \<noteq> CHR ''#''"
proof -
  assume "c \<noteq> SP"
  then have "ord c \<noteq> ord SP" by simp
  then have "ord c \<noteq> 0x20" by (simp add: ord_def)
  then show ?thesis by (auto simp: target_char_def)
qed

lemma rest_ok_query:
  "target_char (CHR ''?'') \<Longrightarrow> length (rl_query line) = 0 \<Longrightarrow>
     rest_ok cfg True (uri_store True [CHR ''?''] line) r \<longleftrightarrow> rest_ok cfg False line (CHR ''?'' # r)"
  by (auto simp: rest_ok_def uri_store_def)

lemma rest_store_query:
  "rest_store True (uri_store True [CHR ''?''] line) r = rest_store False line (CHR ''?'' # r)"
  by (auto simp: rest_store_def uri_store_def)

text \<open>A turn of the loop, the byte being in range.\<close>

lemma uri_parse_loop_at:
  assumes "cur + i < sp" "rd m (cur + i) = Some c" "cur + (i + 1) + 2 > sp \<longleftrightarrow> length r < 2"
  shows "uri_parse_loop cfg m cur sp i q line =
  (if ord c < 0x20 \<or> ord c \<ge> 0x7F then Some (Some (PARSE_BAD_REQUEST, cur), line)
  else if c = CHR ''#'' then Some (Some (PARSE_BAD_REQUEST, cur), line)
  else if \<not> q \<and> c = CHR ''?'' then do {
    line \<leftarrow> uri_put cfg True c line;
    uri_parse_loop cfg m cur sp (i + 1) True line
  } else if cursor_len q line \<ge> cursor_cap cfg q - 1 then Some (Some (PARSE_URI_TOO_LONG, cur + i), line)
  else if c = CHR ''%'' then
      if length r < 2 then Some (Some (PARSE_BAD_REQUEST, cur + i), line)
      else do {
        h1 \<leftarrow> rd m (cur + i + 1);
        hex \<leftarrow> (if is_hex h1 then do { h2 \<leftarrow> rd m (cur + i + 2); Some (is_hex h2) } else Some False);
        if \<not> hex then Some (Some (PARSE_BAD_REQUEST, cur + i), line)
        else if cursor_len q line + 3 > cursor_cap cfg q - 1 then Some (Some (PARSE_URI_TOO_LONG, cur + i), line)
        else do {
          line \<leftarrow> uri_put cfg q c line;
          line \<leftarrow> uri_put cfg q h1 line;
          h2 \<leftarrow> rd m (cur + i + 2);
          line \<leftarrow> uri_put cfg q h2 line;
          uri_parse_loop cfg m cur sp (i + 3) q line
        }
      }
    else do {
      line \<leftarrow> uri_put cfg q c line;
      uri_parse_loop cfg m cur sp (i + 1) q line
    })"
  by (subst uri_parse_loop.simps)
    (simp only: assms if_True bind.bind_lunit Let_def cursor_len_def cursor_cap_def)

lemma uri_parse_loop_unfold:
  assumes "cur + i < sp" "sp \<le> length m" and c_def: "c = m ! (cur + i)" and r_def: "r = seg m (cur + Suc i) sp"
  shows "uri_parse_loop cfg m cur sp i q line =
  (if ord c < 0x20 \<or> ord c \<ge> 0x7F then Some (Some (PARSE_BAD_REQUEST, cur), line)
   else if c = CHR ''#'' then Some (Some (PARSE_BAD_REQUEST, cur), line)
   else if \<not> q \<and> c = CHR ''?'' then do {
     line \<leftarrow> uri_put cfg True c line; uri_parse_loop cfg m cur sp (i + 1) True line }
   else if cursor_len q line \<ge> cursor_cap cfg q - 1 then Some (Some (PARSE_URI_TOO_LONG, cur + i), line)
   else if c = CHR ''%'' then
     if length r < 2 then Some (Some (PARSE_BAD_REQUEST, cur + i), line)
     else if \<not> (is_hex (r ! 0) \<and> is_hex (r ! 1)) then Some (Some (PARSE_BAD_REQUEST, cur + i), line)
     else if cursor_len q line + 3 > cursor_cap cfg q - 1 then Some (Some (PARSE_URI_TOO_LONG, cur + i), line)
     else uri_parse_loop cfg m cur sp (i + 3) q (uri_store q [c, r ! 0, r ! 1] line)
   else uri_parse_loop cfg m cur sp (i + 1) q (uri_store q [c] line))"
proof -
  have rdc: "rd m (cur + i) = Some c" using assms(1,2) by (simp add: fault_simps c_def)
  have len: "length r = sp - (cur + Suc i)" using assms(2) by (simp add: r_def)
  have r0: "rd m (cur + i + 1) = Some (r ! 0)" if "length r \<ge> 2"
    using that len assms(2) by (simp add: fault_simps r_def nth_seg)
  have r1: "rd m (cur + i + 2) = Some (r ! 1)" if "length r \<ge> 2"
    using that len assms(2) by (simp add: fault_simps r_def nth_seg)
  have lt: "(cur + (i + 1) + 2 > sp) \<longleftrightarrow> length r < 2" using len assms(1) by linarith
  have room: "uri_put cfg q c line = Some (uri_store q [c] line)"
    if "cursor_len q line < cursor_cap cfg q" for c line
    using that by (rule uri_put_eq)
  note E = uri_parse_loop_at [OF assms(1) rdc lt, of cfg q line]
  consider (early) "ord c < 0x20 \<or> ord c \<ge> 0x7F \<or> c = CHR ''#'' \<or> (\<not> q \<and> c = CHR ''?'')
        \<or> cursor_len q line \<ge> cursor_cap cfg q - 1"
    | (plain) "\<not> (ord c < 0x20 \<or> ord c \<ge> 0x7F \<or> c = CHR ''#'' \<or> (\<not> q \<and> c = CHR ''?''))"
        "cursor_len q line < cursor_cap cfg q - 1" "c \<noteq> CHR ''%''"
    | (short) "c = CHR ''%''" "cursor_len q line < cursor_cap cfg q - 1" "length r < 2"
    | (esc) "c = CHR ''%''" "cursor_len q line < cursor_cap cfg q - 1" "length r \<ge> 2"
    by fastforce
  then show ?thesis
  proof cases
    case early
    then show ?thesis unfolding E by presburger
  next
    case plain
    then have "uri_put cfg q c line = Some (uri_store q [c] line)" by (intro room) simp
    with plain show ?thesis unfolding E by auto
  next
    case short
    then show ?thesis unfolding E by simp
  next
    case esc
    note rds = r0 [OF esc(3)] r1 [OF esc(3)]
    show ?thesis
    proof (cases "cursor_len q line + 3 > cursor_cap cfg q - 1")
      case True
      with esc rds show ?thesis unfolding E by simp
    next
      case False
      with esc rds show ?thesis unfolding E
        using room [of line] room [of "uri_store q [c] line"] room [of "uri_store q [c, r ! 0] line"]
        by simp
    qed
  qed
qed

lemma uri_parse_loop_escape:
  assumes "cur + i < sp" "sp \<le> length m" "loop_state_ok cfg q line"
    and c: "c = m ! (cur + i)" and r_def: "r = seg m (cur + Suc i) sp"
    and pct: "target_char c" "q \<or> c \<noteq> CHR ''?''" "cursor_len q line < cursor_cap cfg q - 1" "c = CHR ''%''"
    and tc: "\<not> (ord c < 0x20 \<or> ord c \<ge> 0x7F) \<and> c \<noteq> CHR ''#''"
    and IH: "\<And>line'. loop_state_ok cfg q line' \<Longrightarrow> cur + (i + 3) \<le> sp \<Longrightarrow>
      loop_meets cfg q line' (seg m (cur + (i + 3)) sp) (uri_parse_loop cfg m cur sp (i + 3) q line')"
  shows "loop_meets cfg q line (c # r) (uri_parse_loop cfg m cur sp i q line)"
proof -
  note U = uri_parse_loop_unfold [OF assms(1,2) c r_def, of cfg q line]
  show ?thesis
  proof (cases "length r < 2 \<or> \<not> (is_hex (r ! 0) \<and> is_hex (r ! 1))")
    case True
    then have "\<not> pct_ok (c # r)"
      using pct(4) by (cases r; cases "tl r") (auto split: list.splits)
    with True pct show ?thesis unfolding U using tc by (auto simp: rest_ok_def)
  next
    case False
    define r' where "r' = seg m (cur + (i + 3)) sp"
    have len: "length r = sp - (cur + Suc i)" using assms(2) by (simp add: r_def)
    moreover have "2 \<le> length r" using False by simp
    ultimately have "cur + Suc i < sp" "cur + Suc (Suc i) < sp" by linarith+
    then have r: "r = [r ! 0, r ! 1] @ r'"
      using assms(2) by (simp add: r_def r'_def seg_Cons nth_seg numeral_3_eq_3)
    define bs where "bs = [c, r ! 0, r ! 1]"
    have cr: "c # r = bs @ r'" using r by (simp add: bs_def)
    have bs: "q \<or> list_all (\<lambda>c. c \<noteq> CHR ''?'') bs" "list_all target_char bs" "pct_ok (bs @ r') = pct_ok r'"
      using False pct is_hex_target by (auto simp: bs_def)
    show ?thesis
    proof (cases "cursor_len q line + 3 > cursor_cap cfg q - 1")
      case over: True
      have "length bs = 3" by (simp add: bs_def)
      with over have "\<not> rest_ok cfg q line (c # r)"
        using rest_ok_room_prefix [of cfg q line bs r'] bs(1) unfolding cr by auto
      with over False pct show ?thesis unfolding U using tc by auto
    next
      case fits: False
      have st: "loop_state_ok cfg q (uri_store q bs line)"
        using fits pct(3) assms(3) by (intro loop_state_store) (simp_all add: bs_def)
      have "cur + (i + 3) \<le> sp" using False len by linarith
      from IH [OF st this] have
        "loop_meets cfg q (uri_store q bs line) r' (uri_parse_loop cfg m cur sp (i + 3) q (uri_store q bs line))"
        by (simp add: r'_def)
      moreover have "uri_parse_loop cfg m cur sp i q line
          = uri_parse_loop cfg m cur sp (i + 3) q (uri_store q bs line)"
        unfolding U using fits False pct tc by (auto simp: bs_def)
      ultimately show ?thesis
        unfolding cr using rest_ok_store [OF bs] rest_store_store [OF bs(1)] by simp
    qed
  qed
qed

lemma uri_parse_loop_query:
  assumes "cur + i < sp" "sp \<le> length m" "loop_state_ok cfg q line" "2 \<le> max_query_len cfg"
    and c: "c = m ! (cur + i)" and r_def: "r = seg m (cur + Suc i) sp"
    and query: "target_char c" "\<not> q" "c = CHR ''?''"
    and tc: "\<not> (ord c < 0x20 \<or> ord c \<ge> 0x7F) \<and> c \<noteq> CHR ''#''"
    and IH: "\<And>line'. loop_state_ok cfg True line' \<Longrightarrow> loop_meets cfg True line' r (uri_parse_loop cfg m cur sp (i + 1) True line')"
  shows "loop_meets cfg q line (c # r) (uri_parse_loop cfg m cur sp i q line)"
proof -
  note U = uri_parse_loop_unfold [OF assms(1,2) c r_def, of cfg q line]
  have put: "uri_put cfg True c line = Some (uri_store True [c] line)"
    using assms(3) by (intro uri_put_eq) (simp add: loop_state_ok_def cursor_len_def cursor_cap_def)
  have empty: "rl_query line = []" using assms(3) query by (simp add: loop_state_ok_def)
  then have st: "loop_state_ok cfg True (uri_store True [c] line)"
    using assms(3,4) by (simp add: loop_state_ok_def uri_store_def)
  have qe: "length (rl_query line) = 0" "target_char (CHR ''?'')" using empty query by simp_all
  have "uri_parse_loop cfg m cur sp i q line = uri_parse_loop cfg m cur sp (i + 1) True (uri_store True [c] line)"
    unfolding U using query tc put by simp
  with IH [OF st] show ?thesis
    using rest_ok_query [OF qe(2,1), of cfg r] rest_store_query [of line r] query(2,3) by (simp split: if_splits)
qed

lemma uri_parse_loop_plain:
  assumes "cur + i < sp" "sp \<le> length m" "loop_state_ok cfg q line"
    and c: "c = m ! (cur + i)" and r_def: "r = seg m (cur + Suc i) sp"
    and plain: "target_char c" "q \<or> c \<noteq> CHR ''?''" "cursor_len q line < cursor_cap cfg q - 1" "c \<noteq> CHR ''%''"
    and tc: "\<not> (ord c < 0x20 \<or> ord c \<ge> 0x7F) \<and> c \<noteq> CHR ''#''"
    and IH: "\<And>line'. loop_state_ok cfg q line' \<Longrightarrow> loop_meets cfg q line' r (uri_parse_loop cfg m cur sp (i + 1) q line')"
  shows "loop_meets cfg q line (c # r) (uri_parse_loop cfg m cur sp i q line)"
proof -
  note U = uri_parse_loop_unfold [OF assms(1,2) c r_def, of cfg q line]
  have st: "loop_state_ok cfg q (uri_store q [c] line)"
    using plain(3) assms(3) by (intro loop_state_store) simp_all
  have "rest_ok cfg q (uri_store q [c] line) r \<longleftrightarrow> rest_ok cfg q line ([c] @ r)"
    using plain by (intro rest_ok_store) simp_all
  moreover have "rest_store q (uri_store q [c] line) r = rest_store q line ([c] @ r)"
    using plain by (intro rest_store_store) simp
  moreover have "uri_parse_loop cfg m cur sp i q line = uri_parse_loop cfg m cur sp (i + 1) q (uri_store q [c] line)"
    unfolding U using plain tc by auto
  ultimately show ?thesis using IH [OF st] by (simp split: if_splits)
qed

lemma uri_parse_loop_meets:
  assumes "sp \<le> length m" "2 \<le> max_path_len cfg" "2 \<le> max_query_len cfg"
    and "cur + i \<le> sp" "SP \<notin> set (seg m (cur + i) sp)" "loop_state_ok cfg q line"
  shows "loop_meets cfg q line (seg m (cur + i) sp) (uri_parse_loop cfg m cur sp i q line)"
  using assms(4-6)
proof (induction "sp - (cur + i)" arbitrary: i q line rule: less_induct)
  case less
  show ?case
  proof (cases "cur + i < sp")
    case False
    with less.prems show ?thesis
      by (simp add: uri_parse_loop.simps [of cfg m cur sp i] rest_ok_def rest_store_def loop_state_ok_def)
  next
    case True
    define c where "c = m ! (cur + i)"
    define r where "r = seg m (cur + Suc i) sp"
    have sg: "seg m (cur + i) sp = c # r"
      using True assms(1) by (simp add: seg_Cons c_def r_def)
    have c: "c \<noteq> SP" and spr: "SP \<notin> set r" using less.prems(2) sg by auto
    note U = uri_parse_loop_unfold [OF True assms(1) c_def r_def, of cfg q line]
    have IH: "loop_meets cfg q' line' (seg m (cur + j) sp) (uri_parse_loop cfg m cur sp j q' line')"
      if j: "i < j" "cur + j \<le> sp" and st: "loop_state_ok cfg q' line'" for j q' line'
    proof -
      have "seg m (cur + i) sp = seg m (cur + i) (cur + j) @ seg m (cur + j) sp"
        using j by (intro seg_append) auto
      with less.prems(2) have "SP \<notin> set (seg m (cur + j) sp)" by simp
      moreover have "sp - (cur + j) < sp - (cur + i)" using j True by simp
      ultimately show ?thesis using less.hyps j(2) st by blast
    qed
    have IH1: "loop_meets cfg q' line' r (uri_parse_loop cfg m cur sp (i + 1) q' line')"
      if "loop_state_ok cfg q' line'" for q' line'
      using IH [of "i + 1" q' line'] that True by (simp add: r_def split: if_splits)
    have tc: "target_char c \<longleftrightarrow> \<not> (ord c < 0x20 \<or> ord c \<ge> 0x7F) \<and> c \<noteq> CHR ''#''"
      using c by (rule target_char_not_SP)
    note facts = sg U tc less.prems(3)
    consider (bad) "\<not> target_char c"
      | (query) "target_char c" "\<not> q" "c = CHR ''?''"
      | (full) "target_char c" "q \<or> c \<noteq> CHR ''?''" "cursor_cap cfg q - 1 \<le> cursor_len q line"
      | (pct) "target_char c" "q \<or> c \<noteq> CHR ''?''" "cursor_len q line < cursor_cap cfg q - 1" "c = CHR ''%''"
      | (plain) "target_char c" "q \<or> c \<noteq> CHR ''?''" "cursor_len q line < cursor_cap cfg q - 1" "c \<noteq> CHR ''%''"
      by (meson not_le)
    then show ?thesis
    proof cases
      case bad
      then show ?thesis unfolding U sg using tc by (auto simp: rest_ok_def)
    next
      case query
      with tc have "\<not> (ord c < 0x20 \<or> ord c \<ge> 0x7F) \<and> c \<noteq> CHR ''#''" by simp
      from uri_parse_loop_query [OF True assms(1) less.prems(3) assms(3) c_def r_def query this IH1] show ?thesis
        unfolding sg by simp
    next
      case full
      then have "\<not> rest_ok cfg q line ([c] @ r)"
        using rest_ok_room_prefix [of cfg q line "[c]" r] by auto
      with full show ?thesis unfolding U sg using tc by auto
    next
      case plain
      with tc have "\<not> (ord c < 0x20 \<or> ord c \<ge> 0x7F) \<and> c \<noteq> CHR ''#''" by simp
      from uri_parse_loop_plain [OF True assms(1) less.prems(3) c_def r_def plain this IH1] show ?thesis
        unfolding sg by simp
    next
      case pct
      have "target_char c \<Longrightarrow> \<not> (ord c < 0x20 \<or> ord c \<ge> 0x7F) \<and> c \<noteq> CHR ''#''" using tc by simp
      from uri_parse_loop_escape [OF True assms(1) less.prems(3) c_def r_def pct this [OF pct(1)]] IH [of "i + 3" q]
      show ?thesis unfolding sg by simp
    qed
  qed
qed

subsection \<open>The stages of a request line\<close>

definition method_of :: "string \<Rightarrow> http_method" where
  "method_of w = (if w = ''GET'' then GET else if w = ''POST'' then POST else if w = ''PUT'' then PUT
     else if w = ''DELETE'' then DELETE else UNKNOWN)"

lemma method_of_iff: "method_of w = meth \<and> meth \<noteq> UNKNOWN \<longleftrightarrow> meth \<in> methods \<and> w = http_method_show meth"
  by (cases meth) (auto simp: method_of_def methods_def http_method_show_def)

lemma method_show_no_SP: "SP \<notin> set (http_method_show meth)"
  by (simp add: http_method_show_def)

lemma http_method_parse_eq:
  assumes "s + 6 \<le> length m" "s + len \<le> length m"
  shows "http_method_parse m s len = Some (method_of (take len (drop s m)))"
proof -
  have lit: "take len (drop s m) = lit \<longleftrightarrow> take (length lit) (drop s m) = lit \<and> len = length lit" for lit
    using assms(2) by auto
  have cmp: "memcmp_eq m s lit = Some (take (length lit) (drop s m) = lit)" if "length lit \<le> 6" for lit
    using assms(1) that by (intro memcmp_eq_in) simp
  show ?thesis
    unfolding http_method_parse_def method_of_def lit by (simp add: cmp)
qed

lemma method_stage:
  assumes "cur \<le> en" "en \<le> length m" "cur + 6 \<le> length m"
  obtains (ok) meth r where "meth \<in> methods" "seg m cur en = http_method_show meth @ SP # r"
      "method_parse m cur en line = Some (\<lparr> status = PARSE_OK, error_position = Some cur,
         next_pos = Some (cur + length (http_method_show meth) + 1) \<rparr>, line\<lparr>rl_method := meth\<rparr>)"
  | (bad) res line' where "method_parse m cur en line = Some (res, line')" "status res = PARSE_BAD_REQUEST"
      "\<And>meth r. meth \<in> methods \<Longrightarrow> seg m cur en \<noteq> http_method_show meth @ SP # r"
proof (cases "cur < en \<and> m ! cur \<noteq> SP")
  case False
  then have no: "seg m cur en = [] \<or> hd (seg m cur en) = SP"
    using assms by (cases "cur < en") (auto simp: seg_Cons)
  have "seg m cur en \<noteq> http_method_show meth @ SP # r" if "meth \<in> methods" for meth r
    using no that by (auto simp: methods_def http_method_show_def)
  moreover have "method_parse m cur en line = Some (parse_error_set parse_result_zero PARSE_BAD_REQUEST cur, line)"
    using False assms by (auto simp: method_parse_def Let_def fault_simps)
  ultimately show thesis by (intro bad) (auto simp: parse_error_set_def)
next
  case True
  show thesis
  proof (rule memchr_seg [OF assms(1,2), of SP])
    assume a: "memchr m cur SP (en - cur) = Some None" "SP \<notin> set (seg m cur en)"
    then have "method_parse m cur en line = Some (parse_error_set parse_result_zero PARSE_BAD_REQUEST cur, line)"
      using True assms by (simp add: method_parse_def Let_def fault_simps)
    then show thesis using a(2) by (intro bad) (auto simp: parse_error_set_def)
  next
    fix p
    assume p: "memchr m cur SP (en - cur) = Some (Some p)" "cur \<le> p" "p < en" "m ! p = SP"
      "SP \<notin> set (seg m cur p)" "seg m cur en = seg m cur p @ SP # seg m (Suc p) en"
    have w: "http_method_parse m cur (p - cur) = Some (method_of (seg m cur p))"
      using p assms by (subst http_method_parse_eq) (simp_all add: seg_def)
    show thesis
    proof (cases "method_of (seg m cur p) = UNKNOWN")
      case unknown: True
      then have "method_parse m cur en line
          = Some (parse_error_set parse_result_zero PARSE_BAD_REQUEST cur, line\<lparr>rl_method := UNKNOWN\<rparr>)"
        using True assms p(1) w by (simp add: method_parse_def Let_def fault_simps)
      moreover have "seg m cur en \<noteq> http_method_show meth @ SP # r" if "meth \<in> methods" for meth r
        using that p(5,6) unknown method_of_iff [of "seg m cur p" meth] method_show_no_SP [of meth]
        by (auto simp: first_split_unique methods_def)
      ultimately show thesis by (intro bad) (auto simp: parse_error_set_def)
    next
      case False
      define meth where "meth = method_of (seg m cur p)"
      have meth: "meth \<in> methods" "seg m cur p = http_method_show meth"
        using False method_of_iff meth_def by blast+
      have "length (seg m cur p) = p - cur" using p assms by simp
      then have "p = cur + length (http_method_show meth)" using p(2) meth(2) by simp
      then have "method_parse m cur en line = Some (\<lparr> status = PARSE_OK, error_position = Some cur,
         next_pos = Some (cur + length (http_method_show meth) + 1) \<rparr>, line\<lparr>rl_method := meth\<rparr>)"
        using True assms p(1) w False
        by (simp add: method_parse_def Let_def fault_simps meth_def parse_error_set_def parse_result_zero_def)
      with meth p(6) show thesis by (intro ok [of meth "seg m (Suc p) en"]) simp_all
    qed
  qed
qed

lemma target_char_SP [simp]: "\<not> target_char SP"
  by (simp add: target_char_def ord_def)

lemma target_no_SP: "target_ok cfg t \<Longrightarrow> SP \<notin> set t"
  unfolding target_ok_def list_all_iff using target_char_SP by blast

lemma uri_stage:
  assumes "cur \<le> en" "en \<le> length m" "2 \<le> max_path_len cfg" "2 \<le> max_query_len cfg"
  obtains (ok) t r where "target_ok cfg t" "seg m cur en = t @ SP # r"
      "uri_parse cfg m cur en line = Some (\<lparr> status = PARSE_OK, error_position = Some cur,
         next_pos = Some (cur + length t + 1) \<rparr>, line\<lparr>rl_path := target_path t, rl_query := target_query t\<rparr>)"
  | (bad) res line' where "uri_parse cfg m cur en line = Some (res, line')"
      "status res \<in> {PARSE_BAD_REQUEST, PARSE_URI_TOO_LONG}"
      "\<And>t r. target_ok cfg t \<Longrightarrow> seg m cur en \<noteq> t @ SP # r"
proof (rule memchr_seg [OF assms(1,2), of SP])
  assume a: "memchr m cur SP (en - cur) = Some None" "SP \<notin> set (seg m cur en)"
  then have "uri_parse cfg m cur en line = Some (parse_error_set parse_result_zero PARSE_BAD_REQUEST cur, line)"
    by (simp add: uri_parse_def Let_def)
  then show thesis using a(2) by (intro bad) (auto simp: parse_error_set_def)
next
  fix p
  assume p: "memchr m cur SP (en - cur) = Some (Some p)" "cur \<le> p" "p < en" "m ! p = SP"
    "SP \<notin> set (seg m cur p)" "seg m cur en = seg m cur p @ SP # seg m (Suc p) en"
  define t where "t = seg m cur p"
  define line0 where "line0 = line\<lparr>rl_path := [], rl_query := []\<rparr>"
  have uniq: "t' = t" if "target_ok cfg t'" "seg m cur en = t' @ SP # r'" for t' r'
    using that p(5,6) target_no_SP by (auto simp: t_def first_split_unique)
  show thesis
  proof (cases "m ! cur = CHR ''/''")
    case False
    then have "uri_parse cfg m cur en line = Some (parse_error_set parse_result_zero PARSE_BAD_REQUEST cur, line)"
      using p assms by (simp add: uri_parse_def Let_def fault_simps)
    moreover have "\<not> target_ok cfg t"
    proof (cases "cur < p")
      case True
      with p assms have "t = m ! cur # seg m (Suc cur) p" by (simp add: t_def seg_Cons)
      with False show ?thesis by (simp add: target_ok_def)
    next
      case False
      then show ?thesis by (simp add: t_def target_ok_def)
    qed
    ultimately show thesis using uniq by (intro bad) (auto simp: parse_error_set_def)
  next
    case slash: True
    with p have "cur < p" using le_neq_implies_less by fastforce
    with p assms slash have thd: "\<exists>r. t = CHR ''/'' # r" by (simp add: t_def seg_Cons)
    have "loop_state_ok cfg False line0" using assms by (simp add: loop_state_ok_def line0_def)
    then have meets: "loop_meets cfg False line0 t (uri_parse_loop cfg m cur p 0 False line0)"
      using uri_parse_loop_meets [of p m cfg cur 0 False line0] p assms by (simp add: t_def)
    have rest: "rest_ok cfg False line0 t \<longleftrightarrow> target_ok cfg t"
      using thd by (auto simp: rest_ok_def target_ok_def line0_def)
    have len: "p = cur + length t" using p assms by (simp add: t_def)
    show thesis
    proof (cases "target_ok cfg t")
      case True
      have "rest_store False line0 t = line\<lparr>rl_path := target_path t, rl_query := target_query t\<rparr>"
        by (simp add: rest_store_def line0_def)
      with meets rest True have loop: "uri_parse_loop cfg m cur p 0 False line0
          = Some (None, line\<lparr>rl_path := target_path t, rl_query := target_query t\<rparr>)" by simp
      have "uri_parse cfg m cur en line = Some (\<lparr> status = PARSE_OK, error_position = Some cur,
         next_pos = Some (cur + length t + 1) \<rparr>, line\<lparr>rl_path := target_path t, rl_query := target_query t\<rparr>)"
        using p assms slash loop True len
        by (simp add: uri_parse_def Let_def fault_simps line0_def parse_error_set_def parse_result_zero_def target_ok_def)
      with True p(6) show thesis by (intro ok [of t "seg m (Suc p) en"]) (simp_all add: t_def)
    next
      case False
      with meets rest have "loop_failed (uri_parse_loop cfg m cur p 0 False line0)" by simp
      then obtain st pos line' where "uri_parse_loop cfg m cur p 0 False line0 = Some (Some (st, pos), line')"
        "st = PARSE_BAD_REQUEST \<or> st = PARSE_URI_TOO_LONG" by (auto simp: loop_failed_def)
      then have "uri_parse cfg m cur en line
          = Some (parse_error_set (parse_error_set parse_result_zero PARSE_BAD_REQUEST cur) st pos, line')"
        using p assms slash by (simp add: uri_parse_def Let_def fault_simps line0_def)
      then show thesis
        using \<open>st = PARSE_BAD_REQUEST \<or> st = PARSE_URI_TOO_LONG\<close> uniq False
        by (intro bad) (auto simp: parse_error_set_def)
    qed
  qed
qed

text \<open>What the version parser reads of eight bytes.\<close>

lemma version_parse_eq:
  assumes "cur + 8 \<le> length m" "version_len cfg = 8" "take 8 (drop cur m) = [c0, c1, c2, c3, c4, c5, c6, c7]"
  shows "version_parse cfg m cur (cur + 8) line =
    (if [c0, c1, c2, c3, c4] \<noteq> ''HTTP/'' \<or> \<not> isdigit c5 \<or> \<not> isdigit c7 \<or> c6 \<noteq> CHR ''.''
     then Some (parse_error_set parse_result_zero PARSE_BAD_REQUEST cur, line)
     else if [c5, c6, c7] \<notin> {''0.9'', ''1.0'', ''1.1''} then
       Some (parse_error_set (parse_error_set parse_result_zero PARSE_BAD_REQUEST cur) PARSE_VERSION_NOT_SUPPORTED cur, line)
     else Some (\<lparr> status = PARSE_OK, error_position = Some cur, next_pos = Some (cur + 8) \<rparr>,
       line\<lparr>rl_version := [c0, c1, c2, c3, c4, c5, c6, c7]\<rparr>))"
proof -
  define s where "s = take 8 (drop cur m)"
  note cs = assms(3) [folded s_def]
  have sub: "take k (drop (cur + j) m) = take k (drop j s)" if "j + k \<le> 8" for j k
    using that by (simp add: s_def drop_take add.commute)
  have at: "m ! (cur + j) = s ! j" if "j < 8" for j using that assms(1) by (simp add: s_def)
  have "take (length ''HTTP/'') (drop cur m) = [c0, c1, c2, c3, c4]"
    using sub [of 0 "length ''HTTP/''"] cs by simp
  moreover have "memcmp_eq m cur ''HTTP/'' = Some (take (length ''HTTP/'') (drop cur m) = ''HTTP/'')"
    using assms(1) by (intro memcmp_eq_in) simp
  ultimately have http: "memcmp_eq m cur ''HTTP/'' = Some ([c0, c1, c2, c3, c4] = ''HTTP/'')" by (simp only:)
  have cmp3: "memcmp_eq m (cur + 5) v = Some ([c5, c6, c7] = v)" if "length v = 3" for v
  proof -
    have "take 3 (drop (cur + 5) m) = [c5, c6, c7]" using sub [of 5 3] cs by simp
    with that show ?thesis using assms(1) memcmp_eq_in [of "cur + 5" v m] by simp
  qed
  have "m ! (cur + 5) = c5" "m ! (cur + 6) = c6" "m ! (cur + 7) = c7"
    using at [of 5] at [of 6] at [of 7] cs by simp_all
  then have "rd m (cur + 5) = Some c5" "rd m (cur + 6) = Some c6" "rd m (cur + 8 - 1) = Some c7" "rd_range m cur 8 = Some s"
    using assms(1) by (simp_all add: fault_simps s_def add.commute)
  then show ?thesis
    by (simp add: http cmp3 version_parse_def Let_def parse_error_set_def parse_result_zero_def assms(2) cs)
qed

lemma version_stage:
  assumes "cur \<le> en" "en \<le> length m" "version_len cfg = 8"
  obtains (ok) "seg m cur en \<in> versions"
      "version_parse cfg m cur en line = Some (\<lparr> status = PARSE_OK, error_position = Some cur,
         next_pos = Some en \<rparr>, line\<lparr>rl_version := seg m cur en\<rparr>)"
  | (bad) res line' where "version_parse cfg m cur en line = Some (res, line')"
      "status res \<in> {PARSE_BAD_REQUEST, PARSE_VERSION_NOT_SUPPORTED}" "seg m cur en \<notin> versions"
proof (cases "en = cur + 8")
  case False
  then have "version_parse cfg m cur en line = Some (parse_error_set parse_result_zero PARSE_BAD_REQUEST cur, line)"
    using assms by (simp add: version_parse_def Let_def)
  moreover have "length (seg m cur en) \<noteq> 8" using False assms by simp
  then have "seg m cur en \<notin> versions" by (auto simp: versions_def)
  ultimately show thesis by (intro bad) (auto simp: parse_error_set_def)
next
  case True
  define s where "s = take 8 (drop cur m)"
  have s: "seg m cur en = s" "length s = 8" using True assms by (simp_all add: s_def seg_def)
  obtain c0 c1 c2 c3 c4 c5 c6 c7 where cs: "s = [c0, c1, c2, c3, c4, c5, c6, c7]"
    using s(2) by (auto simp: length_Suc_conv numeral_eq_Suc)
  have "cur + 8 \<le> length m" using True assms(2) by simp
  note parse = version_parse_eq [OF this assms(3) cs [unfolded s_def], of line, folded True cs]
  have "isdigit (CHR ''0'')" "isdigit (CHR ''1'')" "isdigit (CHR ''9'')" by (simp_all add: isdigit_def ord_def)
  then have ver: "s \<in> versions \<longleftrightarrow> [c0, c1, c2, c3, c4] = ''HTTP/'' \<and> isdigit c5 \<and> isdigit c7 \<and> c6 = CHR ''.''
      \<and> [c5, c6, c7] \<in> {''0.9'', ''1.0'', ''1.1''}"
    unfolding versions_def cs by auto
  show thesis
  proof (cases "s \<in> versions")
    case True
    with ver have "version_parse cfg m cur en line =
      Some (\<lparr> status = PARSE_OK, error_position = Some cur, next_pos = Some en \<rparr>, line\<lparr>rl_version := s\<rparr>)"
      unfolding parse by auto
    with True show thesis using s(1) by (intro ok) simp_all
  next
    case False
    then have "\<exists>res. version_parse cfg m cur en line = Some (res, line)
        \<and> status res \<in> {PARSE_BAD_REQUEST, PARSE_VERSION_NOT_SUPPORTED}"
      unfolding ver parse by (auto simp: parse_error_set_def)
    with False s(1) show thesis by (metis bad)
  qed
qed

subsection \<open>The whole request line\<close>

text \<open>What follows a word and a separator.\<close>

lemma seg_behind:
  assumes "seg m cur en = w @ x # r" "cur \<le> en" "en \<le> length m"
  shows "cur + length w + 1 \<le> en" "seg m (cur + length w + 1) en = r"
proof -
  let ?u = "cur + length w + 1"
  have "length (seg m cur en) = en - cur" using assms(3) by simp
  with assms(1,2) show u: "?u \<le> en" by simp
  have "seg m cur en = seg m cur ?u @ seg m ?u en" using u by (intro seg_append) simp_all
  moreover have "length (seg m cur ?u) = ?u - cur" using u assms(3) by simp
  ultimately have "seg m ?u en = drop (?u - cur) (seg m cur en)" by simp
  then show "seg m ?u en = r" by (simp add: assms(1))
qed

text \<open>The part of \<open>request_line_parse\<close> behind the method.\<close>

definition request_line_rest :: "config \<Rightarrow> mem \<Rightarrow> nat \<Rightarrow> nat \<Rightarrow> request_line \<Rightarrow> (parse_result \<times> request_line) option" where
  "request_line_rest cfg m cur en line = do {
     (uri_res, line) \<leftarrow> uri_parse cfg m cur en line;
     if status uri_res \<noteq> PARSE_OK then Some (uri_res, line) else do {
       cur \<leftarrow> next_pos uri_res;
       version_parse cfg m cur en line
     }
   }"

lemma request_line_parse_rest:
  "request_line_parse cfg m cur en line = do {
     (method_res, line) \<leftarrow> method_parse m cur en line;
     if status method_res \<noteq> PARSE_OK then Some (method_res, line) else do {
       cur \<leftarrow> next_pos method_res;
       request_line_rest cfg m cur en line
     }
   }"
  by (simp only: request_line_parse_def request_line_rest_def)

lemma target_version_stage:
  assumes "wf_config cfg" "cur \<le> en" "en \<le> length m"
  obtains (ok) t v pos where "target_ok cfg t" "v \<in> versions" "seg m cur en = t @ SP # v"
      "request_line_rest cfg m cur en line = Some (\<lparr> status = PARSE_OK, error_position = Some pos, next_pos = Some en \<rparr>,
         line\<lparr>rl_path := target_path t, rl_query := target_query t, rl_version := v\<rparr>)"
  | (bad) res line' where "request_line_rest cfg m cur en line = Some (res, line')"
      "status res \<in> {PARSE_BAD_REQUEST, PARSE_URI_TOO_LONG, PARSE_VERSION_NOT_SUPPORTED}"
      "\<And>t v. target_ok cfg t \<Longrightarrow> v \<in> versions \<Longrightarrow> seg m cur en \<noteq> t @ SP # v"
proof -
  have caps: "2 \<le> max_path_len cfg" "2 \<le> max_query_len cfg" "version_len cfg = 8"
    using wf_configD [OF assms(1)] by simp_all
  show thesis
  proof (rule uri_stage [OF assms(2,3) caps(1,2), of line])
    fix res line'
    assume *: "uri_parse cfg m cur en line = Some (res, line')" "status res \<in> {PARSE_BAD_REQUEST, PARSE_URI_TOO_LONG}"
      "\<And>t r. target_ok cfg t \<Longrightarrow> seg m cur en \<noteq> t @ SP # r"
    then have "request_line_rest cfg m cur en line = Some (res, line')" by (auto simp: request_line_rest_def)
    with * show thesis by (intro bad) auto
  next
    fix t r
    let ?w = "cur + length t + 1" and ?line = "line\<lparr>rl_path := target_path t, rl_query := target_query t\<rparr>"
    assume t: "target_ok cfg t" "seg m cur en = t @ SP # r"
      and up: "uri_parse cfg m cur en line = Some (\<lparr> status = PARSE_OK, error_position = Some cur, next_pos = Some ?w \<rparr>, ?line)"
    note w = seg_behind [OF t(2) assms(2,3)]
    have rest: "request_line_rest cfg m cur en line = version_parse cfg m ?w en ?line"
      unfolding request_line_rest_def up by simp
    show thesis
    proof (rule version_stage [OF w(1) assms(3) caps(3), of ?line])
      assume "seg m ?w en \<in> versions" "version_parse cfg m ?w en ?line = Some (\<lparr> status = PARSE_OK, error_position = Some ?w,
          next_pos = Some en \<rparr>, ?line\<lparr>rl_version := seg m ?w en\<rparr>)"
      with t rest show thesis unfolding w(2) by (intro ok [of t r ?w]) simp_all
    next
      fix res line'
      assume *: "version_parse cfg m ?w en ?line = Some (res, line')"
        "status res \<in> {PARSE_BAD_REQUEST, PARSE_VERSION_NOT_SUPPORTED}" "seg m ?w en \<notin> versions"
      have "seg m cur en \<noteq> t' @ SP # v" if "target_ok cfg t'" "v \<in> versions" for t' v
        using *(3) that t target_no_SP [OF that(1)] target_no_SP [OF t(1)] unfolding w(2) by (auto simp: first_split_unique)
      with *(1,2) rest show thesis by (intro bad [of res line']) auto
    qed
  qed
qed

text \<open>
  The fault-free, decided form of \<open>request_line_parse\<close> the callers use: the parse of a line of the
  grammar gives its parts, that of any other line an error status and no fault.
\<close>

lemma request_line_cases:
  assumes "wf_config cfg" "cur \<le> en" "en \<le> length m" "cur + 6 \<le> length m"
  obtains (ok) meth t v where "meth \<in> methods" "target_ok cfg t" "v \<in> versions"
      "seg m cur en = request_line_text meth t v"
      "\<exists>pos. request_line_parse cfg m cur en line = Some (\<lparr> status = PARSE_OK, error_position = Some pos,
         next_pos = Some en \<rparr>, request_line_of meth t v)"
  | (bad) res line' where "request_line_parse cfg m cur en line = Some (res, line')"
      "status res \<in> {PARSE_BAD_REQUEST, PARSE_URI_TOO_LONG, PARSE_VERSION_NOT_SUPPORTED}"
      "\<And>meth t v. meth \<in> methods \<Longrightarrow> target_ok cfg t \<Longrightarrow> v \<in> versions \<Longrightarrow>
         seg m cur en \<noteq> request_line_text meth t v"
proof (rule method_stage [OF assms(2-4), of line])
  fix res line'
  assume *: "method_parse m cur en line = Some (res, line')" "status res = PARSE_BAD_REQUEST"
    "\<And>meth r. meth \<in> methods \<Longrightarrow> seg m cur en \<noteq> http_method_show meth @ SP # r"
  then show thesis
    by (intro bad [of res line']) (auto simp: request_line_parse_def request_line_text_def)
next
  fix meth r
  let ?u = "cur + length (http_method_show meth) + 1" and ?line = "line\<lparr>rl_method := meth\<rparr>"
  assume meth: "meth \<in> methods" and s: "seg m cur en = http_method_show meth @ SP # r"
    and mp: "method_parse m cur en line = Some (\<lparr> status = PARSE_OK, error_position = Some cur, next_pos = Some ?u \<rparr>, ?line)"
  note u = seg_behind [OF s assms(2,3)]
  have rest: "request_line_parse cfg m cur en line = request_line_rest cfg m ?u en ?line"
    unfolding request_line_parse_rest mp by simp
  show thesis
  proof (rule target_version_stage [OF assms(1) u(1) assms(3), of ?line])
    fix t v pos
    assume t: "target_ok cfg t" "v \<in> versions" "seg m ?u en = t @ SP # v"
      and "request_line_rest cfg m ?u en ?line = Some (\<lparr> status = PARSE_OK, error_position = Some pos, next_pos = Some en \<rparr>,
         ?line\<lparr>rl_path := target_path t, rl_query := target_query t, rl_version := v\<rparr>)"
    then have "request_line_parse cfg m cur en line = Some (\<lparr> status = PARSE_OK, error_position = Some pos, next_pos = Some en \<rparr>,
        request_line_of meth t v)" unfolding rest by (simp add: request_line_of_def)
    with meth t s show thesis unfolding u(2) by (intro ok [of meth t v]) (auto simp: request_line_text_def)
  next
    fix res line'
    assume *: "request_line_rest cfg m ?u en ?line = Some (res, line')"
      "status res \<in> {PARSE_BAD_REQUEST, PARSE_URI_TOO_LONG, PARSE_VERSION_NOT_SUPPORTED}"
      "\<And>t v. target_ok cfg t \<Longrightarrow> v \<in> versions \<Longrightarrow> seg m ?u en \<noteq> t @ SP # v"
    have "seg m cur en \<noteq> request_line_text meth' t v" if "target_ok cfg t" "v \<in> versions" for meth' t v
      using *(3) [OF that] s method_show_no_SP unfolding u(2) by (auto simp: request_line_text_def first_split_unique)
    with *(1,2) rest show thesis by (intro bad [of res line']) auto
  qed
qed

lemma version_no_SP: "v \<in> versions \<Longrightarrow> SP \<notin> set v"
  by (auto simp: versions_def)

lemma request_line_text_inj:
  assumes "meth \<in> methods" "target_ok cfg t" "meth' \<in> methods" "target_ok cfg t'"
    "request_line_text meth t v = request_line_text meth' t' v'"
  shows "meth = meth' \<and> t = t' \<and> v = v'"
proof -
  have "http_method_show meth = http_method_show meth' \<and> t @ SP # v = t' @ SP # v'"
    using assms(5) method_show_no_SP by (simp add: request_line_text_def first_split_unique)
  moreover from this have "t = t' \<and> v = v'"
    using target_no_SP [OF assms(2)] target_no_SP [OF assms(4)] by (simp add: first_split_unique)
  ultimately show ?thesis using assms(1,3) method_of_iff by metis
qed

definition request_line_accepts :: "config \<Rightarrow> request_line \<Rightarrow> string \<Rightarrow> request_line \<Rightarrow> bool" where
  "request_line_accepts cfg line s line' \<longleftrightarrow> (\<exists>meth \<in> methods. \<exists>t. \<exists>v \<in> versions.
     target_ok cfg t \<and> s = request_line_text meth t v \<and> line' = request_line_of meth t v)"

definition request_line_errors :: "parse_status set" where
  "request_line_errors = {PARSE_BAD_REQUEST, PARSE_URI_TOO_LONG, PARSE_VERSION_NOT_SUPPORTED}"

lemma request_line_decides:
  assumes "wf_config cfg" "cur \<le> en" "en < length m" "cur + 6 \<le> length m"
  shows "\<exists>res s'. request_line_parse cfg m cur en s = Some (res, s')
       \<and> (if status res = PARSE_OK then request_line_accepts cfg s (seg m cur en) s' \<and> next_pos res = Some en
          else status res \<in> request_line_errors \<and> (\<nexists>s'. request_line_accepts cfg s (seg m cur en) s'))"
proof (rule request_line_cases [OF assms(1,2) less_imp_le [OF assms(3)] assms(4), of s])
  fix meth t v
  assume "meth \<in> methods" "target_ok cfg t" "v \<in> versions" "seg m cur en = request_line_text meth t v"
    "\<exists>pos. request_line_parse cfg m cur en s = Some (\<lparr> status = PARSE_OK, error_position = Some pos,
       next_pos = Some en \<rparr>, request_line_of meth t v)"
  then show ?thesis by (fastforce simp: request_line_accepts_def)
next
  fix res line'
  assume *: "request_line_parse cfg m cur en s = Some (res, line')"
    "status res \<in> {PARSE_BAD_REQUEST, PARSE_URI_TOO_LONG, PARSE_VERSION_NOT_SUPPORTED}"
    "\<And>meth t v. meth \<in> methods \<Longrightarrow> target_ok cfg t \<Longrightarrow> v \<in> versions \<Longrightarrow>
       seg m cur en \<noteq> request_line_text meth t v"
  then have "\<nexists>s'. request_line_accepts cfg s (seg m cur en) s'"
    by (auto simp: request_line_accepts_def)
  with *(1,2) show ?thesis
    by (intro exI [of _ res] exI [of _ line']) (auto simp: request_line_errors_def)
qed

interpretation line1: line_parser request_line_parse request_line_accepts request_line_errors 6
  by standard (rule request_line_decides)

text \<open>
  C16: \<open>request_line_parse\<close> accepts exactly the lines of the grammar.  On every line of bytes it
  returns without a fault; it answers \<open>PARSE_OK\<close> if and only if the line is one of the four
  methods, a space, a good target (a slash first, printable bytes without \<open>#\<close>, complete percent
  escapes, path and query within their arrays), a space and one of the three versions, and it then
  stores these parts.
\<close>

theorem request_line_accepts_grammar:
  assumes "wf_config cfg" "cur \<le> en" "en \<le> length m" "cur + 6 \<le> length m"
  shows "\<exists>res line'. request_line_parse cfg m cur en line = Some (res, line') \<and>
    (status res = PARSE_OK \<longleftrightarrow> (\<exists>meth \<in> methods. \<exists>t. \<exists>v \<in> versions. target_ok cfg t
       \<and> seg m cur en = request_line_text meth t v
       \<and> line' = request_line_of meth t v \<and> next_pos res = Some en)) \<and>
    (status res \<noteq> PARSE_OK \<longrightarrow> (\<forall>meth \<in> methods. \<forall>t. \<forall>v \<in> versions. target_ok cfg t \<longrightarrow>
       seg m cur en \<noteq> request_line_text meth t v))"
proof (rule request_line_cases [OF assms, of line])
  fix meth t v
  assume "meth \<in> methods" "target_ok cfg t" "v \<in> versions" "seg m cur en = request_line_text meth t v"
    "\<exists>pos. request_line_parse cfg m cur en line = Some (\<lparr> status = PARSE_OK, error_position = Some pos,
       next_pos = Some en \<rparr>, request_line_of meth t v)"
  then show ?thesis by force
next
  fix res line'
  assume "request_line_parse cfg m cur en line = Some (res, line')"
    "status res \<in> {PARSE_BAD_REQUEST, PARSE_URI_TOO_LONG, PARSE_VERSION_NOT_SUPPORTED}"
    "\<And>meth t v. meth \<in> methods \<Longrightarrow> target_ok cfg t \<Longrightarrow> v \<in> versions \<Longrightarrow>
       seg m cur en \<noteq> request_line_text meth t v"
  then show ?thesis by (intro exI [of _ res] exI [of _ line']) auto
qed

theorem request_line_accepts_grammar_witness:
  "\<exists>res line'. request_line_parse posix_config (''GET /a?b HTTP/1.1'' @ crlf) 0 17 request_line_zero
       = Some (res, line') \<and>
    (status res = PARSE_OK \<longleftrightarrow> (\<exists>meth \<in> methods. \<exists>t. \<exists>v \<in> versions. target_ok posix_config t
       \<and> seg (''GET /a?b HTTP/1.1'' @ crlf) 0 17 = request_line_text meth t v
       \<and> line' = request_line_of meth t v \<and> next_pos res = Some 17)) \<and>
    (status res \<noteq> PARSE_OK \<longrightarrow> (\<forall>meth \<in> methods. \<forall>t. \<forall>v \<in> versions. target_ok posix_config t \<longrightarrow>
       seg (''GET /a?b HTTP/1.1'' @ crlf) 0 17 \<noteq> request_line_text meth t v))"
  by (rule request_line_accepts_grammar) simp_all

text \<open>
  C40: no request whose method is HEAD, OPTIONS or PATCH is ever parsed, whatever follows: the line
  is a bad request, although the enumeration and the documentation name these methods.
\<close>

theorem unparsed_methods_are_bad_requests:
  assumes "wf_config cfg" "cur \<le> en" "en \<le> length m" "cur + 6 \<le> length m"
    and "w \<in> {''HEAD'', ''OPTIONS'', ''PATCH''}" "seg m cur en = w @ SP # rest"
  shows "\<exists>res line'. request_line_parse cfg m cur en line = Some (res, line')
     \<and> status res = PARSE_BAD_REQUEST"
proof (rule method_stage [OF assms(2-4), of line])
  fix meth r
  assume "meth \<in> methods" "seg m cur en = http_method_show meth @ SP # r"
  then have False using assms(5,6) by (auto simp: methods_def http_method_show_def)
  then show ?thesis ..
next
  fix res line'
  assume "method_parse m cur en line = Some (res, line')" "status res = PARSE_BAD_REQUEST"
  then show ?thesis by (simp add: request_line_parse_def)
qed

theorem unparsed_methods_are_bad_requests_witness:
  "\<exists>res line'. request_line_parse posix_config (''HEAD / HTTP/1.1'' @ crlf) 0 15 request_line_zero
      = Some (res, line') \<and> status res = PARSE_BAD_REQUEST"
  by (rule unparsed_methods_are_bad_requests [where w = "''HEAD''" and rest = "''/ HTTP/1.1''"])
    (simp_all add: seg_def)

end
