(* ===== verification/Request.thy ===== *)
theory Request
  imports Headers Request_Line
begin

text \<open>
  \<open>src/HttpRequest.c\<close>: a whole request head.  \<open>request_parse\<close> is called on the bytes buffered so
  far, once \<open>conn_recv_header\<close> has found the first empty line in them; the theorems relate the two:
  the parser stays inside the buffer, accepts exactly the heads of the grammar and stops where the
  framing says the head ends, so no byte of the body is read as a header and none is skipped.
\<close>

text \<open>
  \<open>req->body\<close> points into the request buffer (at an offset) or at the dechunked body.  The member
  \<open>scratch\<close> always points at the arena of the connection; the operations that use it take the arena.
\<close>

datatype body_ptr = Body_NULL | In_Request_Buffer nat | In_Dechunked

record request =
  rq_line :: request_line
  rq_headers :: "header list"
  rq_body :: body_ptr
  rq_body_len :: nat

definition request_zero :: request where
  "request_zero = \<lparr> rq_line = request_line_zero, rq_headers = [], rq_body = Body_NULL, rq_body_len = 0 \<rparr>"

subsection \<open>Parsing\<close>

lemma crlf_parse_next:
  "crlf_parse m cur en = Some res \<Longrightarrow> status res = PARSE_OK \<Longrightarrow> next_pos res = Some c \<Longrightarrow>
     c = cur + 2 \<and> c \<le> en"
  by (auto simp: crlf_parse_def parse_error_set_def Option.bind_eq_Some_conv split: if_splits)

lemma header_line_parse_next:
  "header_line_parse cfg m cur en hs = Some (res, hs') \<Longrightarrow> status res = PARSE_OK \<Longrightarrow> next_pos res = Some c \<Longrightarrow>
     cur < en \<and> c = en"
  by (auto simp: header_line_parse_def header_value_parse_def parse_error_set_def Let_def
      Option.bind_eq_Some_conv split: if_splits option.splits)

lemma crlf_find_end: "crlf_find m cur en = Some p \<Longrightarrow> cur \<le> p \<or> p = en"
proof (induction "en - cur" arbitrary: cur rule: less_induct)
  case less
  have "crlf_find m (cur + 1) en = Some p \<Longrightarrow> cur + 1 < en \<Longrightarrow> cur \<le> p \<or> p = en"
    using less.hyps [of "cur + 1"] by fastforce
  with less.prems show ?case
    by (subst (asm) crlf_find.simps) (auto simp: Option.bind_eq_Some_conv split: if_splits)
qed

text \<open>The \<open>while (1)\<close> loop: each turn takes a line off, or ends at an empty line or an error.\<close>

function request_header_loop :: "config \<Rightarrow> mem \<Rightarrow> nat \<Rightarrow> nat \<Rightarrow> header list
    \<Rightarrow> (parse_result \<times> header list) option" where
  "request_header_loop cfg m cur en hs = do {
     eol \<leftarrow> crlf_parse m cur en;
     if status eol = PARSE_OK then do {
       cur \<leftarrow> next_pos eol;
       Some (parse_result_zero\<lparr>status := PARSE_OK, next_pos := Some cur\<rparr>, hs)
     } else do {
       line_end \<leftarrow> crlf_find m cur en;
       (header_res, hs) \<leftarrow> header_line_parse cfg m cur line_end hs;
       if status header_res \<noteq> PARSE_OK then Some (header_res, hs) else do {
         nxt \<leftarrow> next_pos header_res;
         header_res \<leftarrow> crlf_parse m nxt en;
         if status header_res \<noteq> PARSE_OK then Some (header_res, hs) else do {
           cur \<leftarrow> next_pos header_res;
           request_header_loop cfg m cur en hs
         }
       }
     }
   }"
  by pat_completeness auto
termination
proof (relation "measure (\<lambda>(cfg, m, cur, en, hs). en - cur)", goal_cases)
  case (2 cfg m cur en hs eol line_end p header_res hs' nxt res c)
  then have "cur < line_end" "nxt = line_end" "c = nxt + 2" "c \<le> en"
    using header_line_parse_next crlf_parse_next by auto
  then show ?case by simp
qed simp

declare request_header_loop.simps [simp del]

definition request_parse :: "config \<Rightarrow> mem \<Rightarrow> nat \<Rightarrow> request \<Rightarrow> (parse_result \<times> request) option" where
  "request_parse cfg m len req = do {
     en \<leftarrow> ows_trim_trailing m 0 len;
     line_end \<leftarrow> crlf_find m 0 en;
     (res, line) \<leftarrow> request_line_parse cfg m 0 line_end (rq_line req);
     let req = req\<lparr>rq_line := line\<rparr>;
     if status res \<noteq> PARSE_OK then Some (res, req) else do {
       nxt \<leftarrow> next_pos res;
       res \<leftarrow> crlf_parse m nxt en;
       if status res \<noteq> PARSE_OK then Some (res, req) else do {
         cur \<leftarrow> next_pos res;
         (res, hs) \<leftarrow> request_header_loop cfg m cur en (rq_headers req);
         Some (res, req\<lparr>rq_headers := hs\<rparr>)
       }
     }
   }"

text \<open>What \<open>request_show\<close> prints, given the bytes \<open>req->body\<close> points at.\<close>

definition request_show :: "request \<Rightarrow> string option \<Rightarrow> string option" where
  "request_show req bytes =
     (let head = [LF] @ request_line_show (rq_line req) @ headers_show (rq_headers req) @ [LF] in
      if rq_body_len req > 0 \<and> rq_body req \<noteq> Body_NULL then do {
        bs \<leftarrow> bytes;
        out \<leftarrow> rd_range bs 0 (rq_body_len req);
        Some (head @ out)
      } else Some head)"

subsection \<open>The head of a request\<close>

definition field_line :: "field \<Rightarrow> string" where
  "field_line f = field_text f @ crlf"

definition request_head_text :: "http_method \<Rightarrow> string \<Rightarrow> string \<Rightarrow> field list \<Rightarrow> string" where
  "request_head_text meth target version fs =
     request_line_text meth target version @ crlf @ concat (map field_line fs) @ crlf"

definition crlf_pos :: "mem \<Rightarrow> nat \<Rightarrow> bool" where
  "crlf_pos m i \<longleftrightarrow> m ! i = CR \<and> m ! (i + 1) = LF"

text \<open>The first empty line of the buffered bytes starts at \<open>t + 2\<close>.\<close>

definition head_ends :: "mem \<Rightarrow> nat \<Rightarrow> nat \<Rightarrow> bool" where
  "head_ends m en t \<longleftrightarrow> en \<le> length m \<and> t + 4 \<le> en \<and> crlf_pos m t \<and> crlf_pos m (t + 2)
     \<and> (\<forall>k < t. \<not> (crlf_pos m k \<and> crlf_pos m (k + 2)))"

lemma take4_crlf:
  assumes "k + 4 \<le> len" "len \<le> length m"
  shows "take (length (crlf @ crlf)) (drop k (take len m)) = crlf @ crlf
    \<longleftrightarrow> crlf_pos m k \<and> crlf_pos m (k + 2)"
proof -
  have "take 4 (drop k (take len m)) = seg m k (k + 4)"
    using assms by (simp add: seg_def drop_take)
  also have "\<dots> = [m ! k, m ! (k + 1), m ! (k + 2), m ! (k + 3)]"
    using assms by (simp add: seg_Cons numeral_eq_Suc)
  finally have eq: "take 4 (drop k (take len m)) = [m ! k, m ! (k + 1), m ! (k + 2), m ! (k + 3)]" .
  have l4: "length (crlf @ crlf) = 4" by simp
  have "k + 2 + 1 = k + 3" by simp
  then show ?thesis unfolding l4 eq crlf_pos_def by (metis append.simps list.inject)
qed

lemma memmem_head_ends:
  assumes "len \<le> length m" "memmem (take len m) (crlf @ crlf) = Some t"
    and en: "ows_trim_trailing m 0 len = Some en"
  shows "head_ends m en t" "en \<le> len"
proof -
  have l4: "length (crlf @ crlf) = 4" by simp
  from memmem_Some [OF assms(2)] assms(1)
  have t: "take (length (crlf @ crlf)) (drop t (take len m)) = crlf @ crlf" "t + 4 \<le> len"
    "\<And>k. k < t \<Longrightarrow> take (length (crlf @ crlf)) (drop k (take len m)) \<noteq> crlf @ crlf"
    by auto
  have pos: "crlf_pos m t \<and> crlf_pos m (t + 2)" using t(1) take4_crlf [OF t(2) assms(1)] by simp
  have first: "\<not> (crlf_pos m k \<and> crlf_pos m (k + 2))" if "k < t" for k
    using t(3) [OF that] take4_crlf [of k len m] that t(2) assms(1) by simp
  obtain p where p: "ows_trim_trailing m 0 len = Some p" "p \<le> len"
    "\<And>i. p \<le> i \<Longrightarrow> i < len \<Longrightarrow> is_ows (m ! i)"
    using ows_trim_trailing_cases [OF _ assms(1), of 0] by blast
  have "\<not> is_ows (m ! (t + 3))" using pos by (simp add: crlf_pos_def is_ows_def numeral_3_eq_3)
  then have "t + 4 \<le> p" using p(3) [of "t + 3"] t(2) by (cases "p \<le> t + 3") auto
  with pos first p en assms(1) show "head_ends m en t" "en \<le> len" by (auto simp: head_ends_def)
qed

text \<open>A line without CR in front of a CRLF is what \<open>crlf_find\<close> cuts off.\<close>

lemma crlf_find_line:
  assumes "seg m cur q = a @ crlf @ b" "CR \<notin> set a" "q \<le> en" "en \<le> length m"
  shows "crlf_find m cur en = Some (cur + length a)" "seg m cur (cur + length a) = a"
    "seg m (cur + length a + 2) q = b" "cur + length a + 2 \<le> q"
proof -
  have "length (seg m cur q) = q - cur" using assms(3,4) by simp
  then have q: "q = cur + length a + 2 + length b" using assms(1) by simp
  have split: "seg m cur q = seg m cur (cur + length a) @ seg m (cur + length a) (cur + length a + 2)
      @ seg m (cur + length a + 2) q"
    using q seg_append [of cur "cur + length a" q m] seg_append [of "cur + length a" "cur + length a + 2" q m]
    by simp
  have len: "length (seg m cur (cur + length a)) = length a"
    "length (seg m (cur + length a) (cur + length a + 2)) = length crlf"
    using q assms(3,4) by simp_all
  have parts: "seg m cur (cur + length a) = a"
    "seg m (cur + length a) (cur + length a + 2) = crlf" "seg m (cur + length a + 2) q = b"
    using trans [OF split [symmetric] assms(1)] len by (metis append_eq_append_conv)+
  then have cr: "m ! (cur + length a) = CR" "m ! (cur + length a + 1) = LF"
    using q assms(3,4) by (simp_all add: seg_Cons numeral_2_eq_2)
  show "seg m cur (cur + length a) = a" "seg m (cur + length a + 2) q = b" using parts by simp_all
  show "cur + length a + 2 \<le> q" using q by simp
  show "crlf_find m cur en = Some (cur + length a)"
  proof (rule crlf_scan.scan_eqI)
    show "en \<le> length m" "cur \<le> cur + length a" "cur + length a \<le> en" using assms q by simp_all
    show "crlf_at m (cur + length a) en" using cr q assms(3) by (simp add: crlf_at_def)
    show "\<not> crlf_at m i en" if "cur \<le> i" "i < cur + length a" for i
    proof -
      have "m ! i \<in> set (seg m cur (cur + length a))" using that q assms(3,4) by (intro rd_seg) simp_all
      with parts(1) assms(2) show ?thesis by (auto simp: crlf_at_def)
    qed
  qed
qed

text \<open>A line that starts inside the head ends at or before the last CRLF of its lines.\<close>

lemma head_line_end:
  assumes "head_ends m en t" "cur \<le> t"
  obtains p where "crlf_find m cur en = Some p" "cur \<le> p" "p \<le> t" "crlf_pos m p"
    "seg m cur (t + 2) = seg m cur p @ crlf @ seg m (p + 2) (t + 2)" "p + 1 \<noteq> t"
proof -
  have en: "en \<le> length m" "t + 4 \<le> en" using assms(1) by (simp_all add: head_ends_def)
  obtain p where p: "crlf_find m cur en = Some p" "cur \<le> p" "p \<le> en" "p < en \<Longrightarrow> crlf_at m p en"
    "\<And>i. cur \<le> i \<Longrightarrow> i < p \<Longrightarrow> \<not> crlf_at m i en"
    using crlf_scan.scan_cases [OF _ en(1), of cur] assms(2) en(2) by (metis le_add1 le_trans)
  have t: "crlf_at m t en" using assms(1) by (simp add: head_ends_def crlf_at_def crlf_pos_def)
  have pt: "p \<le> t" using p(5) [of t] t assms(2) by (cases "p \<le> t") auto
  then have pos: "crlf_pos m p" using p(4) en(2) by (simp add: crlf_at_def crlf_pos_def)
  have "p + 1 \<noteq> t" using pos t by (auto simp: crlf_pos_def crlf_at_def)
  moreover have "seg m cur (t + 2) = seg m cur p @ seg m p (p + 2) @ seg m (p + 2) (t + 2)"
    using p(2) pt seg_append [of cur p "t + 2" m] seg_append [of p "p + 2" "t + 2" m] by simp
  moreover have "seg m p (p + 2) = crlf"
    using pos pt en by (simp add: seg_Cons crlf_pos_def numeral_2_eq_2)
  ultimately show thesis using p(1,2) pt pos by (intro that) simp_all
qed

lemma crlf_parse_eq:
  "en \<le> length m \<Longrightarrow> crlf_parse m cur en =
     Some (if cur + 2 \<le> en \<and> crlf_pos m cur then parse_result_zero\<lparr>status := PARSE_OK, next_pos := Some (cur + 2)\<rparr>
       else parse_error_set parse_result_zero PARSE_BAD_REQUEST cur)"
  by (auto simp: crlf_parse_def is_crlf_eq crlf_pos_def)

lemma tchar_no_CR: "\<not> is_tchar CR"
  by (simp add: is_tchar_def isalnum_def isdigit_def isupper_def islower_def ord_def)

lemma field_content_no_CR: "\<not> is_field_content_byte CR"
  by (simp add: is_field_content_byte_def is_ows_def is_vchar_def ord_def)

lemma field_text_no_CR: "field_ok cfg f \<Longrightarrow> CR \<notin> set (field_text f)"
  using tchar_no_CR field_content_no_CR
  by (auto simp: field_ok_def header_key_ok_def header_value_ok_def field_text_def list_all_iff)

lemma target_char_no_CR: "\<not> target_char CR"
  by (simp add: target_char_def ord_def)

lemma request_line_text_no_CR:
  "meth \<in> methods \<Longrightarrow> target_ok cfg t \<Longrightarrow> v \<in> versions \<Longrightarrow> CR \<notin> set (request_line_text meth t v)"
  using target_char_no_CR
  by (auto simp: request_line_text_def methods_def http_method_show_def target_ok_def list_all_iff versions_def)

subsection \<open>The header loop\<close>

text \<open>The fields the bytes before the empty line spell, if they do and the array has room for them.\<close>

definition spells_fields :: "config \<Rightarrow> nat \<Rightarrow> string \<Rightarrow> field list \<Rightarrow> bool" where
  "spells_fields cfg used s fs \<longleftrightarrow> list_all (field_ok cfg) fs \<and> s = concat (map field_line fs)
     \<and> used + length fs \<le> max_headers cfg"

lemma field_line_ne: "field_line f \<noteq> []"
  by (simp add: field_line_def)

text \<open>One line of the head: the fields behind it are spelt by what follows it.\<close>

lemma spells_fields_line:
  assumes "head_ends m en t" "cur \<le> t" "crlf_find m cur en = Some p"
    "seg m cur (t + 2) = seg m cur p @ crlf @ seg m (p + 2) (t + 2)"
  shows "spells_fields cfg used (seg m cur (t + 2)) fs \<longleftrightarrow> (\<exists>f fs'. fs = f # fs' \<and> field_ok cfg f
     \<and> seg m cur p = field_text f \<and> used < max_headers cfg
     \<and> spells_fields cfg (used + 1) (seg m (p + 2) (t + 2)) fs')"
proof (cases fs)
  case Nil
  have "seg m cur (t + 2) \<noteq> []" using assms(4) by auto
  with Nil show ?thesis by (simp add: spells_fields_def)
next
  case (Cons f fs')
  have en: "t + 2 \<le> en" "en \<le> length m" using assms(1) by (simp_all add: head_ends_def)
  have "seg m cur p = field_text f \<and> seg m (p + 2) (t + 2) = concat (map field_line fs')"
    if "field_ok cfg f" "seg m cur (t + 2) = field_line f @ concat (map field_line fs')"
  proof -
    have "seg m cur (t + 2) = field_text f @ crlf @ concat (map field_line fs')"
      using that(2) by (simp add: field_line_def)
    note cut = crlf_find_line [OF this field_text_no_CR [OF that(1)] en]
    from cut(1) assms(3) have "p = cur + length (field_text f)" by simp
    with cut show ?thesis by simp
  qed
  moreover have "seg m cur (t + 2) = field_line f @ concat (map field_line fs')"
    if "seg m cur p = field_text f" "seg m (p + 2) (t + 2) = concat (map field_line fs')"
    using that assms(4) by (simp add: field_line_def)
  ultimately show ?thesis unfolding Cons by (auto simp: spells_fields_def)
qed

text \<open>A line of the head that is not the last has a byte before its end, and no line end at its start.\<close>

lemma head_line_start:
  assumes "head_ends m en t" "2 \<le> cur" "crlf_pos m (cur - 2)" "cur \<le> t + 2" "cur \<noteq> t + 2"
  shows "cur \<le> t" "\<not> crlf_pos m cur"
proof -
  have en: "crlf_pos m t" "\<And>k. k < t \<Longrightarrow> crlf_pos m k \<Longrightarrow> crlf_pos m (k + 2) \<Longrightarrow> False"
    using assms(1) by (auto simp: head_ends_def)
  have "cur \<noteq> t + 1"
  proof
    assume "cur = t + 1"
    with assms(2,3) have "m ! t = LF" by (simp add: crlf_pos_def numeral_2_eq_2)
    with en(1) show False by (simp add: crlf_pos_def)
  qed
  with assms(4,5) show cur: "cur \<le> t" by simp
  then have "cur - 2 + 2 = cur" "cur - 2 < t" using assms(2) by simp_all
  with en(2) [of "cur - 2"] assms(3) show "\<not> crlf_pos m cur" by metis
qed

lemma spells_fields_Cons:
  assumes "head_ends m en t" "cur \<le> t" "crlf_find m cur en = Some p"
    "seg m cur (t + 2) = seg m cur p @ crlf @ seg m (p + 2) (t + 2)"
    "field_ok cfg f" "seg m cur p = field_text f" "n < max_headers cfg"
  shows "spells_fields cfg n (seg m cur (t + 2)) fs
    \<longleftrightarrow> (\<exists>fs'. fs = f # fs' \<and> spells_fields cfg (n + 1) (seg m (p + 2) (t + 2)) fs')"
proof -
  have "CHR '':'' \<notin> set (fst f)"
    using assms(5) is_tchar_not_colon by (auto simp: field_ok_def header_key_ok_def list_all_iff)
  then have uniq: "f' = f" if "field_ok cfg f'" "field_text f = field_text f'" for f'
    using field_text_unique [OF that(1), of "fst f" "snd f"] that(2) by (simp add: field_text_def)
  show ?thesis unfolding spells_fields_line [OF assms(1-4)] assms(6) using assms(5,7) uniq by blast
qed

lemma request_header_loop_eq:
  assumes "wf_config cfg" "head_ends m en t" "2 \<le> cur" "crlf_pos m (cur - 2)" "cur \<le> t + 2"
    "length hs \<le> max_headers cfg"
  shows "\<exists>res hs'. request_header_loop cfg m cur en hs = Some (res, hs')
    \<and> (if status res = PARSE_OK
       then next_pos res = Some (t + 4) \<and> (\<exists>fs. spells_fields cfg (length hs) (seg m cur (t + 2)) fs
              \<and> hs' = hs @ map field_header fs)
       else status res \<in> header_line_errors
              \<and> (\<nexists>fs. spells_fields cfg (length hs) (seg m cur (t + 2)) fs))"
  using assms(3-6)
proof (induction "t + 2 - cur" arbitrary: cur hs rule: less_induct)
  case less
  have en: "en \<le> length m" "t + 4 \<le> en" "crlf_pos m t" "crlf_pos m (t + 2)"
    using assms(2) by (auto simp: head_ends_def)
  show ?case
  proof (cases "cur = t + 2")
    case True
    have "request_header_loop cfg m cur en hs
        = Some (parse_result_zero\<lparr>status := PARSE_OK, next_pos := Some (t + 4)\<rparr>, hs)"
      using True en by (subst request_header_loop.simps) (simp add: crlf_parse_eq)
    moreover have "spells_fields cfg (length hs) (seg m cur (t + 2)) []"
      using True less.prems(4) by (simp add: spells_fields_def)
    ultimately show ?thesis by (auto intro!: exI [of _ "[]"])
  next
    case False
    note start = head_line_start [OF assms(2) less.prems(1-3) False]
    note cur = start(1)
    have eol: "crlf_parse m cur en = Some (parse_error_set parse_result_zero PARSE_BAD_REQUEST cur)"
      using start(2) en(1) by (simp add: crlf_parse_eq)
    obtain p where p: "crlf_find m cur en = Some p" "cur \<le> p" "p \<le> t" "crlf_pos m p"
      "seg m cur (t + 2) = seg m cur p @ crlf @ seg m (p + 2) (t + 2)" "p + 1 \<noteq> t"
      using head_line_end [OF assms(2) cur] by blast
    note line = spells_fields_line [OF assms(2) cur p(1,5)]
    have plen: "p < length m" "cur + 0 \<le> length m" using p(3) en(1,2) cur by simp_all
    show ?thesis
    proof (rule line2.parse_cases [OF assms(1) p(2) plen, of hs])
      fix res s'
      assume r: "header_line_parse cfg m cur p hs = Some (res, s')" "status res \<noteq> PARSE_OK"
        "status res \<in> header_line_errors" "\<And>s'. \<not> header_line_accepts cfg hs (seg m cur p) s'"
      have "request_header_loop cfg m cur en hs = Some (res, s')"
        by (subst request_header_loop.simps) (simp add: eol parse_error_set_def p(1) r)
      moreover have "\<not> spells_fields cfg (length hs) (seg m cur (t + 2)) fs" for fs
        using r(4) unfolding line header_line_accepts_def by blast
      ultimately show ?thesis using r(2,3) by auto
    next
      fix res hs1
      assume r: "header_line_parse cfg m cur p hs = Some (res, hs1)" "status res = PARSE_OK"
        "next_pos res = Some p" "header_line_accepts cfg hs (seg m cur p) hs1"
      from r(4) obtain f where f: "field_ok cfg f" "seg m cur p = field_text f"
        "length hs < max_headers cfg" "hs1 = hs @ [field_header f]"
        by (auto simp: header_line_accepts_def)
      have step: "request_header_loop cfg m cur en hs = request_header_loop cfg m (p + 2) en hs1"
        using p(3,4) en(1,2)
        by (subst request_header_loop.simps) (simp add: eol parse_error_set_def p(1) r crlf_parse_eq)
      have len: "length hs1 = length hs + 1" using f(4) by simp
      note spells = spells_fields_Cons [OF assms(2) cur p(1,5) f(1-3), folded len]
      have "t + 2 - (p + 2) < t + 2 - cur" "2 \<le> p + 2" "crlf_pos m (p + 2 - 2)" "p + 2 \<le> t + 2"
        "length hs1 \<le> max_headers cfg" using p(2-4) f(3,4) cur by simp_all
      from less.hyps [OF this] obtain res hs' where
        "request_header_loop cfg m (p + 2) en hs1 = Some (res, hs')"
        "if status res = PARSE_OK
         then next_pos res = Some (t + 4) \<and> (\<exists>fs. spells_fields cfg (length hs1) (seg m (p + 2) (t + 2)) fs
                \<and> hs' = hs1 @ map field_header fs)
         else status res \<in> header_line_errors
                \<and> (\<nexists>fs. spells_fields cfg (length hs1) (seg m (p + 2) (t + 2)) fs)"
        by blast
      then show ?thesis
        unfolding step spells using f(4) by (intro exI [of _ res] exI [of _ hs']) (auto split: if_splits)
    qed
  qed
qed

subsection \<open>The whole head\<close>

definition request_accepts :: "config \<Rightarrow> request \<Rightarrow> string \<Rightarrow> request \<Rightarrow> bool" where
  "request_accepts cfg req s req' \<longleftrightarrow> (\<exists>meth \<in> methods. \<exists>t. \<exists>v \<in> versions. \<exists>fs. target_ok cfg t
     \<and> list_all (field_ok cfg) fs \<and> length fs \<le> max_headers cfg \<and> s = request_head_text meth t v fs
     \<and> req' = req\<lparr>rq_line := request_line_of meth t v, rq_headers := map field_header fs\<rparr>)"

definition request_errors :: "parse_status set" where
  "request_errors = request_line_errors \<union> header_line_errors"

lemma head_text_cut:
  assumes "head_ends m en t" "meth \<in> methods" "target_ok cfg tg" "v \<in> versions"
    "seg m 0 (t + 2) @ crlf = request_head_text meth tg v fs" "crlf_find m 0 en = Some p"
  shows "seg m 0 p = request_line_text meth tg v" "seg m (p + 2) (t + 2) = concat (map field_line fs)"
proof -
  have en: "en \<le> length m" "t + 2 \<le> en" using assms(1) by (simp_all add: head_ends_def)
  have eq: "seg m 0 (t + 2) = request_line_text meth tg v @ crlf @ concat (map field_line fs)"
    using assms(5) by (simp add: request_head_text_def append_eq_append_conv del: append.simps)
  from crlf_find_line [OF eq request_line_text_no_CR [OF assms(2-4)] _ en(1)] en(2) assms(6)
  show "seg m 0 p = request_line_text meth tg v" "seg m (p + 2) (t + 2) = concat (map field_line fs)" by simp_all
qed

text \<open>A head is accepted when its first line and its fields are.\<close>

lemma request_accepts_parts:
  assumes "head_ends m en t" "crlf_find m 0 en = Some p"
    "seg m 0 (t + 2) = seg m 0 p @ crlf @ seg m (p + 2) (t + 2)"
  shows "request_accepts cfg req (take (t + 4) m) req' \<longleftrightarrow>
    (\<exists>line fs. request_line_accepts cfg (rq_line req) (seg m 0 p) line \<and> spells_fields cfg 0 (seg m (p + 2) (t + 2)) fs
      \<and> req' = req\<lparr>rq_line := line, rq_headers := map field_header fs\<rparr>)"
    (is "?L \<longleftrightarrow> ?R")
proof -
  have "take (t + 4) m = seg m 0 (t + 4)" by (simp add: seg_def)
  also have "\<dots> = seg m 0 (t + 2) @ seg m (t + 2) (t + 4)" by (rule seg_append) simp_all
  also have "seg m (t + 2) (t + 4) = crlf"
    using assms(1) by (simp add: head_ends_def crlf_pos_def seg_Cons numeral_eq_Suc)
  finally have head: "take (t + 4) m = seg m 0 (t + 2) @ crlf" .
  show ?thesis
  proof
    show ?R if ?L
      using that head_text_cut [OF assms(1) _ _ _ _ assms(2)]
      unfolding request_accepts_def request_line_accepts_def spells_fields_def head by fastforce
    show ?L if ?R
      using that unfolding request_accepts_def request_line_accepts_def spells_fields_def head assms(3) request_head_text_def
      by fastforce
  qed
qed

lemma request_parse_decides:
  assumes "wf_config cfg" "len \<le> length m" "6 \<le> length m" "memmem (take len m) (crlf @ crlf) = Some t"
    "rq_headers req = []"
  shows "\<exists>res req'. request_parse cfg m len req = Some (res, req')
    \<and> (if status res = PARSE_OK
       then next_pos res = Some (t + 4) \<and> request_accepts cfg req (take (t + 4) m) req'
       else status res \<in> request_errors \<and> (\<nexists>req'. request_accepts cfg req (take (t + 4) m) req'))"
proof -
  obtain en where trim: "ows_trim_trailing m 0 len = Some en"
    using ows_trim_trailing_cases [OF _ assms(2), of 0] by blast
  have ends: "head_ends m en t" using memmem_head_ends [OF assms(2,4) trim] by simp
  then have en: "en \<le> length m" "t + 4 \<le> en" by (simp_all add: head_ends_def)
  obtain p where p: "crlf_find m 0 en = Some p" "p \<le> t" "crlf_pos m p"
    "seg m 0 (t + 2) = seg m 0 p @ crlf @ seg m (p + 2) (t + 2)"
    using head_line_end [OF ends, of 0] by blast
  note accept = request_accepts_parts [OF ends p(1,4)]
  have plen: "p < length m" "0 + 6 \<le> length m" using p(2) en assms(3) by simp_all
  show ?thesis
  proof (rule line1.parse_cases [OF assms(1) le0 plen, of "rq_line req"])
    fix res line
    assume r: "request_line_parse cfg m 0 p (rq_line req) = Some (res, line)" "status res \<noteq> PARSE_OK"
      "status res \<in> request_line_errors" "\<And>s'. \<not> request_line_accepts cfg (rq_line req) (seg m 0 p) s'"
    then have "request_parse cfg m len req = Some (res, req\<lparr>rq_line := line\<rparr>)"
      by (simp add: request_parse_def trim p(1) Let_def)
    with r(2-4) show ?thesis unfolding accept by (auto simp: request_errors_def)
  next
    fix res line
    assume r: "request_line_parse cfg m 0 p (rq_line req) = Some (res, line)" "status res = PARSE_OK"
      "next_pos res = Some p" "request_line_accepts cfg (rq_line req) (seg m 0 p) line"
    have line: "line' = line" if "request_line_accepts cfg (rq_line req) (seg m 0 p) line'" for line'
      using that r(4) request_line_text_inj unfolding request_line_accepts_def by metis
    have "2 \<le> p + 2" "crlf_pos m (p + 2 - 2)" "p + 2 \<le> t + 2" "length ([]::header list) \<le> max_headers cfg"
      using p(2,3) by simp_all
    from request_header_loop_eq [OF assms(1) ends this] obtain res' hs where
      l: "request_header_loop cfg m (p + 2) en [] = Some (res', hs)"
        "if status res' = PARSE_OK
         then next_pos res' = Some (t + 4) \<and> (\<exists>fs. spells_fields cfg 0 (seg m (p + 2) (t + 2)) fs
                \<and> hs = map field_header fs)
         else status res' \<in> header_line_errors
                \<and> (\<nexists>fs. spells_fields cfg 0 (seg m (p + 2) (t + 2)) fs)"
      unfolding list.size append_Nil by blast
    have "request_parse cfg m len req = Some (res', req\<lparr>rq_line := line, rq_headers := hs\<rparr>)"
      using p(2,3) en assms(5) l(1) by (simp add: request_parse_def trim p(1) Let_def r crlf_parse_eq)
    moreover have "request_accepts cfg req (take (t + 4) m) (req\<lparr>rq_line := line, rq_headers := hs\<rparr>)"
      "next_pos res' = Some (t + 4)" if "status res' = PARSE_OK"
      using that l(2) r(4) unfolding accept by auto
    moreover have "\<not> request_accepts cfg req (take (t + 4) m) req'" "status res' \<in> request_errors"
      if "status res' \<noteq> PARSE_OK" for req'
      using that l(2) unfolding accept by (auto simp: request_errors_def)
    ultimately show ?thesis by auto
  qed
qed

lemma fields_inj:
  assumes "list_all (field_ok cfg) fs" "list_all (field_ok cfg) gs"
    "concat (map field_line fs) = concat (map field_line gs)"
  shows "fs = gs"
  using assms
proof (induction fs arbitrary: gs)
  case Nil
  then show ?case by (cases gs) (simp_all add: field_line_def)
next
  case (Cons f fs)
  then obtain g gs' where g: "gs = g # gs'" by (cases gs) (simp_all add: field_line_def)
  have "CR \<notin> set (field_text f)" "CR \<notin> set (field_text g)"
    using Cons.prems g by (auto dest: field_text_no_CR)
  then have "field_text f = field_text g \<and> concat (map field_line fs) = concat (map field_line gs')"
    using Cons.prems(3) g by (simp add: field_line_def [of f] field_line_def [of g] first_split_unique)
  moreover have "CHR '':'' \<notin> set (fst f)" "CHR '':'' \<notin> set (fst g)"
    using Cons.prems g is_tchar_not_colon by (auto simp: field_ok_def header_key_ok_def list_all_iff)
  ultimately show ?case
    using Cons g by (auto simp: field_text_def first_split_unique prod_eq_iff)
qed

lemma request_head_text_inj:
  assumes "meth \<in> methods" "target_ok cfg t" "v \<in> versions" "list_all (field_ok cfg) fs"
    "meth' \<in> methods" "target_ok cfg t'" "v' \<in> versions" "list_all (field_ok cfg) fs'"
    "request_head_text meth t v fs = request_head_text meth' t' v' fs'"
  shows "meth = meth' \<and> t = t' \<and> v = v' \<and> fs = fs'"
proof -
  have "request_line_text meth t v = request_line_text meth' t' v'
      \<and> concat (map field_line fs) = concat (map field_line fs')"
    using assms(9) request_line_text_no_CR [OF assms(1-3)] request_line_text_no_CR [OF assms(5-7)]
    by (simp add: request_head_text_def first_split_unique)
  then show ?thesis
    using request_line_text_inj [OF assms(1,2,5,6)] fields_inj [OF assms(4,8)] by blast
qed

text \<open>
  C12: the parser and the framing agree.  On any bytes of a buffer in which \<open>conn_recv_header\<close> found
  the first empty line at offset \<open>t\<close>, \<open>request_parse\<close> never reads outside the buffer; it accepts
  exactly the heads of the grammar (a request line, at most \<open>HTTP_MAX_HEADERS\<close> well-formed fields,
  an empty line), stores their parts, and stops at \<open>t + 4\<close>, the offset the framing takes for the
  start of the body; on any other head it reports one of the request errors.
\<close>

theorem request_parse_agrees_with_framing:
  assumes "wf_config cfg" "len \<le> length m" "6 \<le> length m" "memmem (take len m) (crlf @ crlf) = Some t"
    "rq_headers req = []"
  shows "\<exists>res req'. request_parse cfg m len req = Some (res, req')
    \<and> (if status res = PARSE_OK
       then next_pos res = Some (t + 4) \<and> request_accepts cfg req (take (t + 4) m) req'
       else status res \<in> request_errors \<and> (\<nexists>req'. request_accepts cfg req (take (t + 4) m) req'))"
  using assms by (rule request_parse_decides)

definition demo_head :: string where
  "demo_head = ''GET /a?b HTTP/1.1'' @ crlf @ ''Host: x '' @ crlf @ crlf"

theorem request_parse_agrees_with_framing_witness:
  "\<exists>res req'. request_parse posix_config (demo_head @ ''ab'') 33 request_zero = Some (res, req')
    \<and> (if status res = PARSE_OK
       then next_pos res = Some (27 + 4) \<and> request_accepts posix_config request_zero (take (27 + 4) (demo_head @ ''ab'')) req'
       else status res \<in> request_errors
         \<and> (\<nexists>req'. request_accepts posix_config request_zero (take (27 + 4) (demo_head @ ''ab'')) req'))"
  by (rule request_parse_agrees_with_framing) (simp_all add: demo_head_def request_zero_def)

subsection \<open>Writing a head and reading it back\<close>

lemma memmem_no_CR: "CR \<notin> set a \<Longrightarrow> memmem (a @ y) (crlf @ crlf) = map_option (\<lambda>p. length a + p) (memmem y (crlf @ crlf))"
proof (induction a)
  case Nil
  then show ?case by (simp add: option.map_ident)
next
  case (Cons x a)
  then show ?case by (auto simp: option.map_comp o_def numeral_eq_Suc)
qed

lemma memmem_line:
  assumes "CR \<notin> set a" "take 1 s \<noteq> [CR]"
  shows "memmem (a @ crlf @ s) (crlf @ crlf) = map_option (\<lambda>p. length a + 2 + p) (memmem s (crlf @ crlf))"
proof -
  have "memmem (crlf @ s) (crlf @ crlf) = map_option (\<lambda>p. 2 + p) (memmem s (crlf @ crlf))"
    using assms(2) by (cases s) (auto simp: option.map_comp o_def numeral_eq_Suc)
  then show ?thesis
    unfolding memmem_no_CR [OF assms(1)] by (simp add: option.map_comp o_def add.assoc)
qed

lemma memmem_fields:
  assumes "list_all (field_ok cfg) fs"
  shows "memmem (crlf @ concat (map field_line fs) @ crlf @ rest) (crlf @ crlf)
     = Some (length (concat (map field_line fs)))"
  using assms
proof (induction fs)
  case Nil
  then show ?case by simp
next
  case (Cons f fs)
  have cr: "CR \<notin> set (field_text f)" using Cons.prems by (auto dest: field_text_no_CR)
  have "field_text f \<noteq> []" by (simp add: field_text_def)
  then obtain x xs where x: "field_text f = x # xs" by (cases "field_text f") simp_all
  have "memmem (crlf @ field_text f @ y) (crlf @ crlf) = map_option (\<lambda>p. 2 + p) (memmem (field_text f @ y) (crlf @ crlf))" for y
  proof -
    have "x \<noteq> CR" using cr by (auto simp: x)
    then show ?thesis using memmem_line [of "[]" "field_text f @ y"] by (simp add: x)
  qed
  then show ?case
    using Cons memmem_no_CR [OF cr] by (simp add: field_line_def)
qed

lemma memmem_head:
  assumes "meth \<in> methods" "target_ok cfg t" "v \<in> versions" "list_all (field_ok cfg) fs"
  shows "memmem (request_head_text meth t v fs @ rest) (crlf @ crlf)
     = Some (length (request_head_text meth t v fs) - 4)"
  using memmem_no_CR [OF request_line_text_no_CR [OF assms(1-3)]] memmem_fields [OF assms(4), of rest]
  by (simp add: request_head_text_def)

text \<open>A well-formed head parses to its parts.\<close>

lemma request_head_parses:
  assumes "wf_config cfg" "meth \<in> methods" "target_ok cfg t" "v \<in> versions"
    "list_all (field_ok cfg) fs" "length fs \<le> max_headers cfg"
    "len \<le> length rest"
  shows "\<exists>e. request_parse cfg (request_head_text meth t v fs @ rest)
        (length (request_head_text meth t v fs) + len) request_zero
     = Some (\<lparr> status = PARSE_OK, error_position = e, next_pos = Some (length (request_head_text meth t v fs)) \<rparr>,
         request_zero\<lparr>rq_line := request_line_of meth t v, rq_headers := map field_header fs\<rparr>)"
proof -
  let ?h = "request_head_text meth t v fs"
  have big: "6 \<le> length ?h"
    using assms(2) by (auto simp: request_head_text_def request_line_text_def methods_def http_method_show_def)
  have mm: "memmem (take (length ?h + len) (?h @ rest)) (crlf @ crlf) = Some (length ?h - 4)"
    using memmem_head [OF assms(2-5), of "take len rest"] by simp
  have "length ?h + len \<le> length (?h @ rest)" "6 \<le> length (?h @ rest)" "rq_headers request_zero = []"
    using assms(7) big by (simp_all add: request_zero_def)
  from request_parse_decides [OF assms(1) this(1,2) mm this(3)] obtain res req' where
    r: "request_parse cfg (?h @ rest) (length ?h + len) request_zero = Some (res, req')"
    and spec: "if status res = PARSE_OK
       then next_pos res = Some (length ?h - 4 + 4)
         \<and> request_accepts cfg request_zero (take (length ?h - 4 + 4) (?h @ rest)) req'
       else status res \<in> request_errors
         \<and> (\<nexists>req'. request_accepts cfg request_zero (take (length ?h - 4 + 4) (?h @ rest)) req')"
    by blast
  have h: "length ?h - 4 + 4 = length ?h" "take (length ?h) (?h @ rest) = ?h" using big by simp_all
  have acc: "request_accepts cfg request_zero ?h
      (request_zero\<lparr>rq_line := request_line_of meth t v, rq_headers := map field_header fs\<rparr>)"
    using assms unfolding request_accepts_def by blast
  have uniq: "req' = request_zero\<lparr>rq_line := request_line_of meth t v, rq_headers := map field_header fs\<rparr>"
    if "request_accepts cfg request_zero ?h req'" for req'
  proof -
    from that obtain meth' t' v' fs' where parts: "meth' \<in> methods" "target_ok cfg t'" "v' \<in> versions"
      "list_all (field_ok cfg) fs'" "?h = request_head_text meth' t' v' fs'"
      and req': "req' = request_zero\<lparr>rq_line := request_line_of meth' t' v', rq_headers := map field_header fs'\<rparr>"
      unfolding request_accepts_def by blast
    have "meth = meth' \<and> t = t' \<and> v = v' \<and> fs = fs'"
      by (rule request_head_text_inj [OF assms(2-5) parts])
    with req' show ?thesis by simp
  qed
  note spec' = spec [unfolded h]
  have st: "status res = PARSE_OK"
  proof (rule ccontr)
    assume "status res \<noteq> PARSE_OK"
    with spec' have "\<nexists>req'. request_accepts cfg request_zero ?h req'" by (simp only: if_False) blast
    with acc show False by blast
  qed
  with spec' have "next_pos res = Some (length ?h)" "request_accepts cfg request_zero ?h req'"
    by (simp_all only: if_True)
  with st r uniq [of req'] show ?thesis by (cases res) simp
qed

text \<open>
  C17: reading back what was written.  The head of any well-formed request, followed by any bytes,
  parses to exactly its method, path, query, version and its fields with the white space around the
  values removed, and the cursor stops after the head.
\<close>

theorem request_head_roundtrip:
  assumes "wf_config cfg" "meth \<in> methods" "target_ok cfg t" "v \<in> versions"
    "list_all (field_ok cfg) fs" "length fs \<le> max_headers cfg"
    "len \<le> length rest"
  shows "\<exists>e. request_parse cfg (request_head_text meth t v fs @ rest)
        (length (request_head_text meth t v fs) + len) request_zero
     = Some (\<lparr> status = PARSE_OK, error_position = e, next_pos = Some (length (request_head_text meth t v fs)) \<rparr>,
         request_zero\<lparr>rq_line := request_line_of meth t v, rq_headers := map field_header fs\<rparr>)"
  using assms by (rule request_head_parses)

lemma demo_parts_ok:
  "target_ok esp32_config ''/a?b''" "field_ok esp32_config (''Host'', '' x '')"
  by (simp add: target_ok_def target_char_def ord_def esp32_config_def)
    (simp add: field_ok_def header_key_ok_def header_value_ok_def is_field_content_byte_def is_ows_def
      is_vchar_def is_tchar_def isalnum_def islower_def isupper_def isdigit_def ord_def esp32_config_def)

theorem request_head_roundtrip_witness:
  "\<exists>e. request_parse esp32_config (request_head_text GET ''/a?b'' ''HTTP/1.1'' [(''Host'', '' x '')] @ ''body'')
        (length (request_head_text GET ''/a?b'' ''HTTP/1.1'' [(''Host'', '' x '')]) + 4) request_zero
     = Some (\<lparr> status = PARSE_OK, error_position = e,
           next_pos = Some (length (request_head_text GET ''/a?b'' ''HTTP/1.1'' [(''Host'', '' x '')])) \<rparr>,
         request_zero\<lparr>rq_line := request_line_of GET ''/a?b'' ''HTTP/1.1'',
           rq_headers := map field_header [(''Host'', '' x '')]\<rparr>)"
proof (rule request_head_roundtrip)
  show "GET \<in> methods" "''HTTP/1.1'' \<in> versions" by (simp_all add: methods_def versions_def)
  show "length [(''Host'', '' x '')] \<le> max_headers esp32_config" by (simp add: esp32_config_def)
qed (simp_all add: demo_parts_ok)

end
