(* ===== verification/Transfer_Encoding.thy ===== *)
theory Transfer_Encoding
  imports Parse_Result
begin

text \<open>
  How a request announces its body, from \<open>src/HttpBody.c\<close>: the value of \<open>Content-Length\<close> and the
  list in \<open>Transfer-Encoding\<close>.  The two-pass decision of \<open>transfer_encoding_parse\<close> is shown equal to
  a reference on the list of coding names.
\<close>

definition content_length_parse :: "config \<Rightarrow> string \<Rightarrow> (parse_status \<times> size_t option) option" where
  "content_length_parse cfg val = uint_parse val 0 (length val) 10 (body_limit cfg)"

subsection \<open>Transfer-Encoding\<close>

datatype transfer_coding = TE_NONE | TE_CHUNKED | TE_UNSUPPORTED

text \<open>The loop compares the bytes from \<open>start\<close> with the rest of the literal, case-insensitively.\<close>

fun eq_chunked_loop :: "mem \<Rightarrow> nat \<Rightarrow> string \<Rightarrow> bool option" where
  "eq_chunked_loop m start [] = Some True"
| "eq_chunked_loop m start (x # lit) = do {
     c \<leftarrow> rd m start;
     let c = (if isupper c then char_of (ord c + 32) else c);
     if c \<noteq> x then Some False else eq_chunked_loop m (start + 1) lit
   }"

definition eq_chunked :: "mem \<Rightarrow> nat \<Rightarrow> nat \<Rightarrow> bool option" where
  "eq_chunked m start len = (if len \<noteq> 7 then Some False else eq_chunked_loop m start ''chunked'')"

text \<open>\<open>while (cur < end && *cur != ',') cur++\<close>.\<close>

function comma_find :: "mem \<Rightarrow> nat \<Rightarrow> nat \<Rightarrow> nat option" where
  "comma_find m cur en =
     (if cur < en then do {
        c \<leftarrow> rd m cur;
        if c \<noteq> CHR '','' then comma_find m (cur + 1) en else Some cur
      } else Some cur)"
  by pat_completeness auto
termination
  by (relation "measure (\<lambda>(m, cur, en). en - cur)") auto

declare comma_find.simps [simp del]

record te_state =
  chunked_found :: bool
  total_non_empty :: nat
  chunked_position :: int
  has_unsupported :: bool

text \<open>One list element, the bytes \<open>tok_start .. tok_end\<close>; \<open>None\<close> inside is the return of 400.\<close>

definition te_element :: "mem \<Rightarrow> nat \<Rightarrow> nat \<Rightarrow> te_state \<Rightarrow> te_state option option" where
  "te_element m tok_start tok_end st =
     (if tok_start < tok_end then do {
        semi \<leftarrow> memchr m tok_start (CHR '';'') (tok_end - tok_start);
        name_end \<leftarrow> (case semi of Some semi \<Rightarrow> ows_trim_trailing m tok_start semi | None \<Rightarrow> Some tok_end);
        let name_len = name_end - tok_start;
        if name_len = 0 then Some None else do {
          token \<leftarrow> is_token m tok_start name_len;
          if \<not> token then Some None else do {
            chunked \<leftarrow> eq_chunked m tok_start name_len;
            if chunked then
              if chunked_found st then Some None
              else Some (Some (st\<lparr>chunked_found := True, chunked_position := int (total_non_empty st),
                total_non_empty := total_non_empty st + 1\<rparr>))
            else Some (Some (st\<lparr>has_unsupported := True, total_non_empty := total_non_empty st + 1\<rparr>))
          }
        }
      } else Some (Some st))"

lemma comma_find_ge: "comma_find m cur en = Some p \<Longrightarrow> cur \<le> p"
proof (induction "en - cur" arbitrary: cur rule: less_induct)
  case less
  have "comma_find m (cur + 1) en = Some p \<Longrightarrow> cur < en \<Longrightarrow> cur \<le> p"
    using less.hyps [of "cur + 1"] by fastforce
  with less.prems show ?case
    by (subst (asm) comma_find.simps) (auto simp: Option.bind_eq_Some_conv split: if_splits)
qed

function te_loop :: "mem \<Rightarrow> nat \<Rightarrow> nat \<Rightarrow> te_state \<Rightarrow> te_state option option" where
  "te_loop m cur en st =
     (if cur < en then do {
        tok_start \<leftarrow> ows_skip m cur en;
        comma \<leftarrow> comma_find m cur en;
        tok_end \<leftarrow> ows_trim_trailing m tok_start comma;
        r \<leftarrow> te_element m tok_start tok_end st;
        case r of
          None \<Rightarrow> Some None
        | Some st \<Rightarrow> te_loop m (if comma < en then comma + 1 else comma) en st
      } else Some (Some st))"
  by pat_completeness auto
termination
proof (relation "measure (\<lambda>(m, cur, en, st). en - cur)", goal_cases)
  case (2 m cur en st tok_start comma tok_end r st')
  then have "cur \<le> comma" using comma_find_ge by simp
  with 2 show ?case by auto
qed simp

declare te_loop.simps [simp del]

definition transfer_encoding_parse :: "string \<Rightarrow> (parse_status \<times> transfer_coding) option" where
  "transfer_encoding_parse val = do {
     r \<leftarrow> te_loop val 0 (length val)
       \<lparr> chunked_found = False, total_non_empty = 0, chunked_position = -1, has_unsupported = False \<rparr>;
     case r of
       None \<Rightarrow> Some (PARSE_BAD_REQUEST, TE_NONE)
     | Some st \<Rightarrow>
         if total_non_empty st = 0 then Some (PARSE_BAD_REQUEST, TE_NONE)
         else if chunked_found st \<and> has_unsupported st
             \<and> chunked_position st \<noteq> int (total_non_empty st) - 1 then Some (PARSE_BAD_REQUEST, TE_NONE)
         else if has_unsupported st then Some (PARSE_NOT_IMPLEMENTED, TE_UNSUPPORTED)
         else Some (PARSE_OK, TE_CHUNKED)
   }"

lemma memchr_takeWhile:
  assumes "cur \<le> en" "en \<le> length m"
  shows "\<exists>r. memchr m cur c (en - cur) = Some r \<and>
     (case r of None \<Rightarrow> en | Some p \<Rightarrow> p) = cur + length (takeWhile (\<lambda>x. x \<noteq> c) (seg m cur en))"
proof (rule memchr_seg [OF assms, of c])
  assume a: "memchr m cur c (en - cur) = Some None" "c \<notin> set (seg m cur en)"
  then have "takeWhile (\<lambda>x. x \<noteq> c) (seg m cur en) = seg m cur en" by (auto simp: takeWhile_eq_all_conv)
  then have "length (takeWhile (\<lambda>x. x \<noteq> c) (seg m cur en)) = en - cur" using assms by (simp only: length_seg)
  with a(1) assms(1) show ?thesis by simp
next
  fix p
  assume p: "memchr m cur c (en - cur) = Some (Some p)" "cur \<le> p" "p < en" "m ! p = c"
    "c \<notin> set (seg m cur p)" "seg m cur en = seg m cur p @ c # seg m (Suc p) en"
  then have "takeWhile (\<lambda>x. x \<noteq> c) (seg m cur en) = seg m cur p"
    by (auto simp: takeWhile_append takeWhile_eq_all_conv)
  with p assms show ?thesis by simp
qed

subsection \<open>What a list of transfer codings means\<close>

function split_commas :: "string \<Rightarrow> string list" where
  "split_commas s = takeWhile (\<lambda>c. c \<noteq> CHR '','') s #
     (case dropWhile (\<lambda>c. c \<noteq> CHR '','') s of [] \<Rightarrow> [] | _ # r \<Rightarrow> split_commas r)"
  by pat_completeness auto
termination
proof (relation "measure length", goal_cases)
  case (2 s x r)
  then have "length (x # r) \<le> length s" by (metis length_dropWhile_le)
  then show ?case by simp
qed simp

declare split_commas.simps [simp del]

text \<open>The name of a list element: what stands before its parameters.\<close>

definition coding_name :: "string \<Rightarrow> string" where
  "coding_name e = rev (dropWhile is_ows (rev (takeWhile (\<lambda>c. c \<noteq> CHR '';'') e)))"

definition codings :: "string \<Rightarrow> string list" where
  "codings s = map coding_name (filter (\<lambda>e. e \<noteq> []) (map ows_strip (split_commas s)))"

definition is_chunked :: "string \<Rightarrow> bool" where
  "is_chunked n \<longleftrightarrow> map tolower n = ''chunked''"

definition te_reference :: "string \<Rightarrow> parse_status \<times> transfer_coding" where
  "te_reference s = (let ns = codings s in
     if ns = [] \<or> \<not> list_all (\<lambda>n. n \<noteq> [] \<and> list_all is_tchar n) ns
        \<or> 1 < length (filter is_chunked ns)
        \<or> (list_ex is_chunked ns \<and> list_ex (\<lambda>n. \<not> is_chunked n) ns \<and> \<not> is_chunked (last ns))
     then (PARSE_BAD_REQUEST, TE_NONE)
     else if list_ex (\<lambda>n. \<not> is_chunked n) ns then (PARSE_NOT_IMPLEMENTED, TE_UNSUPPORTED)
     else (PARSE_OK, TE_CHUNKED))"

fun te_fold :: "te_state \<Rightarrow> string list \<Rightarrow> te_state option" where
  "te_fold st [] = Some st"
| "te_fold st (n # ns) =
     (if n = [] \<or> \<not> list_all is_tchar n then None
      else if is_chunked n then
        if chunked_found st then None
        else te_fold (st\<lparr>chunked_found := True, chunked_position := int (total_non_empty st),
          total_non_empty := total_non_empty st + 1\<rparr>) ns
      else te_fold (st\<lparr>has_unsupported := True, total_non_empty := total_non_empty st + 1\<rparr>) ns)"

lemma eq_chunked_loop_eq:
  "start + length lit \<le> length m \<Longrightarrow>
     eq_chunked_loop m start lit = Some (map tolower (take (length lit) (drop start m)) = lit)"
proof (induction lit arbitrary: start)
  case Nil
  then show ?case by simp
next
  case (Cons x lit)
  then have "drop start m = m ! start # drop (Suc start) m" by (simp add: Cons_nth_drop_Suc)
  with Cons show ?case by (simp add: fault_simps tolower_def [symmetric])
qed

lemma eq_chunked_eq:
  assumes "start + len \<le> length m"
  shows "eq_chunked m start len = Some (is_chunked (take len (drop start m)))"
proof (cases "len = 7")
  case True
  then have "start + length ''chunked'' \<le> length m" using assms by simp
  note loop = eq_chunked_loop_eq [OF this]
  have "length ''chunked'' = 7" by simp
  with True show ?thesis unfolding eq_chunked_def loop is_chunked_def by (simp only: simp_thms if_False)
next
  case False
  have "length (map tolower (take len (drop start m))) = len" using assms by simp
  with False have "\<not> is_chunked (take len (drop start m))" unfolding is_chunked_def by force
  with False show ?thesis by (simp add: eq_chunked_def)
qed

lemma comma_find_eq:
  assumes "cur \<le> en" "en \<le> length m"
  shows "comma_find m cur en = Some (cur + length (takeWhile (\<lambda>c. c \<noteq> CHR '','') (seg m cur en)))"
  using assms(1)
proof (induction "en - cur" arbitrary: cur rule: less_induct)
  case less
  show ?case
  proof (cases "cur < en")
    case False
    then show ?thesis by (subst comma_find.simps) simp
  next
    case True
    then have "en - Suc cur < en - cur" "Suc cur \<le> en" by simp_all
    with less.hyps [OF this] True assms(2) show ?thesis
      by (subst comma_find.simps) (simp add: fault_simps seg_Cons)
  qed
qed

lemma te_element_eq:
  assumes "a \<le> b" "b \<le> length m" "rev (dropWhile is_ows (rev (seg m a b))) = seg m a b"
  shows "te_element m a b st = Some (if seg m a b = [] then Some st else te_fold st [coding_name (seg m a b)])"
proof (cases "a < b")
  case False
  with assms(1) show ?thesis by (simp add: te_element_def)
next
  case True
  let ?e = "seg m a b" and ?h = "takeWhile (\<lambda>c. c \<noteq> CHR '';'') (seg m a b)"
  have len: "length ?e = b - a" using assms by simp
  have ne: "?e \<noteq> []" using True len by (metis length_0_conv zero_less_diff less_irrefl)
  obtain semi where semi: "memchr m a (CHR '';'') (b - a) = Some semi"
    "(case semi of None \<Rightarrow> b | Some p \<Rightarrow> p) = a + length ?h"
    using memchr_takeWhile [OF assms(1,2), of "CHR '';''"] by blast
  note hb = seg_span(1) [OF assms(1,2), of "\<lambda>c. c \<noteq> CHR '';''"] and h = seg_span(2) [OF assms(1,2), of "\<lambda>c. c \<noteq> CHR '';''"]
  obtain q where q: "(case semi of Some semi \<Rightarrow> ows_trim_trailing m a semi | None \<Rightarrow> Some b) = Some q"
    "a \<le> q" "q \<le> b" "seg m a q = coding_name ?e"
  proof (cases semi)
    case None
    with semi(2) h have "coding_name ?e = ?e" using assms(3) by (simp add: coding_name_def)
    with None assms(1) that show thesis by simp
  next
    case (Some p)
    with semi(2) have p: "p = a + length ?h" by simp
    then have "a \<le> p" "p \<le> length m" using hb assms(2) by simp_all
    then obtain q where "ows_trim_trailing m a p = Some q" "a \<le> q" "q \<le> p"
      "seg m a q = rev (dropWhile is_ows (rev (seg m a p)))" using ows_trim_seg by blast
    with Some h p hb that show thesis by (simp add: coding_name_def)
  qed
  have nl: "length (coding_name ?e) = q - a" using q(2-4) assms(2) by (metis length_seg order_trans)
  then have z: "q \<le> a \<longleftrightarrow> coding_name ?e = []" by (metis length_0_conv diff_is_0_eq)
  have nm: "take (q - a) (drop a m) = coding_name ?e" using q(4) by (simp add: seg_def)
  have room: "a + (q - a) \<le> length m" using q(2,3) assms(2) by simp
  have "te_element m a b st =
    (if q - a = 0 then Some None else do {
       token \<leftarrow> is_token m a (q - a);
       if \<not> token then Some None else do {
         chunked \<leftarrow> eq_chunked m a (q - a);
         if chunked then
           if chunked_found st then Some None
           else Some (Some (st\<lparr>chunked_found := True, chunked_position := int (total_non_empty st),
             total_non_empty := total_non_empty st + 1\<rparr>))
         else Some (Some (st\<lparr>has_unsupported := True, total_non_empty := total_non_empty st + 1\<rparr>))
       }
     })"
    using True semi(1) q(1) by (simp add: te_element_def Let_def)
  also have "\<dots> = Some (te_fold st [coding_name ?e])"
    by (simp add: is_token_eq [OF room] eq_chunked_eq [OF room] nm z)
  finally show ?thesis using ne by simp
qed

lemma te_fold_append: "te_fold st (ns @ ms) = (case te_fold st ns of None \<Rightarrow> None | Some st' \<Rightarrow> te_fold st' ms)"
  by (induction st ns rule: te_fold.induct) auto

text \<open>The first element of the rest of a list, and what follows its comma.\<close>

text \<open>The next list element: up to the comma at \<open>k\<close>, or the end.\<close>

lemma comma_splits:
  assumes "cur < en" "en \<le> length m"
  defines "k \<equiv> cur + length (takeWhile (\<lambda>c. c \<noteq> CHR '','') (seg m cur en))"
  shows "comma_find m cur en = Some k" "cur \<le> k" "k \<le> en" "seg m cur k = takeWhile (\<lambda>c. c \<noteq> CHR '','') (seg m cur en)"
    "k < en \<Longrightarrow> m ! k = CHR '',''"
    "split_commas (seg m cur en) = seg m cur k # (if k < en then split_commas (seg m (k + 1) en) else [])"
proof -
  let ?c = "\<lambda>c. c \<noteq> CHR '',''"
  show "comma_find m cur en = Some k" using comma_find_eq assms by (simp add: k_def)
  show "cur \<le> k" by (simp add: k_def)
  note span = seg_span [OF less_imp_le [OF assms(1)] assms(2), of ?c, folded k_def]
  show "k \<le> en" "seg m cur k = takeWhile ?c (seg m cur en)" by (rule span)+
  have d: "dropWhile ?c (seg m cur en) = m ! k # seg m (Suc k) en" if "k < en"
    using span(3) that assms(2) by (simp add: seg_Cons)
  show "m ! k = CHR '',''" if "k < en"
    using d [OF that] hd_dropWhile [of ?c "seg m cur en"] by (simp only: list.sel(1) list.simps(3) simp_thms)
  show "split_commas (seg m cur en) = seg m cur k # (if k < en then split_commas (seg m (k + 1) en) else [])"
  proof (cases "k < en")
    case True
    with d show ?thesis by (subst split_commas.simps) (simp add: span(2))
  next
    case False
    then have dw: "dropWhile ?c (seg m cur en) = []" using span(3) by simp
    from False show ?thesis by (subst split_commas.simps) (simp only: dw span(2) list.case if_False)
  qed
qed

lemma te_next_element:
  assumes "cur < en" "en \<le> length m"
  obtains a k b where "ows_skip m cur en = Some a" "comma_find m cur en = Some k"
    "ows_trim_trailing m a k = Some b" "a \<le> b" "b \<le> en" "cur \<le> k" "k \<le> en"
    "seg m a b = ows_strip (takeWhile (\<lambda>c. c \<noteq> CHR '','') (seg m cur en))"
    "split_commas (seg m cur en) = takeWhile (\<lambda>c. c \<noteq> CHR '','') (seg m cur en) #
       (if k < en then split_commas (seg m (k + 1) en) else [])"
proof -
  define k where "k = cur + length (takeWhile (\<lambda>c. c \<noteq> CHR '','') (seg m cur en))"
  note comma = comma_splits [OF assms, folded k_def]
  have kl: "k \<le> length m" using comma(3) assms(2) by simp
  obtain a where a: "ows_skip m cur en = Some a" "cur \<le> a" "a \<le> en" "a < en \<Longrightarrow> non_ows_at m a en"
    "\<And>i. cur \<le> i \<Longrightarrow> i < a \<Longrightarrow> \<not> non_ows_at m i en"
    using ows_scan.scan_cases [OF less_imp_le [OF assms(1)] assms(2)] by blast
  have ak: "a \<le> k"
  proof (rule ccontr)
    assume "\<not> a \<le> k"
    then have "k < a" by simp
    moreover from this a(3) have "k < en" by simp
    ultimately have "is_ows (m ! k)" "m ! k = CHR '',''"
      using a(5) [of k] comma(2,5) by (auto simp: non_ows_at_def)
    then show False by (simp add: is_ows_def)
  qed
  have sk: "seg m a k = dropWhile is_ows (seg m cur k)"
  proof (rule seg_all_prefix(1) [symmetric])
    show "cur \<le> a" "a \<le> k" "k \<le> length m" using a(2) ak kl by simp_all
    show "is_ows (m ! i)" if "cur \<le> i" "i < a" for i using a(5) [OF that] by (simp add: non_ows_at_def)
    show "\<not> is_ows (m ! a)" if "a < k" using a(4) that comma(3) by (simp add: non_ows_at_def)
  qed
  obtain b where b: "ows_trim_trailing m a k = Some b" "a \<le> b" "b \<le> k"
    "seg m a b = rev (dropWhile is_ows (rev (seg m a k)))" using ows_trim_seg [OF ak kl] by blast
  then have "seg m a b = ows_strip (seg m cur k)" by (simp add: sk ows_strip_def)
  with a(1) b(1,2,3) comma show thesis by (intro that [of a k b]) simp_all
qed

lemma codings_Cons:
  "codings s = (let e = ows_strip (takeWhile (\<lambda>c. c \<noteq> CHR '','') s) in
     if e = [] then [] else [coding_name e]) @
     map coding_name (filter (\<lambda>e. e \<noteq> []) (map ows_strip (tl (split_commas s))))"
  by (subst (1) codings_def, subst (1) split_commas.simps) (simp add: Let_def split_commas.simps [of s])

lemma codings_Nil: "codings [] = []"
  by (simp add: codings_def split_commas.simps [of "[]"] ows_strip_def)

lemma ows_strip_rstrip: "rev (dropWhile is_ows (rev (ows_strip v))) = ows_strip v"
  by (simp add: ows_strip_def)

lemma te_loop_eq:
  assumes "cur \<le> en" "en \<le> length m"
  shows "te_loop m cur en st = Some (te_fold st (if cur < en then codings (seg m cur en) else []))"
  using assms(1)
proof (induction "en - cur" arbitrary: cur st rule: less_induct)
  case less
  show ?case
  proof (cases "cur < en")
    case False
    then show ?thesis by (subst te_loop.simps) simp
  next
    case True
    obtain a k b where n: "ows_skip m cur en = Some a" "comma_find m cur en = Some k"
      "ows_trim_trailing m a k = Some b" "a \<le> b" "b \<le> en" "cur \<le> k" "k \<le> en"
      "seg m a b = ows_strip (takeWhile (\<lambda>c. c \<noteq> CHR '','') (seg m cur en))"
      "split_commas (seg m cur en) = takeWhile (\<lambda>c. c \<noteq> CHR '','') (seg m cur en) #
         (if k < en then split_commas (seg m (k + 1) en) else [])"
      using te_next_element [OF True assms(2)] by blast
    let ?e = "ows_strip (takeWhile (\<lambda>c. c \<noteq> CHR '','') (seg m cur en))"
    define rest where "rest = (if k < en then codings (seg m (k + 1) en) else [])"
    have cod: "codings (seg m cur en) = (if ?e = [] then [] else [coding_name ?e]) @ rest"
      by (subst codings_Cons) (simp add: n(9) Let_def rest_def codings_def)
    have bl: "b \<le> length m" using n(5) assms(2) by simp
    have elem: "te_element m a b st = Some (if ?e = [] then Some st else te_fold st [coding_name ?e])"
      using te_element_eq [OF n(4) bl, of st] by (simp only: n(8) ows_strip_rstrip)
    have cont: "te_loop m (if k < en then k + 1 else k) en st' = Some (te_fold st' rest)" for st'
    proof -
      have "te_loop m c en st' = Some (te_fold st' (if c < en then codings (seg m c en) else []))"
        if "c = (if k < en then k + 1 else k)" for c
      proof (cases "k < en")
        case True
        with that n(6) \<open>cur < en\<close> show ?thesis by (intro less.hyps) simp_all
      next
        case False
        then have "\<not> c < en" using that n(7) by simp
        then show ?thesis by (subst te_loop.simps) simp
      qed
      note this [OF refl]
      moreover have "(if (if k < en then k + 1 else k) < en then codings (seg m (if k < en then k + 1 else k) en) else []) = rest"
        by (cases "k + 1 = en") (auto simp: rest_def codings_Nil)
      ultimately show ?thesis by simp
    qed
    have "te_loop m cur en st = (case (if ?e = [] then Some st else te_fold st [coding_name ?e]) of
        None \<Rightarrow> Some None | Some st' \<Rightarrow> Some (te_fold st' rest))"
      using True n(1-3) elem cont by (subst te_loop.simps) (simp split: option.splits)
    also have "\<dots> = Some (te_fold st (codings (seg m cur en)))"
      unfolding cod te_fold_append by (simp split: option.splits)
    finally show ?thesis using True by simp
  qed
qed

text \<open>The state after a list of names, in closed form.\<close>

definition te_start :: te_state where
  "te_start = \<lparr> chunked_found = False, total_non_empty = 0, chunked_position = -1, has_unsupported = False \<rparr>"

definition te_summary :: "string list \<Rightarrow> te_state" where
  "te_summary ns = \<lparr> chunked_found = list_ex is_chunked ns, total_non_empty = length ns,
     chunked_position = (if list_ex is_chunked ns then int (length (takeWhile (\<lambda>n. \<not> is_chunked n) ns)) else -1),
     has_unsupported = list_ex (\<lambda>n. \<not> is_chunked n) ns \<rparr>"

definition names_ok :: "string list \<Rightarrow> bool" where
  "names_ok ns \<longleftrightarrow> list_all (\<lambda>n. n \<noteq> [] \<and> list_all is_tchar n) ns \<and> length (filter is_chunked ns) \<le> 1"

lemma filter_is_chunked_Nil: "filter is_chunked ns = [] \<longleftrightarrow> \<not> list_ex is_chunked ns"
  by (auto simp: filter_empty_conv list_ex_iff)

lemma takeWhile_chunked_append:
  "takeWhile (\<lambda>n. \<not> is_chunked n) (ns @ [n]) =
     (if list_ex is_chunked ns then takeWhile (\<lambda>n. \<not> is_chunked n) ns
      else if is_chunked n then ns else ns @ [n])"
  by (induction ns) auto

lemma te_fold_summary: "te_fold te_start ns = (if names_ok ns then Some (te_summary ns) else None)"
proof (induction ns rule: rev_induct)
  case Nil
  then show ?case by (simp add: te_start_def te_summary_def names_ok_def)
next
  case (snoc n ns)
  show ?case
  proof (cases "names_ok ns")
    case False
    with snoc show ?thesis by (auto simp: te_fold_append names_ok_def)
  next
    case True
    have count: "length (filter is_chunked ns) = 0 \<longleftrightarrow> \<not> list_ex is_chunked ns"
      using filter_is_chunked_Nil by simp
    have step: "te_fold te_start (ns @ [n]) = te_fold (te_summary ns) [n]"
      using snoc True by (simp add: te_fold_append)
    show ?thesis
    proof (cases "n \<noteq> [] \<and> list_all is_tchar n")
      case bad: False
      then show ?thesis unfolding step by (auto simp: names_ok_def)
    next
      case good: True
      show ?thesis
      proof (cases "is_chunked n")
        case chunked: True
        show ?thesis
        proof (cases "list_ex is_chunked ns")
          case True
          then have "\<not> names_ok (ns @ [n])" using count chunked by (auto simp: names_ok_def)
          with True good chunked show ?thesis unfolding step by (simp add: te_summary_def)
        next
          case False
          then have "names_ok (ns @ [n])"
            using count \<open>names_ok ns\<close> good chunked by (simp add: names_ok_def)
          with False good chunked show ?thesis unfolding step
            by (simp add: te_summary_def takeWhile_chunked_append)
        qed
      next
        case False
        then have "names_ok (ns @ [n])" using \<open>names_ok ns\<close> good by (simp add: names_ok_def)
        with False good show ?thesis unfolding step
          by (simp add: te_summary_def takeWhile_chunked_append)
      qed
    qed
  qed
qed

lemma chunked_last:
  assumes "names_ok ns" "list_ex is_chunked ns"
  shows "int (length (takeWhile (\<lambda>n. \<not> is_chunked n) ns)) = int (length ns) - 1 \<longleftrightarrow> is_chunked (last ns)"
proof -
  let ?a = "takeWhile (\<lambda>n. \<not> is_chunked n) ns" and ?d = "dropWhile (\<lambda>n. \<not> is_chunked n) ns"
  have "?d \<noteq> []" using assms(2) by (auto simp: list_ex_iff)
  then obtain c b where d: "?d = c # b" by (cases ?d) simp_all
  have c: "is_chunked c" using d by (metis hd_dropWhile list.sel(1) list.distinct(1))
  have ns: "ns = ?a @ c # b" using d by (metis takeWhile_dropWhile_id)
  have "length (filter is_chunked (?a @ c # b)) \<le> 1" using assms(1) ns unfolding names_ok_def by argo
  then have b: "filter is_chunked b = []" using c by simp
  have "length ns = length ?a + 1 + length b" using ns by (metis Suc_eq_plus1 add_Suc_shift length_Cons length_append add.assoc plus_1_eq_Suc)
  then have "int (length ?a) = int (length ns) - 1 \<longleftrightarrow> b = []" by auto
  also have "\<dots> \<longleftrightarrow> is_chunked (last ns)"
  proof (cases "b = []")
    case True
    then have "last ns = c" using ns by (metis last_snoc)
    with True c show ?thesis by simp
  next
    case False
    then have "last ns = last b" "last b \<in> set b" using ns by (metis last_appendR last_ConsR list.distinct(1), simp)
    with False b show ?thesis by (auto simp: filter_empty_conv)
  qed
  finally show ?thesis .
qed

lemma transfer_encoding_parse_eq: "transfer_encoding_parse val = Some (te_reference val)"
proof -
  have cods: "(if 0 < length val then codings (seg val 0 (length val)) else []) = codings val"
    by (cases "val = []") (simp_all add: codings_Nil)
  have loop: "te_loop val 0 (length val) te_start
      = Some (if names_ok (codings val) then Some (te_summary (codings val)) else None)"
    using te_loop_eq [of 0 "length val" val te_start] by (simp only: cods te_fold_summary le0 order.refl simp_thms)
  show ?thesis
  proof (cases "names_ok (codings val)")
    case False
    then show ?thesis
      unfolding transfer_encoding_parse_def te_start_def [symmetric] loop te_reference_def
      by (auto simp: names_ok_def Let_def)
  next
    case True
    have "chunked_position (te_summary ns) \<noteq> int (total_non_empty (te_summary ns)) - 1
        \<longleftrightarrow> \<not> is_chunked (last ns)" if "names_ok ns" "list_ex is_chunked ns" for ns
      using chunked_last [OF that] that by (simp add: te_summary_def)
    with True show ?thesis
      unfolding transfer_encoding_parse_def te_start_def [symmetric] loop te_reference_def
      by (auto simp: names_ok_def Let_def te_summary_def)
  qed
qed

lemma chunked_is_token: "is_chunked n \<Longrightarrow> n \<noteq> [] \<and> list_all is_tchar n"
proof -
  assume "is_chunked n"
  then have "map tolower n = ''chunked''" by (simp add: is_chunked_def)
  moreover have "is_tchar c" if "is_tchar (tolower c)" for c
    using that by (cases "isupper c") (simp_all add: tolower_def is_tchar_def isalnum_def)
  moreover have "list_all is_tchar ''chunked''"
    by (simp add: is_tchar_def isalnum_def islower_def isupper_def isdigit_def ord_def)
  ultimately show ?thesis by (auto simp: list_all_iff)
qed

lemma only_chunked:
  "\<not> (ns = [] \<or> \<not> list_all (\<lambda>n. n \<noteq> [] \<and> list_all is_tchar n) ns \<or> 1 < length (filter is_chunked ns)
      \<or> (list_ex is_chunked ns \<and> list_ex (\<lambda>n. \<not> is_chunked n) ns \<and> \<not> is_chunked (last ns)))
    \<and> \<not> list_ex (\<lambda>n. \<not> is_chunked n) ns \<longleftrightarrow> (\<exists>n. ns = [n] \<and> is_chunked n)"
proof (cases ns)
  case (Cons n ms)
  then show ?thesis using chunked_is_token [of n]
    by (cases ms) (auto simp: list_ex_iff filter_id_conv)
qed simp

lemma stacked_codings:
  "\<not> (ns = [] \<or> \<not> list_all (\<lambda>n. n \<noteq> [] \<and> list_all is_tchar n) ns \<or> 1 < length (filter is_chunked ns)
      \<or> (list_ex is_chunked ns \<and> list_ex (\<lambda>n. \<not> is_chunked n) ns \<and> \<not> is_chunked (last ns)))
    \<and> list_ex (\<lambda>n. \<not> is_chunked n) ns
  \<longleftrightarrow> ns \<noteq> [] \<and> list_all (\<lambda>n. n \<noteq> [] \<and> list_all is_tchar n) ns
    \<and> list_ex (\<lambda>n. \<not> is_chunked n) ns \<and> \<not> list_ex is_chunked (butlast ns)"
proof (cases ns rule: rev_cases)
  case (snoc ms n)
  have "\<not> list_ex is_chunked ms \<Longrightarrow> length (filter is_chunked ms) = 0"
    "list_ex is_chunked ms \<Longrightarrow> 0 < length (filter is_chunked ms)"
    by (simp_all add: filter_empty_conv list_ex_iff)
  then show ?thesis using snoc by auto
qed simp

text \<open>
  Two lists the sender may use: \<open>chunked\<close> last behind another coding, and another coding alone.  The comment of
  \<open>TE_CHUNKED\<close> names the first, and a framing that does not end in \<open>chunked\<close> is none; both are "not implemented".
\<close>

lemma stacked_chunked_unsupported:
  "transfer_encoding_parse ''gzip, chunked'' = Some (PARSE_NOT_IMPLEMENTED, TE_UNSUPPORTED)"
  "transfer_encoding_parse ''gzip'' = Some (PARSE_NOT_IMPLEMENTED, TE_UNSUPPORTED)"
  by code_simp+

text \<open>
  C19: which status and which coding \<open>transfer_encoding_parse\<close> gives each list of codings.  On
  every header value it reads only the value, and it accepts exactly the lists whose only coding is
  one \<open>chunked\<close>; a list of tokens with other codings, in which \<open>chunked\<close> is absent or stands once and
  last, is \<open>PARSE_NOT_IMPLEMENTED\<close> with \<open>TE_UNSUPPORTED\<close>, so \<open>gzip, chunked\<close> and \<open>gzip\<close> alone both are; everything
  else (no coding, a name that is no token, a second \<open>chunked\<close>, a \<open>chunked\<close> that is not last) is a bad request.
\<close>

theorem transfer_encoding_parse_classifies:
  "\<exists>st c. transfer_encoding_parse val = Some (st, c)
    \<and> (st = PARSE_OK \<longleftrightarrow> (\<exists>n. codings val = [n] \<and> is_chunked n)) \<and> (c = TE_CHUNKED \<longleftrightarrow> st = PARSE_OK)
    \<and> (st = PARSE_NOT_IMPLEMENTED \<longleftrightarrow> codings val \<noteq> [] \<and> list_all (\<lambda>n. n \<noteq> [] \<and> list_all is_tchar n) (codings val)
        \<and> list_ex (\<lambda>n. \<not> is_chunked n) (codings val) \<and> \<not> list_ex is_chunked (butlast (codings val)))
    \<and> (c = TE_UNSUPPORTED \<longleftrightarrow> st = PARSE_NOT_IMPLEMENTED)
    \<and> (st = PARSE_OK \<or> st = PARSE_NOT_IMPLEMENTED \<or> st = PARSE_BAD_REQUEST)"
proof -
  let ?ns = "codings val"
  let ?bad = "?ns = [] \<or> \<not> list_all (\<lambda>n. n \<noteq> [] \<and> list_all is_tchar n) ?ns \<or> 1 < length (filter is_chunked ?ns)
        \<or> (list_ex is_chunked ?ns \<and> list_ex (\<lambda>n. \<not> is_chunked n) ?ns \<and> \<not> is_chunked (last ?ns))"
  let ?other = "list_ex (\<lambda>n. \<not> is_chunked n) ?ns"
  have cases: "transfer_encoding_parse val = Some (if ?bad then (PARSE_BAD_REQUEST, TE_NONE)
      else if ?other then (PARSE_NOT_IMPLEMENTED, TE_UNSUPPORTED) else (PARSE_OK, TE_CHUNKED))"
    by (simp only: transfer_encoding_parse_eq te_reference_def Let_def)
  have chunked: "\<not> ?bad \<and> \<not> ?other \<longleftrightarrow> (\<exists>n. ?ns = [n] \<and> is_chunked n)" by (rule only_chunked)
  have stacked: "\<not> ?bad \<and> ?other \<longleftrightarrow> ?ns \<noteq> [] \<and> list_all (\<lambda>n. n \<noteq> [] \<and> list_all is_tchar n) ?ns
        \<and> ?other \<and> \<not> list_ex is_chunked (butlast ?ns)" by (rule stacked_codings)
  show ?thesis
    unfolding cases chunked [symmetric] stacked [symmetric] by simp
qed

end
