(* ===== verification/Chunked.thy ===== *)
theory Chunked
  imports Transfer_Encoding
begin

text \<open>
  The resumable decoder of chunked bodies, \<open>chunk_advance\<close> of \<open>src/HttpBody.c\<close>.  One call is related
  to a step on the bytes in front of the cursor; \<open>chunk_run\<close> repeats the step until it waits, rejects
  or finishes.  \<open>resumable\<close> is the contract that makes the cutting of the input irrelevant;
  \<open>chunk_run_Finished_iff\<close> gives the grammar the decoder accepts.
\<close>

subsection \<open>The chunk decoder\<close>

datatype chunked_phase =
  CHUNK_SIZE | CHUNK_DATA | CHUNK_TRAIL_CR | CHUNK_TRAIL_LF | CHUNK_TRAILER | CHUNK_DONE

record chunk_decoder =
  cd_phase :: chunked_phase
  cd_remaining :: nat

definition chunk_decoder_zero :: chunk_decoder where
  "chunk_decoder_zero = \<lparr> cd_phase = CHUNK_SIZE, cd_remaining = 0 \<rparr>"

record chunk_result =
  cr_parse :: parse_result
  cr_written :: nat

definition chunk_fail :: "parse_status \<Rightarrow> nat \<Rightarrow> chunk_result" where
  "chunk_fail st pos = \<lparr> cr_parse = parse_error_set parse_result_zero st pos, cr_written = 0 \<rparr>"

definition chunk_ok :: "parse_status \<Rightarrow> nat \<Rightarrow> nat \<Rightarrow> chunk_result" where
  "chunk_ok st nxt written =
     \<lparr> cr_parse = parse_result_zero\<lparr>status := st, next_pos := Some nxt\<rparr>, cr_written = written \<rparr>"

text \<open>
  \<open>chunk_advance\<close> reads the \<open>in_len\<close> bytes of \<open>m\<close> at \<open>cur\<close> and writes at offset \<open>at\<close> of \<open>out\<close>, where
  \<open>out_avail\<close> bytes may be written.
\<close>

definition chunk_advance :: "config \<Rightarrow> chunk_decoder \<Rightarrow> mem \<Rightarrow> nat \<Rightarrow> nat \<Rightarrow> mem \<Rightarrow> nat \<Rightarrow> nat
    \<Rightarrow> (chunk_result \<times> chunk_decoder \<times> mem) option" where
  "chunk_advance cfg dec m cur in_len out at out_avail = (case cd_phase dec of
     CHUNK_SIZE \<Rightarrow> do {
       crlf \<leftarrow> crlf_find m cur (cur + in_len);
       let en = cur + in_len;
       if en - crlf < 2 then Some (chunk_fail PARSE_INCOMPLETE cur, dec, out) else do {
         semi \<leftarrow> memchr m cur (CHR '';'') (crlf - cur);
         let size_end = (case semi of Some s \<Rightarrow> s | None \<Rightarrow> crlf);
         if size_end = cur then Some (chunk_fail PARSE_BAD_REQUEST cur, dec, out) else do {
           (st, len) \<leftarrow> uint_parse m cur (size_end - cur) 16 (body_limit cfg);
           if st \<noteq> PARSE_OK then
             Some (\<lparr> cr_parse = parse_result_zero\<lparr>status := st\<rparr>, cr_written = 0 \<rparr>, dec, out)
           else do {
             len \<leftarrow> len;
             if unat len = 0 then Some (chunk_ok PARSE_OK (crlf + 2) 0, dec\<lparr>cd_phase := CHUNK_TRAILER\<rparr>, out)
             else Some (chunk_ok PARSE_OK (crlf + 2) 0,
                    dec\<lparr>cd_remaining := unat len, cd_phase := CHUNK_DATA\<rparr>, out)
           }
         }
       }
     }
   | CHUNK_DATA \<Rightarrow> do {
       require (cd_remaining dec > 0);
       let take = (if cd_remaining dec < in_len then cd_remaining dec else in_len);
       if take > out_avail then Some (chunk_fail PARSE_PAYLOAD_TOO_LARGE cur, dec, out) else do {
         bytes \<leftarrow> rd_range m cur take;
         out \<leftarrow> blit out at bytes;
         let dec = dec\<lparr>cd_remaining := cd_remaining dec - take\<rparr>;
         Some (chunk_ok (if cd_remaining dec = 0 then PARSE_OK else PARSE_INCOMPLETE) (cur + take) take,
           (if cd_remaining dec = 0 then dec\<lparr>cd_phase := CHUNK_TRAIL_CR\<rparr> else dec), out)
       }
     }
   | CHUNK_TRAIL_CR \<Rightarrow>
       if in_len = 0 then Some (chunk_fail PARSE_INCOMPLETE cur, dec, out) else do {
         c \<leftarrow> rd m cur;
         if c \<noteq> CR then Some (chunk_fail PARSE_BAD_REQUEST cur, dec, out)
         else Some (chunk_ok PARSE_OK (cur + 1) 0, dec\<lparr>cd_phase := CHUNK_TRAIL_LF\<rparr>, out)
       }
   | CHUNK_TRAIL_LF \<Rightarrow>
       if in_len = 0 then Some (chunk_fail PARSE_INCOMPLETE cur, dec, out) else do {
         c \<leftarrow> rd m cur;
         if c \<noteq> LF then Some (chunk_fail PARSE_BAD_REQUEST cur, dec, out)
         else Some (chunk_ok PARSE_OK (cur + 1) 0, dec\<lparr>cd_phase := CHUNK_SIZE\<rparr>, out)
       }
   | CHUNK_TRAILER \<Rightarrow>
       if in_len < 2 then Some (chunk_fail PARSE_INCOMPLETE cur, dec, out) else do {
         a \<leftarrow> rd m cur;
         bad \<leftarrow> (if a \<noteq> CR then Some True else do { b \<leftarrow> rd m (cur + 1); Some (b \<noteq> LF) });
         if bad then Some (chunk_fail PARSE_BAD_REQUEST cur, dec, out)
         else Some (chunk_ok PARSE_OK (cur + 2) 0, dec\<lparr>cd_phase := CHUNK_DONE\<rparr>, out)
       }
   | CHUNK_DONE \<Rightarrow> Some (chunk_ok PARSE_OK cur 0, dec, out))"

subsection \<open>The decoder on strings\<close>

text \<open>
  What one call does to the bytes in front of it: wait for more (after consuming some), reject, or
  move on.  \<open>crlf_split\<close> cuts at the first CRLF.
\<close>

datatype chunk_step = Wait chunk_decoder nat string | Reject parse_status | Move chunk_decoder nat string

fun crlf_split :: "string \<Rightarrow> (string \<times> string) option" where
  "crlf_split (a # b # s) = (if a = CR \<and> b = LF then Some ([], s)
     else map_option (\<lambda>(l, r). (a # l, r)) (crlf_split (b # s)))"
| "crlf_split s = None"

definition chunk_size :: "config \<Rightarrow> string \<Rightarrow> parse_status + nat" where
  "chunk_size cfg l = (let h = takeWhile (\<lambda>c. c \<noteq> CHR '';'') l in
     if h = [] then Inl PARSE_BAD_REQUEST else uint_reference 16 (max_body_len cfg) 0 h)"

definition chunk_step_of :: "config \<Rightarrow> chunk_decoder \<Rightarrow> nat \<Rightarrow> string \<Rightarrow> chunk_step" where
  "chunk_step_of cfg d avail s = (case cd_phase d of
     CHUNK_SIZE \<Rightarrow> (case crlf_split s of
         None \<Rightarrow> Wait d 0 []
       | Some (l, r) \<Rightarrow> (case chunk_size cfg l of
           Inl st \<Rightarrow> Reject st
         | Inr 0 \<Rightarrow> Move (d\<lparr>cd_phase := CHUNK_TRAILER\<rparr>) (length l + 2) []
         | Inr n \<Rightarrow> Move (d\<lparr>cd_remaining := n, cd_phase := CHUNK_DATA\<rparr>) (length l + 2) []))
   | CHUNK_DATA \<Rightarrow>
       (let k = min (cd_remaining d) (length s) in
        if avail < k then Reject PARSE_PAYLOAD_TOO_LARGE
        else if cd_remaining d \<le> length s
          then Move (d\<lparr>cd_remaining := 0, cd_phase := CHUNK_TRAIL_CR\<rparr>) k (take k s)
          else Wait (d\<lparr>cd_remaining := cd_remaining d - k\<rparr>) k (take k s))
   | CHUNK_TRAIL_CR \<Rightarrow> (case s of [] \<Rightarrow> Wait d 0 []
       | c # _ \<Rightarrow> if c = CR then Move (d\<lparr>cd_phase := CHUNK_TRAIL_LF\<rparr>) 1 [] else Reject PARSE_BAD_REQUEST)
   | CHUNK_TRAIL_LF \<Rightarrow> (case s of [] \<Rightarrow> Wait d 0 []
       | c # _ \<Rightarrow> if c = LF then Move (d\<lparr>cd_phase := CHUNK_SIZE\<rparr>) 1 [] else Reject PARSE_BAD_REQUEST)
   | CHUNK_TRAILER \<Rightarrow> (case s of a # b # _ \<Rightarrow>
         if a = CR \<and> b = LF then Move (d\<lparr>cd_phase := CHUNK_DONE\<rparr>) 2 [] else Reject PARSE_BAD_REQUEST
       | _ \<Rightarrow> Wait d 0 [])
   | CHUNK_DONE \<Rightarrow> Move d 0 [])"

definition wf_decoder :: "chunk_decoder \<Rightarrow> bool" where
  "wf_decoder d \<longleftrightarrow> (cd_phase d = CHUNK_DATA \<longrightarrow> 0 < cd_remaining d)"

text \<open>The result of \<open>chunk_advance\<close> a step stands for, at position \<open>cur\<close> with the output \<open>out\<close>.\<close>

definition advance_means :: "chunk_decoder \<Rightarrow> nat \<Rightarrow> mem \<Rightarrow> nat \<Rightarrow> chunk_step
    \<Rightarrow> chunk_result \<times> chunk_decoder \<times> mem \<Rightarrow> bool" where
  "advance_means d cur out at stp r = (case (stp, r) of
     (Wait d' n bs, (res, d2, out2)) \<Rightarrow> status (cr_parse res) = PARSE_INCOMPLETE \<and> d2 = d'
       \<and> cr_written res = length bs \<and> blit out at bs = Some out2
       \<and> (next_pos (cr_parse res) = Some (cur + n) \<or> next_pos (cr_parse res) = None \<and> n = 0)
   | (Reject st, (res, d2, out2)) \<Rightarrow> status (cr_parse res) = st \<and> d2 = d \<and> out2 = out
       \<and> cr_written res = 0 \<and> next_pos (cr_parse res) = None
   | (Move d' n bs, (res, d2, out2)) \<Rightarrow> status (cr_parse res) = PARSE_OK \<and> d2 = d'
       \<and> cr_written res = length bs \<and> blit out at bs = Some out2 \<and> next_pos (cr_parse res) = Some (cur + n))"

lemma crlf_split_parts: "crlf_split s = Some (l, r) \<Longrightarrow> s = l @ crlf @ r"
  by (induction s arbitrary: l rule: crlf_split.induct) (auto split: if_splits)

lemma crlf_split_append: "crlf_split s = Some (l, r) \<Longrightarrow> crlf_split (s @ t) = Some (l, r @ t)"
  by (induction s arbitrary: l rule: crlf_split.induct) (auto split: if_splits)

lemma crlf_split_no_CR: "CR \<notin> set l \<Longrightarrow> crlf_split (l @ crlf @ r) = Some (l, r)"
proof (induction l)
  case Nil
  then show ?case by simp
next
  case (Cons a l)
  then obtain b s where "l @ crlf @ r = b # s" by (cases l) auto
  with Cons show ?case by auto
qed

lemma crlf_find_split:
  assumes "cur \<le> en" "en \<le> length m"
  shows "case crlf_split (seg m cur en) of
     None \<Rightarrow> crlf_find m cur en = Some en
   | Some (l, r) \<Rightarrow> crlf_find m cur en = Some (cur + length l) \<and> cur + length l + 2 \<le> en
       \<and> seg m cur (cur + length l) = l"
  using assms(1)
proof (induction "en - cur" arbitrary: cur rule: less_induct)
  case less
  show ?case
  proof (cases "cur + 1 < en")
    case False
    then have "seg m cur en = [] \<or> seg m cur en = [m ! cur]"
      using assms(2) less.prems by (cases "cur < en") (auto simp: seg_Cons)
    then have "crlf_split (seg m cur en) = None" by (elim disjE) simp_all
    with False show ?thesis by (simp add: crlf_find_unfold [OF assms(2), of cur])
  next
    case True
    have s: "seg m cur en = m ! cur # seg m (Suc cur) en"
      "seg m (Suc cur) en = m ! Suc cur # seg m (Suc (Suc cur)) en"
      using True assms(2) by (simp_all add: seg_Cons)
    show ?thesis
    proof (cases "crlf_at m cur en")
      case hit: True
      then have "crlf_split (seg m cur en) = Some ([], seg m (Suc (Suc cur)) en)"
        unfolding s by (simp add: crlf_at_def)
      moreover have "crlf_find m cur en = Some cur"
        using hit True by (simp add: crlf_find_unfold [OF assms(2), of cur])
      ultimately show ?thesis using True by simp
    next
      case miss: False
      then have split: "crlf_split (seg m cur en)
          = map_option (\<lambda>(l, r). (m ! cur # l, r)) (crlf_split (seg m (Suc cur) en))"
        unfolding s using True by (auto simp: crlf_at_def)
      have find: "crlf_find m cur en = crlf_find m (Suc cur) en"
        using miss True by (simp add: crlf_find_unfold [OF assms(2), of cur])
      have "en - Suc cur < en - cur" "Suc cur \<le> en" using True by simp_all
      from less.hyps [OF this] show ?thesis unfolding split find
        using True assms(2) by (auto split: option.splits simp: seg_Cons)
    qed
  qed
qed

lemma uint_parse_size:
  assumes "wf_config cfg" "i + n \<le> length m" "n \<noteq> 0"
  shows "\<exists>r. uint_parse m i n 16 (body_limit cfg) = Some r \<and>
    (case uint_reference 16 (max_body_len cfg) 0 (take n (drop i m)) of
       Inl st \<Rightarrow> r = (st, None) \<and> st \<in> {PARSE_BAD_REQUEST, PARSE_PAYLOAD_TOO_LARGE}
     | Inr v \<Rightarrow> \<exists>w. r = (PARSE_OK, Some w) \<and> unat w = v)"
proof -
  have "15 \<le> unat (body_limit cfg)" "unat (body_limit cfg) < 2 ^ 59"
    using wf_configD(7,8) [OF assms(1)] assms(1) by simp_all
  from uint_parse_reference_plain [of 16, OF _ _ this assms(2)] assms(1,3)
  have "map_option (map_prod id (map_option unat)) (uint_parse m i n 16 (body_limit cfg))
    = Some (case uint_reference 16 (max_body_len cfg) 0 (take n (drop i m)) of
                   Inl st \<Rightarrow> (st, None) | Inr v \<Rightarrow> (PARSE_OK, Some v))"
    by simp
  then show ?thesis
    using uint_reference_Inl_status [of 16 "max_body_len cfg" 0 "take n (drop i m)"]
    by (auto split: sum.splits)
qed

text \<open>A size line \<open>l\<close> has been found: what is parsed is the part \<open>h\<close> before its extension.\<close>

lemma chunk_advance_line:
  assumes "cur + in_len \<le> length m" "cd_phase d = CHUNK_SIZE" "crlf_split (seg m cur (cur + in_len)) = Some (l, r)"
    "h = takeWhile (\<lambda>c. c \<noteq> CHR '';'') l"
  shows "cur + length h \<le> length m" "take (length h) (drop cur m) = h"
    "chunk_advance cfg d m cur in_len out at avail =
      (if length h = 0 then Some (chunk_fail PARSE_BAD_REQUEST cur, d, out) else do {
         (st, len) \<leftarrow> uint_parse m cur (length h) 16 (body_limit cfg);
         if st \<noteq> PARSE_OK then
           Some (\<lparr> cr_parse = parse_result_zero\<lparr>status := st\<rparr>, cr_written = 0 \<rparr>, d, out)
         else do {
           len \<leftarrow> len;
           if unat len = 0 then Some (chunk_ok PARSE_OK (cur + length l + 2) 0, d\<lparr>cd_phase := CHUNK_TRAILER\<rparr>, out)
           else Some (chunk_ok PARSE_OK (cur + length l + 2) 0,
                  d\<lparr>cd_remaining := unat len, cd_phase := CHUNK_DATA\<rparr>, out)
         }
       })"
proof -
  from crlf_find_split [of cur "cur + in_len" m, OF _ assms(1)] assms(3)
  have p: "crlf_find m cur (cur + in_len) = Some (cur + length l)" "cur + length l + 2 \<le> cur + in_len"
    "seg m cur (cur + length l) = l" by simp_all
  have end_le: "cur + length l \<le> length m" using p(2) assms(1) by simp
  note span = seg_span [OF le_add1 end_le, of "\<lambda>c. c \<noteq> CHR '';''", unfolded p(3), folded assms(4)]
  with end_le show "cur + length h \<le> length m" by simp
  show "take (length h) (drop cur m) = h" using span(2) by (simp add: seg_def)
  from memchr_takeWhile [OF le_add1 end_le, of "CHR '';''"] obtain semi where
    semi: "memchr m cur (CHR '';'') (length l) = Some semi"
    "(case semi of None \<Rightarrow> cur + length l | Some p \<Rightarrow> p) = cur + length h"
    by (auto simp: p(3) assms(4))
  have size: "(case semi of Some s \<Rightarrow> s | None \<Rightarrow> cur + length l) = cur + length h"
    using semi(2) by (simp add: option.case_eq_if)
  have "\<not> in_len - length l < 2" using p(2) by linarith
  then show "chunk_advance cfg d m cur in_len out at avail =
      (if length h = 0 then Some (chunk_fail PARSE_BAD_REQUEST cur, d, out) else do {
         (st, len) \<leftarrow> uint_parse m cur (length h) 16 (body_limit cfg);
         if st \<noteq> PARSE_OK then
           Some (\<lparr> cr_parse = parse_result_zero\<lparr>status := st\<rparr>, cr_written = 0 \<rparr>, d, out)
         else do {
           len \<leftarrow> len;
           if unat len = 0 then Some (chunk_ok PARSE_OK (cur + length l + 2) 0, d\<lparr>cd_phase := CHUNK_TRAILER\<rparr>, out)
           else Some (chunk_ok PARSE_OK (cur + length l + 2) 0,
                  d\<lparr>cd_remaining := unat len, cd_phase := CHUNK_DATA\<rparr>, out)
         }
       })"
    using assms(2) p(1) semi(1) by (simp add: chunk_advance_def Let_def size)
qed

lemma chunk_advance_size:
  assumes "wf_config cfg" "cur + in_len \<le> length m" "at \<le> length out" "cd_phase d = CHUNK_SIZE"
  shows "\<exists>r. chunk_advance cfg d m cur in_len out at avail = Some r
     \<and> advance_means d cur out at (chunk_step_of cfg d avail (seg m cur (cur + in_len))) r"
proof (cases "crlf_split (seg m cur (cur + in_len))")
  case None
  with crlf_find_split [of cur "cur + in_len" m, OF _ assms(2)] assms(3,4) show ?thesis
    by (simp add: chunk_advance_def chunk_step_of_def advance_means_def chunk_fail_def fault_simps)
next
  case (Some lr)
  then obtain l r where lr: "crlf_split (seg m cur (cur + in_len)) = Some (l, r)" by (cases lr) simp
  define h where "h = takeWhile (\<lambda>c. c \<noteq> CHR '';'') l"
  note line = chunk_advance_line [OF assms(2,4) lr h_def]
  show ?thesis
  proof (cases "h = []")
    case True
    then have "chunk_size cfg l = Inl PARSE_BAD_REQUEST" by (simp add: chunk_size_def h_def Let_def)
    with True assms(4) lr show ?thesis unfolding line(3)
      by (simp add: chunk_step_of_def advance_means_def chunk_fail_def)
  next
    case False
    then have cs: "chunk_size cfg l = uint_reference 16 (max_body_len cfg) 0 h"
      by (simp add: chunk_size_def h_def Let_def)
    from uint_parse_size [OF assms(1) line(1)] False line(2) obtain r where
      r: "uint_parse m cur (length h) 16 (body_limit cfg) = Some r"
      "case chunk_size cfg l of Inl st \<Rightarrow> r = (st, None) \<and> st \<in> {PARSE_BAD_REQUEST, PARSE_PAYLOAD_TOO_LARGE}
       | Inr v \<Rightarrow> \<exists>w. r = (PARSE_OK, Some w) \<and> unat w = v"
      by (auto simp: cs)
    show ?thesis
    proof (cases "chunk_size cfg l")
      case (Inl st)
      with r have "r = (st, None)" "st \<noteq> PARSE_OK" by auto
      with r(1) False Inl assms(4) lr show ?thesis unfolding line(3)
        by (simp add: chunk_step_of_def advance_means_def)
    next
      case (Inr v)
      with r obtain w where "r = (PARSE_OK, Some w)" "unat w = v" by auto
      with r(1) False Inr assms(3,4) lr show ?thesis unfolding line(3)
        by (cases v) (auto simp: chunk_step_of_def advance_means_def chunk_ok_def fault_simps unat_eq_zero)
    qed
  qed
qed

lemma chunk_advance_data:
  assumes "wf_decoder d" "cur + in_len \<le> length m" "at + avail \<le> length out" "cd_phase d = CHUNK_DATA"
  shows "\<exists>r. chunk_advance cfg d m cur in_len out at avail = Some r
     \<and> advance_means d cur out at (chunk_step_of cfg d avail (seg m cur (cur + in_len))) r"
proof -
  define k where "k = min (cd_remaining d) in_len"
  have pos: "0 < cd_remaining d" using assms(1,4) by (simp add: wf_decoder_def)
  have k: "(if cd_remaining d < in_len then cd_remaining d else in_len) = k" "k \<le> in_len" "k \<le> cd_remaining d"
    by (auto simp: k_def)
  have s: "length (seg m cur (cur + in_len)) = in_len" "take k (seg m cur (cur + in_len)) = take k (drop cur m)"
    using assms(2) k(2) by (simp_all add: seg_def min_absorb1)
  have adv: "chunk_advance cfg d m cur in_len out at avail =
    (if k > avail then Some (chunk_fail PARSE_PAYLOAD_TOO_LARGE cur, d, out) else do {
       bytes \<leftarrow> rd_range m cur k;
       out \<leftarrow> blit out at bytes;
       let d = d\<lparr>cd_remaining := cd_remaining d - k\<rparr>;
       Some (chunk_ok (if cd_remaining d = 0 then PARSE_OK else PARSE_INCOMPLETE) (cur + k) k,
         (if cd_remaining d = 0 then d\<lparr>cd_phase := CHUNK_TRAIL_CR\<rparr> else d), out)
     })"
    using assms(4) pos by (simp add: chunk_advance_def Let_def k(1))
  have stp: "chunk_step_of cfg d avail (seg m cur (cur + in_len)) =
    (if k > avail then Reject PARSE_PAYLOAD_TOO_LARGE
     else if cd_remaining d \<le> in_len
       then Move (d\<lparr>cd_remaining := 0, cd_phase := CHUNK_TRAIL_CR\<rparr>) k (take k (drop cur m))
       else Wait (d\<lparr>cd_remaining := cd_remaining d - k\<rparr>) k (take k (drop cur m)))"
    using assms(4) by (simp add: chunk_step_of_def Let_def s(1) k_def [symmetric] s(2))
  show ?thesis
  proof (cases "k > avail")
    case True
    then show ?thesis unfolding adv stp by (simp add: advance_means_def chunk_fail_def)
  next
    case False
    then have rd: "rd_range m cur k = Some (take k (drop cur m))" and len: "length (take k (drop cur m)) = k"
      and room: "at + length (take k (drop cur m)) \<le> length out"
      using assms(2,3) k(2) by (auto simp: fault_simps)
    have "cd_remaining d - k = 0 \<longleftrightarrow> cd_remaining d \<le> in_len" by (auto simp: k_def)
    with False rd len blit_in [OF room] show ?thesis unfolding adv stp
      by (simp add: advance_means_def chunk_ok_def Let_def)
  qed
qed

lemma chunk_advance_line_end:
  assumes "cur + in_len \<le> length m" "at \<le> length out" "cd_phase d = CHUNK_TRAIL_CR \<or> cd_phase d = CHUNK_TRAIL_LF"
  shows "\<exists>r. chunk_advance cfg d m cur in_len out at avail = Some r
     \<and> advance_means d cur out at (chunk_step_of cfg d avail (seg m cur (cur + in_len))) r"
proof (cases "in_len = 0")
  case True
  then show ?thesis using assms(2,3)
    by (auto simp: chunk_advance_def chunk_step_of_def advance_means_def chunk_fail_def fault_simps)
next
  case False
  then have s: "seg m cur (cur + in_len) = m ! cur # seg m (Suc cur) (cur + in_len)" "rd m cur = Some (m ! cur)"
    using assms(1) by (simp_all add: seg_Cons fault_simps)
  show ?thesis unfolding s using False assms(2,3)
    by (auto simp: chunk_advance_def chunk_step_of_def advance_means_def chunk_ok_def chunk_fail_def s(2) blit_in)
qed

lemma chunk_advance_trailer:
  assumes "cur + in_len \<le> length m" "at \<le> length out" "cd_phase d = CHUNK_TRAILER"
  shows "\<exists>r. chunk_advance cfg d m cur in_len out at avail = Some r
     \<and> advance_means d cur out at (chunk_step_of cfg d avail (seg m cur (cur + in_len))) r"
proof (cases "in_len < 2")
  case True
  then consider "in_len = 0" | "in_len = 1" "seg m cur (cur + in_len) = [m ! cur]"
    using assms(1) by (cases "in_len = 0") (auto simp: seg_Cons less_2_cases_iff)
  then show ?thesis using assms(2,3)
    by cases (simp_all add: chunk_advance_def chunk_step_of_def advance_means_def chunk_fail_def blit_in)
next
  case False
  then have s: "seg m cur (cur + in_len) = m ! cur # m ! (cur + 1) # seg m (cur + 2) (cur + in_len)"
    "rd m cur = Some (m ! cur)" "rd m (cur + 1) = Some (m ! (cur + 1))"
    using assms(1) by (simp_all add: seg_Cons fault_simps)
  show ?thesis unfolding s using False assms(2,3)
    by (cases "m ! cur = CR"; cases "m ! (cur + 1) = LF")
      (simp_all add: chunk_advance_def chunk_step_of_def advance_means_def chunk_ok_def chunk_fail_def
        s(2) s(3) [simplified] blit_in)
qed

lemma chunk_advance_step:
  assumes "wf_config cfg" "wf_decoder d" "cur + in_len \<le> length m" "at + avail \<le> length out"
  shows "\<exists>r. chunk_advance cfg d m cur in_len out at avail = Some r
     \<and> advance_means d cur out at (chunk_step_of cfg d avail (seg m cur (cur + in_len))) r"
proof (cases "cd_phase d")
  case CHUNK_SIZE
  with assms show ?thesis by (intro chunk_advance_size) simp_all
next
  case CHUNK_DATA
  with assms show ?thesis by (intro chunk_advance_data) simp_all
next
  case CHUNK_TRAIL_CR
  with assms show ?thesis by (intro chunk_advance_line_end) simp_all
next
  case CHUNK_TRAIL_LF
  with assms show ?thesis by (intro chunk_advance_line_end) simp_all
next
  case CHUNK_TRAILER
  with assms show ?thesis by (intro chunk_advance_trailer) simp_all
next
  case CHUNK_DONE
  with assms show ?thesis
    by (simp add: chunk_advance_def chunk_step_of_def advance_means_def chunk_ok_def fault_simps)
qed

subsection \<open>Running the decoder\<close>

text \<open>
  The decoder run over a piece of input until it waits, rejects or has finished: how many bytes it
  consumed and what it wrote.  \<open>avail\<close> is the room left in the output.
\<close>

datatype 's outcome = Need 's nat string | Finished nat string | Failed parse_status

fun after :: "nat \<Rightarrow> string \<Rightarrow> 's outcome \<Rightarrow> 's outcome" where
  "after n o1 (Need s k o2) = Need s (n + k) (o1 @ o2)"
| "after n o1 (Finished k o2) = Finished (n + k) (o1 @ o2)"
| "after n o1 (Failed st) = Failed st"

type_synonym decoder_state = "chunk_decoder \<times> nat"

lemma chunk_step_phase:
  "cd_phase d = CHUNK_SIZE \<Longrightarrow> chunk_step_of cfg d avail s = (case crlf_split s of
       None \<Rightarrow> Wait d 0 []
     | Some (l, r) \<Rightarrow> (case chunk_size cfg l of
         Inl st \<Rightarrow> Reject st
       | Inr 0 \<Rightarrow> Move (d\<lparr>cd_phase := CHUNK_TRAILER\<rparr>) (length l + 2) []
       | Inr n \<Rightarrow> Move (d\<lparr>cd_remaining := n, cd_phase := CHUNK_DATA\<rparr>) (length l + 2) []))"
  "cd_phase d = CHUNK_DATA \<Longrightarrow> chunk_step_of cfg d avail s =
     (if avail < min (cd_remaining d) (length s) then Reject PARSE_PAYLOAD_TOO_LARGE
      else if cd_remaining d \<le> length s
        then Move (d\<lparr>cd_remaining := 0, cd_phase := CHUNK_TRAIL_CR\<rparr>) (cd_remaining d) (take (cd_remaining d) s)
        else Wait (d\<lparr>cd_remaining := cd_remaining d - length s\<rparr>) (length s) s)"
  "cd_phase d = CHUNK_TRAIL_CR \<Longrightarrow> chunk_step_of cfg d avail s = (case s of [] \<Rightarrow> Wait d 0 []
       | c # _ \<Rightarrow> if c = CR then Move (d\<lparr>cd_phase := CHUNK_TRAIL_LF\<rparr>) 1 [] else Reject PARSE_BAD_REQUEST)"
  "cd_phase d = CHUNK_TRAIL_LF \<Longrightarrow> chunk_step_of cfg d avail s = (case s of [] \<Rightarrow> Wait d 0 []
       | c # _ \<Rightarrow> if c = LF then Move (d\<lparr>cd_phase := CHUNK_SIZE\<rparr>) 1 [] else Reject PARSE_BAD_REQUEST)"
  "cd_phase d = CHUNK_TRAILER \<Longrightarrow> chunk_step_of cfg d avail s = (case s of a # b # _ \<Rightarrow>
         if a = CR \<and> b = LF then Move (d\<lparr>cd_phase := CHUNK_DONE\<rparr>) 2 [] else Reject PARSE_BAD_REQUEST
       | _ \<Rightarrow> Wait d 0 [])"
  "cd_phase d = CHUNK_DONE \<Longrightarrow> chunk_step_of cfg d avail s = Move d 0 []"
  by (simp_all add: chunk_step_of_def Let_def min_def)

lemma chunk_step_consumes:
  assumes "wf_decoder d"
  shows "case chunk_step_of cfg d avail s of
      Move d' n bs \<Rightarrow> wf_decoder d' \<and> length bs \<le> avail \<and> n \<le> length s
        \<and> (cd_phase d \<noteq> CHUNK_DONE \<longrightarrow> 0 < n)
    | Wait d' n bs \<Rightarrow> wf_decoder d' \<and> length bs \<le> avail \<and> n \<le> length s
    | Reject st \<Rightarrow> True"
proof (cases "cd_phase d")
  case CHUNK_SIZE
  have "length l + 2 \<le> length s" if "crlf_split s = Some (l, r)" for l r
    using crlf_split_parts [OF that] by simp
  then show ?thesis using CHUNK_SIZE assms
    by (auto simp: chunk_step_phase wf_decoder_def split: option.splits sum.splits nat.splits)
next
  case CHUNK_DATA
  with assms show ?thesis by (auto simp: chunk_step_phase wf_decoder_def)
qed (use assms in \<open>auto simp: chunk_step_phase wf_decoder_def split: list.splits\<close>)

lemma chunk_step_reject:
  "chunk_step_of cfg d avail s = Reject st \<Longrightarrow> st = PARSE_BAD_REQUEST \<or> st = PARSE_PAYLOAD_TOO_LARGE"
  by (cases "cd_phase d") (auto simp: chunk_step_phase chunk_size_def Let_def
      split: option.splits sum.splits nat.splits list.splits if_splits dest: uint_reference_Inl_status)

text \<open>More input behind a step: a decided step stays, a waiting one continues.\<close>

lemma chunk_step_append:
  "chunk_step_of cfg d avail s = Move d' n bs \<Longrightarrow> chunk_step_of cfg d avail (s @ t) = Move d' n bs"
  "chunk_step_of cfg d avail s = Reject st \<Longrightarrow> chunk_step_of cfg d avail (s @ t) = Reject st"
  "chunk_step_of cfg d avail s = Wait d' n bs \<Longrightarrow> cd_phase d \<noteq> CHUNK_DATA \<Longrightarrow> d' = d \<and> n = 0 \<and> bs = []"
proof -
  show "chunk_step_of cfg d avail s = Move d' n bs \<Longrightarrow> chunk_step_of cfg d avail (s @ t) = Move d' n bs"
    by (cases "cd_phase d") (auto simp: chunk_step_phase crlf_split_append split: option.splits sum.splits
        nat.splits list.splits if_splits)
  show "chunk_step_of cfg d avail s = Reject st \<Longrightarrow> chunk_step_of cfg d avail (s @ t) = Reject st"
    by (cases "cd_phase d") (auto simp: chunk_step_phase crlf_split_append split: option.splits sum.splits
        nat.splits list.splits if_splits)
  show "chunk_step_of cfg d avail s = Wait d' n bs \<Longrightarrow> cd_phase d \<noteq> CHUNK_DATA \<Longrightarrow> d' = d \<and> n = 0 \<and> bs = []"
    by (cases "cd_phase d") (auto simp: chunk_step_phase split: option.splits sum.splits
        nat.splits list.splits if_splits)
qed

function chunk_run :: "config \<Rightarrow> decoder_state \<Rightarrow> string \<Rightarrow> decoder_state outcome" where
  "chunk_run cfg (d, avail) s = (case chunk_step_of cfg d avail s of
     Wait d' n bs \<Rightarrow> Need (d', avail - length bs) n bs
   | Reject st \<Rightarrow> Failed st
   | Move d' n bs \<Rightarrow>
       if cd_phase d' = CHUNK_DONE then Finished n bs
       else if n = 0 \<or> length s < n then Failed PARSE_BAD_REQUEST
       else after n bs (chunk_run cfg (d', avail - length bs) (drop n s)))"
  by pat_completeness auto
termination
  by (relation "measure (\<lambda>(cfg, (d, avail), s). length s)") auto

declare chunk_run.simps [simp del]

text \<open>The guard of the recursion never fires from a well-formed decoder.\<close>

lemma chunk_run_eq:
  assumes "wf_decoder d"
  shows "chunk_run cfg (d, avail) s = (case chunk_step_of cfg d avail s of
     Wait d' n bs \<Rightarrow> Need (d', avail - length bs) n bs
   | Reject st \<Rightarrow> Failed st
   | Move d' n bs \<Rightarrow>
       if cd_phase d' = CHUNK_DONE then Finished n bs
       else after n bs (chunk_run cfg (d', avail - length bs) (drop n s)))"
proof -
  have "0 < n \<and> n \<le> length s" if "chunk_step_of cfg d avail s = Move d' n bs" "cd_phase d' \<noteq> CHUNK_DONE" for d' n bs
  proof -
    have "cd_phase d \<noteq> CHUNK_DONE" using that by (auto simp: chunk_step_phase)
    with chunk_step_consumes [OF assms, where cfg = cfg and avail = avail and s = s] that show ?thesis by simp
  qed
  then show ?thesis by (subst chunk_run.simps) (auto split: chunk_step.splits)
qed

lemma after_after [simp]: "after n b (after k c r) = after (n + k) (b @ c) r"
  by (cases r) simp_all

lemma after_zero [simp]: "after 0 [] r = r"
  by (cases r) simp_all

lemma after_eq_simps [simp]:
  "after n b r = Need s k c \<longleftrightarrow> (\<exists>k' c'. r = Need s k' c' \<and> k = n + k' \<and> c = b @ c')"
  "after n b r = Finished k c \<longleftrightarrow> (\<exists>k' c'. r = Finished k' c' \<and> k = n + k' \<and> c = b @ c')"
  "after n b r = Failed st \<longleftrightarrow> r = Failed st"
  by (cases r; auto)+

text \<open>What a decoder run over one piece of input promises about more input behind it.\<close>

definition extends_run :: "('s \<Rightarrow> string \<Rightarrow> 's outcome) \<Rightarrow> ('s \<Rightarrow> bool) \<Rightarrow> 's \<Rightarrow> string \<Rightarrow> string \<Rightarrow> bool" where
  "extends_run run ok s xs ys \<longleftrightarrow> (case run s xs of
     Need s' n o' \<Rightarrow> ok s' \<and> n \<le> length xs \<and> run s (xs @ ys) = after n o' (run s' (drop n xs @ ys))
   | Finished n o' \<Rightarrow> n \<le> length xs \<and> run s (xs @ ys) = Finished n o'
   | Failed st \<Rightarrow> run s (xs @ ys) = Failed st)"

lemma extends_run_after:
  assumes "run s xs = after n b (run s' (drop n xs))" "run s (xs @ ys) = after n b (run s' (drop n xs @ ys))"
    "n \<le> length xs" "extends_run run ok s' (drop n xs) ys"
  shows "extends_run run ok s xs ys"
  using assms unfolding extends_run_def
  by (cases "run s' (drop n xs)") (auto simp: add.commute)

lemma chunk_run_data_append:
  assumes "cd_phase d = CHUNK_DATA" "length s < cd_remaining d" "length s \<le> avail"
  shows "chunk_run cfg (d, avail) (s @ t)
    = after (length s) s (chunk_run cfg (d\<lparr>cd_remaining := cd_remaining d - length s\<rparr>, avail - length s) t)"
proof -
  let ?d = "d\<lparr>cd_remaining := cd_remaining d - length s\<rparr>"
  have wf: "wf_decoder d" "wf_decoder ?d" using assms by (simp_all add: wf_decoder_def)
  have "min (cd_remaining d - length s) (length t) = min (cd_remaining d) (length (s @ t)) - length s"
    using assms(2) by auto
  then have cmp: "avail < min (cd_remaining d) (length (s @ t))
      \<longleftrightarrow> avail - length s < min (cd_remaining d - length s) (length t)"
    using assms(2,3) by auto
  show ?thesis
  proof (cases "avail < min (cd_remaining d) (length (s @ t))")
    case True
    with cmp assms(1) show ?thesis
      by (simp add: chunk_run_eq [OF wf(1)] chunk_run_eq [OF wf(2)] chunk_step_phase(2))
  next
    case False
    show ?thesis
    proof (cases "cd_remaining d \<le> length (s @ t)")
      case True
      then have "cd_remaining d - length s \<le> length t" by auto
      with True False cmp assms show ?thesis
        by (simp add: chunk_run_eq [OF wf(1)] chunk_run_eq [OF wf(2)] chunk_step_phase(2) take_append drop_append)
    next
      case more: False
      then have "\<not> cd_remaining d - length s \<le> length t" by auto
      with more False cmp assms show ?thesis
        by (simp add: chunk_run_eq [OF wf(1)] chunk_run_eq [OF wf(2)] chunk_step_phase(2))
    qed
  qed
qed

lemma chunk_run_extends:
  assumes "wf_decoder d"
  shows "extends_run (chunk_run cfg) (\<lambda>(d, avail). wf_decoder d) (d, avail) s t"
  using assms
proof (induction "length s" arbitrary: d avail s rule: less_induct)
  case less
  note eq = chunk_run_eq [OF less.prems]
  note consumes = chunk_step_consumes [OF less.prems, where cfg = cfg and avail = avail and s = s]
  show ?case
  proof (cases "chunk_step_of cfg d avail s")
    case (Reject st)
    with chunk_step_append(2) [OF this] show ?thesis by (simp add: extends_run_def eq)
  next
    case (Wait d' n bs)
    show ?thesis
    proof (cases "cd_phase d = CHUNK_DATA")
      case False
      with chunk_step_append(3) [OF Wait] Wait have "chunk_run cfg (d, avail) s = Need (d, avail) 0 []"
        by (simp add: eq)
      with less.prems show ?thesis by (simp add: extends_run_def)
    next
      case True
      from Wait True have w: "length s < cd_remaining d" "length s \<le> avail" "n = length s" "bs = s"
        "d' = d\<lparr>cd_remaining := cd_remaining d - length s\<rparr>"
        by (auto simp: chunk_step_phase split: if_splits)
      with Wait consumes chunk_run_data_append [OF True w(1,2), where cfg = cfg and t = t] show ?thesis
        by (simp add: extends_run_def eq)
    qed
  next
    case (Move d' n bs)
    note more = chunk_step_append(1) [OF this, of t]
    show ?thesis
    proof (cases "cd_phase d' = CHUNK_DONE")
      case True
      with Move more consumes show ?thesis by (simp add: extends_run_def eq)
    next
      case False
      have pos: "0 < n" "n \<le> length s" "wf_decoder d'"
      proof -
        have "cd_phase d \<noteq> CHUNK_DONE" using Move False by (auto simp: chunk_step_phase)
        with consumes Move show "0 < n" "n \<le> length s" "wf_decoder d'" by simp_all
      qed
      show ?thesis
      proof (rule extends_run_after [where s' = "(d', avail - length bs)" and n = n and b = bs])
        show "chunk_run cfg (d, avail) s = after n bs (chunk_run cfg (d', avail - length bs) (drop n s))"
          using Move False by (simp add: eq)
        show "chunk_run cfg (d, avail) (s @ t) = after n bs (chunk_run cfg (d', avail - length bs) (drop n s @ t))"
          using more False pos(2) by (simp add: eq)
        show "n \<le> length s" by (rule pos(2))
        show "extends_run (chunk_run cfg) (\<lambda>(d, avail). wf_decoder d) (d', avail - length bs) (drop n s) t"
          using less.hyps [of "drop n s" d' "avail - length bs"] pos by simp
      qed
    qed
  qed
qed

subsection \<open>Resumable readers\<close>

text \<open>
  The contract of a reader that can be run again on the bytes that arrived meanwhile: what it did
  with a piece of the input is what it would have done with more input behind it.  \<open>feed\<close> drives it
  with one piece at a time, keeping what it did not consume.
\<close>

fun feed :: "('s \<Rightarrow> string \<Rightarrow> 's outcome) \<Rightarrow> 's \<Rightarrow> string \<Rightarrow> string list \<Rightarrow> 's outcome" where
  "feed run s buf [] = run s buf"
| "feed run s buf (f # fs) = (case run s buf of
     Need s' n o' \<Rightarrow> after n o' (feed run s' (drop n buf @ f) fs)
   | r \<Rightarrow> r)"

text \<open>
  A reader that has consumed \<open>c\<close> bytes and written \<open>out\<close> stands where a run over everything would.
\<close>

definition caught_up :: "('s \<Rightarrow> string \<Rightarrow> 's outcome) \<Rightarrow> 's \<Rightarrow> string \<Rightarrow> nat \<Rightarrow> string \<Rightarrow> 's \<Rightarrow> bool" where
  "caught_up run s0 input c out s \<longleftrightarrow> c \<le> length input \<and> run s0 input = after c out (run s (drop c input))"

locale resumable =
  fixes run :: "'s \<Rightarrow> string \<Rightarrow> 's outcome"
    and ok :: "'s \<Rightarrow> bool"
  assumes run_extends: "ok s \<Longrightarrow> extends_run run ok s xs ys"
begin

lemma run_Need: "ok s \<Longrightarrow> run s xs = Need s' n o' \<Longrightarrow>
    ok s' \<and> n \<le> length xs \<and> run s (xs @ ys) = after n o' (run s' (drop n xs @ ys))"
  using run_extends [of s xs ys] by (simp add: extends_run_def)

lemma run_decided: "ok s \<Longrightarrow> run s xs = r \<Longrightarrow> (\<And>s' n o'. r \<noteq> Need s' n o') \<Longrightarrow> run s (xs @ ys) = r"
  using run_extends [of s xs ys] by (cases r) (auto simp: extends_run_def)

lemma run_Finished_le: "ok s \<Longrightarrow> run s xs = Finished n o' \<Longrightarrow> n \<le> length xs"
  using run_extends [of s xs "[]"] by (simp add: extends_run_def)

text \<open>How the input was cut into pieces does not matter.\<close>

lemma feed_eq: "ok s \<Longrightarrow> feed run s buf fs = run s (buf @ concat fs)"
proof (induction fs arbitrary: s buf)
  case Nil
  then show ?case by simp
next
  case (Cons f fs)
  show ?case
  proof (cases "run s buf")
    case (Need s' n o')
    with run_Need [OF Cons.prems this, of "f @ concat fs"] Cons.IH show ?thesis by simp
  next
    case (Finished n o')
    with run_decided [OF Cons.prems this, of "f @ concat fs"] show ?thesis by simp
  next
    case (Failed st)
    with run_decided [OF Cons.prems this, of "f @ concat fs"] show ?thesis by simp
  qed
qed

lemma run_again: "ok s \<Longrightarrow> run s xs = Need s' n o' \<Longrightarrow> run s' (drop n xs) = Need s' 0 []"
  using run_Need [of s xs s' n o' "[]"] by (cases "run s' (drop n xs)") auto

lemma caught_up_start: "caught_up run s xs 0 [] s"
  by (simp add: caught_up_def)

lemma caught_up_append:
  assumes "ok s0" "ok s" "caught_up run s0 xs c out s"
  shows "caught_up run s0 (xs @ ys) c out s"
proof -
  from assms(3) have c: "c \<le> length xs" and eq: "run s0 xs = after c out (run s (drop c xs))"
    by (simp_all add: caught_up_def)
  have "run s0 (xs @ ys) = after c out (run s (drop c xs @ ys))"
  proof (cases "run s (drop c xs)")
    case (Need s' n o')
    with eq have "run s0 xs = Need s' (c + n) (out @ o')" by simp
    from run_Need [OF assms(1) this, of ys] run_Need [OF assms(2) Need, of ys] show ?thesis
      by (simp add: add.commute)
  next
    case (Finished n o')
    with eq have "run s0 xs = Finished (c + n) (out @ o')" by simp
    from run_decided [OF assms(1) this, of ys] run_decided [OF assms(2) Finished, of ys] show ?thesis by simp
  next
    case (Failed e)
    with eq have "run s0 xs = Failed e" by simp
    from run_decided [OF assms(1) this, of ys] run_decided [OF assms(2) Failed, of ys] show ?thesis by simp
  qed
  with c show ?thesis by (simp add: caught_up_def)
qed

lemma caught_up_Need:
  assumes "ok s" "caught_up run s0 xs c out s" "run s (drop c xs) = Need s' n o'"
  shows "caught_up run s0 xs (c + n) (out @ o') s'" "ok s'" "run s0 xs = Need s' (c + n) (out @ o')"
proof -
  show "ok s'" using run_Need [OF assms(1,3), of "[]"] by simp
  show "run s0 xs = Need s' (c + n) (out @ o')" using assms(2,3) by (simp add: caught_up_def)
  with run_again [OF assms(1,3)] run_Need [OF assms(1,3), of "[]"] assms(2)
  show "caught_up run s0 xs (c + n) (out @ o') s'"
    by (auto simp: caught_up_def add.commute)
qed

lemma feed_pieces: "ok s \<Longrightarrow> concat fs = concat gs \<Longrightarrow> feed run s [] fs = feed run s [] gs"
  by (simp add: feed_eq)

end

interpretation chunked: resumable "chunk_run cfg" "\<lambda>(d, avail). wf_decoder d" for cfg
  by standard (auto intro: chunk_run_extends)

subsection \<open>The grammar of a chunked body\<close>

text \<open>A chunk as it is written: its size line (with any extension) and its payload.\<close>

type_synonym chunk = "string \<times> string"

definition chunk_text :: "chunk \<Rightarrow> string" where
  "chunk_text c = fst c @ crlf @ snd c @ crlf"

definition chunked_text :: "chunk list \<Rightarrow> string \<Rightarrow> string" where
  "chunked_text cs last_line = concat (map chunk_text cs) @ last_line @ crlf @ crlf"

text \<open>The size line ends at its first CRLF and announces the length of the payload.\<close>

definition size_line_ok :: "config \<Rightarrow> string \<Rightarrow> nat \<Rightarrow> bool" where
  "size_line_ok cfg l n \<longleftrightarrow> crlf_split (l @ crlf) = Some (l, []) \<and> chunk_size cfg l = Inr n"

definition chunk_wf :: "config \<Rightarrow> chunk \<Rightarrow> bool" where
  "chunk_wf cfg c \<longleftrightarrow> snd c \<noteq> [] \<and> size_line_ok cfg (fst c) (length (snd c))"

definition payload :: "chunk list \<Rightarrow> string" where
  "payload cs = concat (map snd cs)"

lemma crlf_split_line: "crlf_split s = Some (l, r) \<longleftrightarrow> crlf_split (l @ crlf) = Some (l, []) \<and> s = l @ crlf @ r"
proof
  assume split: "crlf_split s = Some (l, r)"
  have "crlf_split (l @ crlf) = Some (l, [])"
    using split by (induction s arbitrary: l rule: crlf_split.induct)
      (fastforce split: if_splits simp: Cons_eq_append_conv dest: crlf_split_parts)+
  then show "crlf_split (l @ crlf) = Some (l, []) \<and> s = l @ crlf @ r"
    using crlf_split_parts [OF split] by simp
next
  assume "crlf_split (l @ crlf) = Some (l, []) \<and> s = l @ crlf @ r"
  then show "crlf_split s = Some (l, r)" using crlf_split_append [of "l @ crlf" l "[]" r] by simp
qed

lemma run_trailer_Finished:
  "cd_phase d = CHUNK_TRAILER \<Longrightarrow> chunk_run cfg (d, avail) s = Finished n bs
     \<longleftrightarrow> (\<exists>r. s = crlf @ r \<and> n = 2 \<and> bs = [])"
  by (subst chunk_run_eq) (auto simp: wf_decoder_def chunk_step_phase split: list.splits)

lemma run_cr_Finished:
  "cd_phase d = CHUNK_TRAIL_CR \<Longrightarrow> chunk_run cfg (d, avail) s = Finished n bs
     \<longleftrightarrow> (\<exists>s' n'. s = CR # s' \<and> chunk_run cfg (d\<lparr>cd_phase := CHUNK_TRAIL_LF\<rparr>, avail) s' = Finished n' bs \<and> n = 1 + n')"
  by (subst chunk_run_eq) (auto simp: wf_decoder_def chunk_step_phase split: list.splits)

lemma run_lf_Finished:
  "cd_phase d = CHUNK_TRAIL_LF \<Longrightarrow> chunk_run cfg (d, avail) s = Finished n bs
     \<longleftrightarrow> (\<exists>s' n'. s = LF # s' \<and> chunk_run cfg (d\<lparr>cd_phase := CHUNK_SIZE\<rparr>, avail) s' = Finished n' bs \<and> n = 1 + n')"
  by (subst chunk_run_eq) (auto simp: wf_decoder_def chunk_step_phase split: list.splits)

lemma run_data_Finished:
  "cd_phase d = CHUNK_DATA \<Longrightarrow> 0 < cd_remaining d \<Longrightarrow> chunk_run cfg (d, avail) s = Finished n bs
     \<longleftrightarrow> cd_remaining d \<le> length s \<and> cd_remaining d \<le> avail
       \<and> (\<exists>n' bs'. chunk_run cfg (d\<lparr>cd_remaining := 0, cd_phase := CHUNK_TRAIL_CR\<rparr>, avail - cd_remaining d)
             (drop (cd_remaining d) s) = Finished n' bs'
           \<and> n = cd_remaining d + n' \<and> bs = take (cd_remaining d) s @ bs')"
  by (subst chunk_run_eq) (auto simp: wf_decoder_def chunk_step_phase(2))

text \<open>A chunk behind its size line: its payload, a line end, and the rest.\<close>

lemma run_chunk_Finished:
  assumes "cd_phase d = CHUNK_SIZE" "0 < v"
  shows "chunk_run cfg (d\<lparr>cd_remaining := v, cd_phase := CHUNK_DATA\<rparr>, avail) r = Finished k bs \<longleftrightarrow>
    v \<le> avail \<and> (\<exists>p r' n' bs'. length p = v \<and> r = p @ crlf @ r'
      \<and> chunk_run cfg (d\<lparr>cd_remaining := 0\<rparr>, avail - v) r' = Finished n' bs' \<and> k = v + 2 + n' \<and> bs = p @ bs')"
    (is "?L \<longleftrightarrow> ?R")
proof
  have d: "d\<lparr>cd_remaining := 0, cd_phase := CHUNK_SIZE\<rparr> = d\<lparr>cd_remaining := 0\<rparr>" using assms(1) by (cases d) simp
  show ?R if ?L
  proof -
    from that obtain r' k' bs' where r: "v \<le> length r" "v \<le> avail" "drop v r = crlf @ r'"
      "chunk_run cfg (d\<lparr>cd_remaining := 0\<rparr>, avail - v) r' = Finished k' bs'"
      "k = v + 2 + k'" "bs = take v r @ bs'"
      using assms(2) by (auto simp: run_data_Finished run_cr_Finished run_lf_Finished d)
    then have "r = take v r @ crlf @ r'" "length (take v r) = v" by (metis append_take_drop_id, simp)
    with r show ?R by blast
  qed
  show ?L if ?R
    using that assms(2) by (auto simp: run_data_Finished run_cr_Finished run_lf_Finished d)
qed

lemma run_size_Finished:
  assumes "cd_phase d = CHUNK_SIZE"
  shows "chunk_run cfg (d, avail) s = Finished n bs \<longleftrightarrow> (\<exists>l r v. crlf_split s = Some (l, r) \<and> chunk_size cfg l = Inr v
     \<and> (if v = 0 then (\<exists>r'. r = crlf @ r' \<and> n = length l + 4 \<and> bs = [])
        else v \<le> avail \<and> (\<exists>p r' n' bs'. length p = v \<and> r = p @ crlf @ r'
          \<and> chunk_run cfg (d\<lparr>cd_remaining := 0\<rparr>, avail - v) r' = Finished n' bs'
          \<and> n = length l + v + 4 + n' \<and> bs = p @ bs')))"
proof (cases "crlf_split s")
  case None
  with assms show ?thesis by (subst chunk_run_eq) (simp_all add: wf_decoder_def chunk_step_phase)
next
  case (Some lr)
  then obtain l r where lr: "crlf_split s = Some (l, r)" by (cases lr) simp
  then have s: "s = l @ crlf @ r" by (rule crlf_split_parts)
  have wf: "wf_decoder d" using assms by (simp add: wf_decoder_def)
  show ?thesis
  proof (cases "chunk_size cfg l")
    case (Inl st)
    with assms lr show ?thesis by (simp add: chunk_run_eq [OF wf] chunk_step_phase)
  next
    case (Inr v)
    show ?thesis
    proof (cases "v = 0")
      case True
      then have "chunk_run cfg (d, avail) s = after (length l + 2) []
          (chunk_run cfg (d\<lparr>cd_phase := CHUNK_TRAILER\<rparr>, avail) r)"
        using assms lr Inr s by (simp add: chunk_run_eq [OF wf] chunk_step_phase)
      with True lr Inr show ?thesis by (auto simp: run_trailer_Finished)
    next
      case False
      let ?d = "d\<lparr>cd_remaining := v, cd_phase := CHUNK_DATA\<rparr>"
      have run: "chunk_run cfg (d, avail) s = after (length l + 2) [] (chunk_run cfg (?d, avail) r)"
        using assms lr Inr s False by (cases v) (simp_all add: chunk_run_eq [OF wf] chunk_step_phase)
      note data = run_chunk_Finished [OF assms, of v cfg avail r]
      have "chunk_run cfg (d, avail) s = Finished n bs \<longleftrightarrow>
          (\<exists>k. chunk_run cfg (?d, avail) r = Finished k bs \<and> n = length l + 2 + k)"
        unfolding run by auto
      also have "\<dots> \<longleftrightarrow> v \<le> avail \<and> (\<exists>p r' n' bs'. length p = v \<and> r = p @ crlf @ r'
          \<and> chunk_run cfg (d\<lparr>cd_remaining := 0\<rparr>, avail - v) r' = Finished n' bs'
          \<and> n = length l + v + 4 + n' \<and> bs = p @ bs')"
        using False by (simp add: data ex_simps [symmetric] del: ex_simps) (safe; force)
      finally show ?thesis using lr Inr False by simp
    qed
  qed
qed

text \<open>The decoder finishes exactly on a chunked body, whose payloads it has written.\<close>

lemma chunk_run_chunked_text:
  assumes "cd_phase d = CHUNK_SIZE" "list_all (chunk_wf cfg) cs" "size_line_ok cfg l 0" "length (payload cs) \<le> avail"
  shows "chunk_run cfg (d, avail) (chunked_text cs l @ rest) = Finished (length (chunked_text cs l)) (payload cs)"
  using assms
proof (induction cs arbitrary: d avail)
  case Nil
  then have "crlf_split (chunked_text [] l @ rest) = Some (l, crlf @ rest)" "chunk_size cfg l = Inr 0"
    using crlf_split_append [of "l @ crlf" l "[]" "crlf @ rest"] by (simp_all add: size_line_ok_def chunked_text_def)
  then show ?case unfolding run_size_Finished [OF Nil.prems(1)] by (auto simp: chunked_text_def payload_def)
next
  case (Cons c cs)
  obtain l1 p where c: "c = (l1, p)" by (cases c)
  define r' where "r' = chunked_text cs l @ rest"
  have wf: "p \<noteq> []" "size_line_ok cfg l1 (length p)" "list_all (chunk_wf cfg) cs"
    using Cons.prems(2) by (simp_all add: c chunk_wf_def [of cfg "(l1, p)"])
  have s: "chunked_text (c # cs) l @ rest = l1 @ crlf @ p @ crlf @ r'"
    by (simp add: c r'_def chunked_text_def chunk_text_def)
  have "chunk_run cfg (d\<lparr>cd_remaining := 0\<rparr>, avail - length p) r' = Finished (length (chunked_text cs l)) (payload cs)"
    using Cons.IH [of "d\<lparr>cd_remaining := 0\<rparr>" "avail - length p"] Cons.prems wf(3) c by (simp add: r'_def payload_def)
  moreover have "crlf_split (chunked_text (c # cs) l @ rest) = Some (l1, p @ crlf @ r')" "chunk_size cfg l1 = Inr (length p)"
    using wf(2) s crlf_split_append [of "l1 @ crlf" l1 "[]" "p @ crlf @ r'"] by (simp_all add: size_line_ok_def)
  ultimately show ?case unfolding run_size_Finished [OF Cons.prems(1)] using wf(1) Cons.prems(4) c
    by (intro exI [of _ l1] exI [of _ "p @ crlf @ r'"] exI [of _ "length p"])
      (auto simp: chunked_text_def chunk_text_def payload_def)
qed

lemma chunk_run_Finished_text:
  assumes "cd_phase d = CHUNK_SIZE" "chunk_run cfg (d, avail) s = Finished n bs"
  shows "\<exists>cs l rest. list_all (chunk_wf cfg) cs \<and> size_line_ok cfg l 0 \<and> s = chunked_text cs l @ rest
     \<and> n = length (chunked_text cs l) \<and> bs = payload cs \<and> length (payload cs) \<le> avail"
  using assms
proof (induction "length s" arbitrary: d avail s n bs rule: less_induct)
  case less
  from less.prems(2) obtain l r v where lr: "crlf_split s = Some (l, r)" "chunk_size cfg l = Inr v"
    and cont: "if v = 0 then (\<exists>r'. r = crlf @ r' \<and> n = length l + 4 \<and> bs = [])
      else v \<le> avail \<and> (\<exists>p r' n' bs'. length p = v \<and> r = p @ crlf @ r'
        \<and> chunk_run cfg (d\<lparr>cd_remaining := 0\<rparr>, avail - v) r' = Finished n' bs'
        \<and> n = length l + v + 4 + n' \<and> bs = p @ bs')"
    unfolding run_size_Finished [OF less.prems(1)] by blast
  from lr have line: "size_line_ok cfg l v" "s = l @ crlf @ r"
    by (auto simp: size_line_ok_def crlf_split_line [of s])
  show ?case
  proof (cases "v = 0")
    case True
    with cont obtain r' where "r = crlf @ r'" "n = length l + 4" "bs = []" by auto
    with True line show ?thesis
      by (intro exI [of _ "[]"] exI [of _ l] exI [of _ r']) (auto simp: chunked_text_def payload_def)
  next
    case False
    with cont obtain p r' n' bs' where c: "v \<le> avail" "length p = v" "r = p @ crlf @ r'"
      "chunk_run cfg (d\<lparr>cd_remaining := 0\<rparr>, avail - v) r' = Finished n' bs'"
      "n = length l + v + 4 + n'" "bs = p @ bs'" by auto
    have "length r' < length s" "cd_phase (d\<lparr>cd_remaining := 0\<rparr>) = CHUNK_SIZE"
      using line(2) c(3) less.prems by simp_all
    from less.hyps [OF this c(4)] obtain cs l' rest where
      cs: "list_all (chunk_wf cfg) cs" "size_line_ok cfg l' 0" "r' = chunked_text cs l' @ rest"
      "n' = length (chunked_text cs l')" "bs' = payload cs" "length (payload cs) \<le> avail - v" by blast
    have "chunk_wf cfg (l, p)" using line(1) c(2) False by (auto simp: chunk_wf_def)
    then show ?thesis using cs c line(2)
      by (intro exI [of _ "(l, p) # cs"] exI [of _ l'] exI [of _ rest])
        (auto simp: chunked_text_def chunk_text_def payload_def)
  qed
qed

lemma chunk_run_Finished_iff:
  assumes "cd_phase d = CHUNK_SIZE"
  shows "chunk_run cfg (d, avail) s = Finished n bs \<longleftrightarrow>
    (\<exists>cs l rest. list_all (chunk_wf cfg) cs \<and> size_line_ok cfg l 0 \<and> s = chunked_text cs l @ rest
       \<and> n = length (chunked_text cs l) \<and> bs = payload cs \<and> length (payload cs) \<le> avail)"
  using chunk_run_Finished_text [OF assms] chunk_run_chunked_text [OF assms] by blast

end
