(* ===== verification/Response.thy ===== *)
theory Response
  imports Text_Format Chunked World
begin

text \<open>
  \<open>src/HttpResponse.c\<close>: building a response, serializing it into a buffer, sending a buffer in
  pieces, and the frames of a chunked response.  \<open>response_text\<close> is the text a response stands for;
  \<open>response_serialize_spec\<close> shows that exactly this text is written when it fits.
\<close>

subsection \<open>Responses\<close>

record response_header =
  rhd_key :: string
  rhd_value :: string

text \<open>
  A stream is a context and two function pointers, \<open>None\<close> for \<open>NULL\<close>.  \<open>pull\<close> is called with the
  context and the room for bytes; its result is the bytes it stored, or \<open>None\<close> for a negative one.
\<close>

record 'u stream =
  st_ctx :: nat
  st_pull :: "(nat \<Rightarrow> nat \<Rightarrow> 'u world \<Rightarrow> string option \<times> 'u world) option"
  st_cleanup :: "(nat \<Rightarrow> 'u world \<Rightarrow> 'u world) option"

definition stream_zero :: "'u stream" where
  "stream_zero = \<lparr> st_ctx = 0, st_pull = None, st_cleanup = None \<rparr>"

text \<open>The union \<open>body\<close> and its tag \<open>kind\<close>.\<close>

datatype 'u body = BODY_NONE | BODY_BUFFER http_buffer | BODY_STREAM "'u stream"

record 'u response =
  rs_status :: int
  rs_reason :: string
  rs_headers :: "response_header list"
  rs_body :: "'u body"
  rs_head_only :: bool

definition response_none :: "int \<Rightarrow> string \<Rightarrow> response_header list \<Rightarrow> 'u response" where
  "response_none st reason hs =
     \<lparr> rs_status = st, rs_reason = reason, rs_headers = hs, rs_body = BODY_NONE, rs_head_only = False \<rparr>"

definition response_buffer :: "int \<Rightarrow> string \<Rightarrow> mem option \<Rightarrow> nat \<Rightarrow> response_header list \<Rightarrow> 'u response" where
  "response_buffer st reason body len hs =
     \<lparr> rs_status = st, rs_reason = reason, rs_headers = hs,
       rs_body = BODY_BUFFER \<lparr> hb_cap = len, hb_size = len, hb_bytes = body \<rparr>, rs_head_only = False \<rparr>"

definition response_stream :: "int \<Rightarrow> string \<Rightarrow> 'u stream \<Rightarrow> response_header list \<Rightarrow> 'u response" where
  "response_stream st reason s hs =
     \<lparr> rs_status = st, rs_reason = reason, rs_headers = hs, rs_body = BODY_STREAM s, rs_head_only = False \<rparr>"

text \<open>A response with a string literal as its body; \<open>sizeof\<close> counts the terminator of the literal.\<close>

definition response_literal :: "int \<Rightarrow> string \<Rightarrow> response_header list \<Rightarrow> 'u response" where
  "response_literal st reason hs = response_buffer st reason (Some (reason @ [NUL])) (length reason + 1) hs"

definition response_error_from_status :: "parse_status \<Rightarrow> 'u response" where
  "response_error_from_status s = (case s of
     PARSE_BAD_REQUEST \<Rightarrow> response_literal 400 ''Bad Request'' []
   | PARSE_PAYLOAD_TOO_LARGE \<Rightarrow> response_literal 413 ''Payload Too Large'' []
   | PARSE_URI_TOO_LONG \<Rightarrow> response_literal 414 ''URI Too Long'' []
   | PARSE_HEADER_KEY_TOO_LONG \<Rightarrow> response_literal 431 ''Request Header Fields Too Large'' []
   | PARSE_HEADER_VALUE_TOO_LONG \<Rightarrow> response_literal 431 ''Request Header Fields Too Large'' []
   | PARSE_HEADER_TOO_LONG \<Rightarrow> response_literal 431 ''Request Header Fields Too Large'' []
   | PARSE_NOT_IMPLEMENTED \<Rightarrow> response_literal 501 ''Not Implemented'' []
   | PARSE_VERSION_NOT_SUPPORTED \<Rightarrow> response_literal 505 ''HTTP Version Not Supported'' []
   | PARSE_NOT_FOUND \<Rightarrow> response_literal 404 ''Not Found'' []
   | _ \<Rightarrow> response_literal 500 ''Internal Server Error'' [])"

text \<open>
  The methods are appended to the text in a buffer of \<open>cap\<close> bytes, which holds \<open>text\<close> and its
  terminator; \<open>first\<close> is the test \<open>i = 0\<close>.
\<close>

fun allow_append :: "nat \<Rightarrow> string list \<Rightarrow> bool \<Rightarrow> string \<Rightarrow> string" where
  "allow_append cap [] first text = text"
| "allow_append cap (m # ms) first text =
     (let text = (if first then text else strncat text '', '' (cap - length text - 1));
          text = strncat text m (cap - length text - 1)
      in allow_append cap ms False text)"

definition response_error_405 :: "string list \<Rightarrow> nat \<Rightarrow> 'u response" where
  "response_error_405 allowed cap =
     response_literal 405 ''Method Not Allowed''
       [\<lparr> rhd_key = ''Allow'', rhd_value = allow_append cap allowed True [] \<rparr>]"

subsection \<open>Serialization\<close>

text \<open>
  The writers below write at offset \<open>at\<close> of the buffer \<open>m\<close>, where \<open>cap\<close> bytes may be written.  The
  inner \<open>None\<close> is the result \<open>-1\<close>.
\<close>

definition response_header_write :: "mem \<Rightarrow> nat \<Rightarrow> nat \<Rightarrow> response_header \<Rightarrow> (nat option \<times> mem) option" where
  "response_header_write m at cap h = do {
     (written, m) \<leftarrow> snprintf m at cap (rhd_key h @ '': '' @ rhd_value h @ crlf);
     Some (if written \<ge> cap then None else Some written, m)
   }"

definition response_current_time_write :: "int option \<Rightarrow> mem \<Rightarrow> nat \<Rightarrow> nat \<Rightarrow> (nat \<times> mem) option" where
  "response_current_time_write now m at cap = (case now of
     None \<Rightarrow> Some (0, m)
   | Some t \<Rightarrow> strftime m at cap (''Date: '' @ http_date_text (gmtime t) @ crlf))"

definition connection_line :: "bool \<Rightarrow> string" where
  "connection_line keep_alive = (if keep_alive then ''Connection: keep-alive'' @ crlf else ''Connection: close'' @ crlf)"

definition response_header_connection_write :: "mem \<Rightarrow> nat \<Rightarrow> nat \<Rightarrow> bool \<Rightarrow> (nat option \<times> mem) option" where
  "response_header_connection_write m at cap keep_alive = (let h = connection_line keep_alive in
     if length h > cap then Some (None, m) else do {
       m \<leftarrow> blit m at h;
       Some (Some (length h), m)
     })"

text \<open>The header loop: the offset after the lines and whether one of them is \<open>Content-Length\<close>.\<close>

fun response_headers_loop :: "response_header list \<Rightarrow> mem \<Rightarrow> nat \<Rightarrow> nat \<Rightarrow> bool
    \<Rightarrow> ((nat \<times> bool) option \<times> mem) option" where
  "response_headers_loop [] m offset cap saw = Some (Some (offset, saw), m)"
| "response_headers_loop (h # hs) m offset cap saw = do {
     (written, m) \<leftarrow> response_header_write m offset (cap - offset) h;
     case written of
       None \<Rightarrow> Some (None, m)
     | Some n \<Rightarrow> response_headers_loop hs m (offset + n) cap
         (if ascii_ieq (rhd_key h) ''content-length'' then True else saw)
   }"

definition blank_line_write :: "mem \<Rightarrow> nat \<Rightarrow> nat \<Rightarrow> (nat option \<times> mem) option" where
  "blank_line_write m offset cap = (if offset + 2 \<ge> cap then Some (None, m) else do {
     m \<leftarrow> blit m offset crlf;
     Some (Some (offset + 2), m)
   })"

text \<open>The arms of the switch over \<open>kind\<close>.\<close>

definition buffer_body_write :: "http_buffer \<Rightarrow> bool \<Rightarrow> bool \<Rightarrow> mem \<Rightarrow> nat \<Rightarrow> nat \<Rightarrow> (nat option \<times> mem) option" where
  "buffer_body_write body saw head_only m offset cap = do {
     (cl, m) \<leftarrow> (if \<not> saw \<and> hb_size body > 0 then do {
         (written, m) \<leftarrow> snprintf m offset (cap - offset) (''Content-Length: '' @ show_nat (hb_size body) @ crlf);
         Some (if written \<ge> cap - offset then None else Some (offset + written), m)
       } else Some (Some offset, m));
     case cl of None \<Rightarrow> Some (None, m) | Some offset \<Rightarrow> do {
       (blank, m) \<leftarrow> blank_line_write m offset cap;
       case blank of None \<Rightarrow> Some (None, m) | Some offset \<Rightarrow>
         (case hb_bytes body of
            None \<Rightarrow> Some (Some offset, m)
          | Some bs \<Rightarrow> if head_only \<or> hb_size body = 0 then Some (Some offset, m)
              else if offset + hb_size body > cap then Some (None, m)
              else do {
                data \<leftarrow> rd_range bs 0 (hb_size body);
                m \<leftarrow> blit m offset data;
                Some (Some (offset + hb_size body), m)
              })
     }
   }"

definition transfer_encoding_chunked :: string where
  "transfer_encoding_chunked = ''Transfer-Encoding: chunked'' @ crlf"

definition stream_head_write :: "mem \<Rightarrow> nat \<Rightarrow> nat \<Rightarrow> (nat option \<times> mem) option" where
  "stream_head_write m offset cap = (let len = length transfer_encoding_chunked in
     if offset + len > cap then Some (None, m) else do {
       m \<leftarrow> blit m offset transfer_encoding_chunked;
       blank_line_write m (offset + len) cap
     })"

definition response_serialize :: "int option \<Rightarrow> 'u response \<Rightarrow> mem \<Rightarrow> nat \<Rightarrow> bool \<Rightarrow> (nat option \<times> mem) option" where
  "response_serialize now resp m cap keep_alive = do {
     (written, m) \<leftarrow> snprintf m 0 cap (''HTTP/1.1 '' @ show_int (rs_status resp) @ '' '' @ rs_reason resp @ crlf);
     if written > cap then Some (None, m) else do {
       let offset = written;
       (time_written, m) \<leftarrow> response_current_time_write now m offset (cap - offset);
       if time_written = 0 then Some (None, m) else do {
         let offset = offset + time_written;
         (headers, m) \<leftarrow> response_headers_loop (rs_headers resp) m offset cap False;
         case headers of None \<Rightarrow> Some (None, m) | Some (offset, saw) \<Rightarrow> do {
           (conn, m) \<leftarrow> response_header_connection_write m offset (cap - offset) keep_alive;
           case conn of None \<Rightarrow> Some (None, m) | Some written \<Rightarrow>
             if written \<ge> cap - offset then Some (None, m) else
             (let offset = offset + written in
              case rs_body resp of
                BODY_BUFFER body \<Rightarrow> buffer_body_write body saw (rs_head_only resp) m offset cap
              | BODY_NONE \<Rightarrow> blank_line_write m offset cap
              | BODY_STREAM s \<Rightarrow> stream_head_write m offset cap)
         }
       }
     }
   }"

text \<open>
  \<open>response_error_serialize\<close> stores the result in \<open>size\<close>, a \<open>size_t\<close>: a failure becomes \<open>2 ^ 64 - 1\<close>.
\<close>

definition response_error_serialize :: "int option \<Rightarrow> http_buffer \<Rightarrow> parse_status \<Rightarrow> http_buffer option" where
  "response_error_serialize now resp s = do {
     m \<leftarrow> hb_bytes resp;
     (r, m) \<leftarrow> response_serialize now (response_error_from_status s :: unit response) m (hb_cap resp) False;
     Some (resp\<lparr>hb_size := (case r of Some n \<Rightarrow> n | None \<Rightarrow> 2 ^ 64 - 1), hb_bytes := Some m\<rparr>)
   }"

subsection \<open>Sending\<close>

datatype send_status = SEND_OK | SEND_PEER_CLOSED | SEND_HAS_MORE | SEND_ERROR

text \<open>\<open>sent\<close> is the cursor of \<open>SendSt\<close>.\<close>

definition response_send :: "int \<Rightarrow> http_buffer \<Rightarrow> nat \<Rightarrow> net \<Rightarrow> (send_status \<times> nat \<times> net) option" where
  "response_send fd resp sent net = do {
     m \<leftarrow> hb_bytes resp;
     require (0 \<le> fd);
     require (sent < hb_size resp);
     bs \<leftarrow> rd_range m sent (hb_size resp - sent);
     let (r, net) = send net bs in
     case r of
       Inr e \<Rightarrow> if e = EAGAIN \<or> e = EINTR then Some (SEND_HAS_MORE, sent, net)
         else if e = EPIPE \<or> e = ECONNRESET then Some (SEND_PEER_CLOSED, sent, net)
         else Some (SEND_ERROR, sent, net)
     | Inl k \<Rightarrow> let sent = sent + k in
         Some (if sent = hb_size resp then SEND_OK else SEND_HAS_MORE, sent, net)
   }"

subsection \<open>Frames\<close>

definition chunk_frame :: "string \<Rightarrow> nat \<Rightarrow> mem \<Rightarrow> nat \<Rightarrow> (nat option \<times> mem) option" where
  "chunk_frame data len out out_cap = do {
     (n, out) \<leftarrow> snprintf out 0 out_cap (show_hex len @ crlf);
     if n \<ge> out_cap then Some (None, out)
     else if n + len + 2 > out_cap then Some (None, out)
     else do {
       bs \<leftarrow> rd_range data 0 len;
       out \<leftarrow> blit out n bs;
       out \<leftarrow> blit out (n + len) [CR];
       out \<leftarrow> blit out (n + len + 1) [LF];
       Some (Some (n + len + 2), out)
     }
   }"

definition chunk_frame_last :: "mem \<Rightarrow> nat \<Rightarrow> (nat option \<times> mem) option" where
  "chunk_frame_last out out_cap = (if out_cap < 5 then Some (None, out) else do {
     out \<leftarrow> blit out 0 (''0'' @ crlf @ crlf);
     Some (Some 5, out)
   })"

subsection \<open>The text of a response\<close>

definition start_line :: "'u response \<Rightarrow> string" where
  "start_line resp = ''HTTP/1.1 '' @ show_int (rs_status resp) @ '' '' @ rs_reason resp @ crlf"

definition date_line :: "int \<Rightarrow> string" where
  "date_line t = ''Date: '' @ http_date_text (gmtime t) @ crlf"

definition header_line :: "response_header \<Rightarrow> string" where
  "header_line h = rhd_key h @ '': '' @ rhd_value h @ crlf"

definition has_content_length :: "response_header list \<Rightarrow> bool" where
  "has_content_length hs \<longleftrightarrow> (\<exists>h \<in> set hs. map tolower (rhd_key h) = ''content-length'')"

text \<open>How the body is framed: the header line the serializer adds for it.\<close>

definition framing_line :: "'u response \<Rightarrow> string" where
  "framing_line resp = (case rs_body resp of
     BODY_NONE \<Rightarrow> []
   | BODY_BUFFER b \<Rightarrow> if \<not> has_content_length (rs_headers resp) \<and> hb_size b > 0
       then ''Content-Length: '' @ show_nat (hb_size b) @ crlf else []
   | BODY_STREAM s \<Rightarrow> transfer_encoding_chunked)"

definition response_head :: "int \<Rightarrow> 'u response \<Rightarrow> bool \<Rightarrow> string" where
  "response_head t resp keep_alive = start_line resp @ date_line t @ concat (map header_line (rs_headers resp))
     @ connection_line keep_alive @ framing_line resp @ crlf"

definition response_body :: "'u response \<Rightarrow> string" where
  "response_body resp = (case rs_body resp of
     BODY_BUFFER b \<Rightarrow> if rs_head_only resp then [] else live b
   | _ \<Rightarrow> [])"

definition response_text :: "int \<Rightarrow> 'u response \<Rightarrow> bool \<Rightarrow> string" where
  "response_text t resp keep_alive = response_head t resp keep_alive @ response_body resp"

text \<open>The bytes of a body buffer exist.\<close>

definition wf_response :: "'u response \<Rightarrow> bool" where
  "wf_response resp \<longleftrightarrow> (case rs_body resp of
     BODY_BUFFER b \<Rightarrow> (case hb_bytes b of None \<Rightarrow> True | Some bs \<Rightarrow> hb_size b \<le> length bs)
   | _ \<Rightarrow> True)"

subsection \<open>Writing behind what is written\<close>

definition starts :: "mem \<Rightarrow> string \<Rightarrow> bool" where
  "starts m s \<longleftrightarrow> take (length s) m = s"

lemma starts_Nil [simp]: "starts m []"
  by (simp add: starts_def)

lemma starts_le: "starts m s \<Longrightarrow> length s \<le> length m"
  by (metis starts_def length_take min.cobounded1)

lemma blit_starts:
  assumes "starts m s" "length s + length t \<le> length m"
  obtains m' where "blit m (length s) t = Some m'" "length m' = length m" "starts m' (s @ t)"
proof
  show "blit m (length s) t = Some (take (length s) m @ t @ drop (length s + length t) m)"
    using assms(2) by (rule blit_in)
  show "length (take (length s) m @ t @ drop (length s + length t) m) = length m" using assms(2) by simp
  show "starts (take (length s) m @ t @ drop (length s + length t) m) (s @ t)"
    using assms by (simp add: starts_def)
qed

lemma starts_prefix: "starts m (s @ t) \<Longrightarrow> starts m s"
  unfolding starts_def by (drule arg_cong [where f = "take (length s)"]) simp

lemma snprintf_starts:
  assumes "starts m s" "length s + cap \<le> length m"
  obtains m' where "snprintf m (length s) cap t = Some (length t, m')" "length m' = length m"
    "length t < cap \<longrightarrow> starts m' (s @ t)"
proof (cases "cap = 0")
  case True
  then show thesis by (intro that [of m]) (simp_all add: snprintf_def)
next
  case False
  let ?u = "take (cap - 1) t @ [NUL]"
  have "length s + length ?u \<le> length m" using assms(2) False by simp
  with assms(1) obtain m' where m': "blit m (length s) ?u = Some m'" "length m' = length m" "starts m' (s @ ?u)"
    by (rule blit_starts)
  show thesis
  proof (rule that [of m'])
    show "snprintf m (length s) cap t = Some (length t, m')" using False m'(1) by (simp add: snprintf_def)
    show "length m' = length m" by (rule m')
    have "starts m' (s @ t)" if "length t < cap"
    proof -
      from that have "?u = t @ [NUL]" by simp
      with m'(3) have "starts m' ((s @ t) @ [NUL])" by simp
      then show ?thesis by (rule starts_prefix)
    qed
    then show "length t < cap \<longrightarrow> starts m' (s @ t)" ..
  qed
qed

lemma strftime_starts:
  assumes "starts m s" "length s + cap \<le> length m"
  obtains m' where "strftime m (length s) cap t = Some (if length t < cap then length t else 0, m')"
    "length m' = length m" "length t < cap \<longrightarrow> starts m' (s @ t)"
proof (cases "length t < cap")
  case False
  then show thesis by (intro that [of m]) (simp_all add: strftime_def)
next
  case True
  then have "length s + length (t @ [NUL]) \<le> length m" using assms(2) by simp
  with assms(1) obtain m' where m': "blit m (length s) (t @ [NUL]) = Some m'" "length m' = length m"
      "starts m' (s @ t @ [NUL])"
    by (rule blit_starts)
  then have "starts m' (s @ t)" using starts_prefix [of m' "s @ t" "[NUL]"] by simp
  with m' True show thesis by (intro that [of m']) (simp_all add: strftime_def)
qed

subsection \<open>The serializer writes the text\<close>

text \<open>A writer adds \<open>t\<close> behind \<open>s\<close> or fails, and stays inside the buffer.\<close>

definition writes :: "mem \<Rightarrow> string \<Rightarrow> string \<Rightarrow> bool \<Rightarrow> 'r \<Rightarrow> ('r option \<times> mem) option \<Rightarrow> bool" where
  "writes m s t ok r res \<longleftrightarrow> (\<exists>m'. res = Some (if ok then Some r else None, m') \<and> length m' = length m
     \<and> (ok \<longrightarrow> starts m' (s @ t)))"

lemma writesI: "res = Some (if ok then Some r else None, m') \<Longrightarrow> length m' = length m \<Longrightarrow>
    (ok \<Longrightarrow> starts m' (s @ t)) \<Longrightarrow> writes m s t ok r res"
  by (auto simp: writes_def)

lemma writesE:
  assumes "writes m s t ok r res"
  obtains m' where "res = Some (if ok then Some r else None, m')" "length m' = length m"
    "ok \<longrightarrow> starts m' (s @ t)"
  using assms by (auto simp: writes_def)

lemma response_header_write_line:
  "response_header_write m at cap h = do {
     (written, m) \<leftarrow> snprintf m at cap (header_line h);
     Some (if written \<ge> cap then None else Some written, m)
   }"
  by (simp only: response_header_write_def header_line_def)

lemma response_header_write_spec:
  assumes "starts m s" "length s \<le> cap" "cap \<le> length m"
  shows "writes m s (header_line h) (length s + length (header_line h) < cap) (length (header_line h))
    (response_header_write m (length s) (cap - length s) h)"
proof -
  have "length s + (cap - length s) \<le> length m" using assms by simp
  from snprintf_starts [OF assms(1) this, of "header_line h"] obtain m' where
    "snprintf m (length s) (cap - length s) (header_line h) = Some (length (header_line h), m')"
    "length m' = length m" "length (header_line h) < cap - length s \<longrightarrow> starts m' (s @ header_line h)" .
  then show ?thesis using assms(2)
    by (intro writesI [of _ _ _ m']) (auto simp: response_header_write_line)
qed

lemma response_headers_loop_spec:
  assumes "starts m s" "length s \<le> cap" "cap \<le> length m"
  shows "writes m s (concat (map header_line hs)) (hs = [] \<or> length s + length (concat (map header_line hs)) < cap)
    (length s + length (concat (map header_line hs)), saw \<or> has_content_length hs)
    (response_headers_loop hs m (length s) cap saw)"
  using assms
proof (induction hs arbitrary: m s saw)
  case Nil
  then show ?case by (intro writesI [of _ _ _ m]) (simp_all add: has_content_length_def)
next
  case (Cons h hs)
  let ?h = "header_line h"
  from response_header_write_spec [OF Cons.prems, of h] obtain m1 where
    w: "response_header_write m (length s) (cap - length s) h
        = Some (if length s + length ?h < cap then Some (length ?h) else None, m1)"
      "length m1 = length m" "length s + length ?h < cap \<longrightarrow> starts m1 (s @ ?h)" by (rule writesE)
  show ?case
  proof (cases "length s + length ?h < cap")
    case False
    with w show ?thesis by (intro writesI [of _ _ _ m1]) auto
  next
    case True
    have saw: "(if ascii_ieq (rhd_key h) ''content-length'' then True else saw) \<or> has_content_length hs
        \<longleftrightarrow> saw \<or> has_content_length (h # hs)"
      by (auto simp: has_content_length_def ascii_ieq_iff tolower_def isupper_def ord_def)
    from True Cons.prems w(2) have "length (s @ ?h) \<le> cap" "cap \<le> length m1" by simp_all
    from Cons.IH [OF w(3) [rule_format, OF True] this, of "if ascii_ieq (rhd_key h) ''content-length'' then True else saw"]
    have "writes m1 (s @ ?h) (concat (map header_line hs)) (hs = [] \<or> length s + length (concat (map header_line (h # hs))) < cap)
        (length s + length (concat (map header_line (h # hs))), saw \<or> has_content_length (h # hs))
        (response_headers_loop hs m1 (length s + length ?h) cap (if ascii_ieq (rhd_key h) ''content-length'' then True else saw))"
      unfolding saw by (simp add: add.assoc)
    then obtain m2 where m2: "response_headers_loop hs m1 (length s + length ?h) cap
          (if ascii_ieq (rhd_key h) ''content-length'' then True else saw)
        = Some (if hs = [] \<or> length s + length (concat (map header_line (h # hs))) < cap
            then Some (length s + length (concat (map header_line (h # hs))), saw \<or> has_content_length (h # hs)) else None, m2)"
      "length m2 = length m1"
      "hs = [] \<or> length s + length (concat (map header_line (h # hs))) < cap \<longrightarrow> starts m2 ((s @ ?h) @ concat (map header_line hs))"
      by (rule writesE)
    have ok: "hs = [] \<or> length s + length (concat (map header_line (h # hs))) < cap
        \<longleftrightarrow> h # hs = [] \<or> length s + length (concat (map header_line (h # hs))) < cap"
      using True by auto
    show ?thesis
      using m2 w(1,2) True unfolding ok [symmetric] by (intro writesI [of _ _ _ m2]) auto
  qed
qed

lemma connection_write_spec:
  assumes "starts m s" "length s \<le> cap" "cap \<le> length m"
  obtains m' where "response_header_connection_write m (length s) (cap - length s) ka
      = Some (if length s + length (connection_line ka) \<le> cap then Some (length (connection_line ka)) else None, m')"
    "length m' = length m" "length s + length (connection_line ka) \<le> cap \<longrightarrow> starts m' (s @ connection_line ka)"
proof (cases "length s + length (connection_line ka) \<le> cap")
  case True
  then have "length s + length (connection_line ka) \<le> length m" using assms(3) by simp
  with assms(1) obtain m' where "blit m (length s) (connection_line ka) = Some m'" "length m' = length m"
    "starts m' (s @ connection_line ka)" by (rule blit_starts)
  with True show thesis by (intro that [of m']) (simp_all add: response_header_connection_write_def Let_def)
next
  case False
  then have "cap - length s < length (connection_line ka)" using assms(2) by simp
  with False show thesis by (intro that [of m]) (simp_all add: response_header_connection_write_def Let_def)
qed

lemma blank_line_write_spec:
  assumes "starts m s" "cap \<le> length m"
  shows "writes m s crlf (length s + 2 < cap) (length s + 2) (blank_line_write m (length s) cap)"
proof (cases "length s + 2 < cap")
  case True
  then have "length s + length crlf \<le> length m" using assms(2) by simp
  with assms(1) obtain m' where "blit m (length s) crlf = Some m'" "length m' = length m" "starts m' (s @ crlf)"
    by (rule blit_starts)
  with True show ?thesis by (intro writesI [of _ _ _ m']) (simp_all add: blank_line_write_def)
qed (simp add: writes_def blank_line_write_def)


text \<open>The line \<open>Content-Length\<close> is written unless a header has it or the body is empty.\<close>

definition length_line :: "bool \<Rightarrow> http_buffer \<Rightarrow> string" where
  "length_line saw b = (if \<not> saw \<and> hb_size b > 0 then ''Content-Length: '' @ show_nat (hb_size b) @ crlf else [])"

lemma length_line_write_spec:
  assumes "starts m s" "length s < cap" "cap \<le> length m"
  shows "writes m s (length_line saw b) (length s + length (length_line saw b) < cap) (length s + length (length_line saw b))
    (if \<not> saw \<and> hb_size b > 0 then do {
       (written, m) \<leftarrow> snprintf m (length s) (cap - length s) (''Content-Length: '' @ show_nat (hb_size b) @ crlf);
       Some (if written \<ge> cap - length s then None else Some (length s + written), m)
     } else Some (Some (length s), m))"
proof (cases "\<not> saw \<and> hb_size b > 0")
  case True
  then have line: "''Content-Length: '' @ show_nat (hb_size b) @ crlf = length_line saw b" by (simp only: length_line_def if_True simp_thms)
  have "length s + (cap - length s) \<le> length m" using assms by simp
  from snprintf_starts [OF assms(1) this, of "length_line saw b"] obtain m' where
    "snprintf m (length s) (cap - length s) (length_line saw b) = Some (length (length_line saw b), m')"
    "length m' = length m" "length (length_line saw b) < cap - length s \<longrightarrow> starts m' (s @ length_line saw b)" .
  then show ?thesis unfolding line using assms(2) True
    by (intro writesI [of _ _ _ m']) auto
next
  case False
  then show ?thesis using assms by (intro writesI [of _ _ _ m]) (auto simp: length_line_def)
qed

lemma writes_trans:
  assumes "writes m' (s @ t) u ok r res" "length m' = length m"
  shows "writes m s (t @ u) ok r res"
  using assms by (auto simp: writes_def)

lemma writes_fail: "res = Some (None, m') \<Longrightarrow> length m' = length m \<Longrightarrow> \<not> ok \<Longrightarrow> writes m s t ok r res"
  by (auto simp: writes_def)

text \<open>The last stage of \<open>buffer_body_write\<close>: the bytes of the body behind the head.\<close>

definition body_copy :: "http_buffer \<Rightarrow> bool \<Rightarrow> mem \<Rightarrow> nat \<Rightarrow> nat \<Rightarrow> (nat option \<times> mem) option" where
  "body_copy body head_only m offset cap = (case hb_bytes body of
     None \<Rightarrow> Some (Some offset, m)
   | Some bs \<Rightarrow> if head_only \<or> hb_size body = 0 then Some (Some offset, m)
       else if offset + hb_size body > cap then Some (None, m)
       else do {
         data \<leftarrow> rd_range bs 0 (hb_size body);
         m \<leftarrow> blit m offset data;
         Some (Some (offset + hb_size body), m)
       })"

lemma body_copy_spec:
  fixes head_only :: bool
  assumes "starts m h" "length h \<le> cap" "cap \<le> length m" and wf: "\<And>bs. hb_bytes b = Some bs \<Longrightarrow> hb_size b \<le> length bs"
  defines "body \<equiv> (if head_only then [] else live b)"
  shows "writes m h body (length h + length body \<le> cap) (length h + length body) (body_copy b head_only m (length h) cap)"
proof (cases "hb_bytes b = None \<or> head_only \<or> hb_size b = 0")
  case True
  then have "body = []" by (auto simp: body_def live_def split: option.splits)
  with True assms(1,2) show ?thesis by (intro writesI [of _ _ _ m]) (auto simp: body_copy_def split: option.splits)
next
  case False
  then obtain bs where bs: "hb_bytes b = Some bs" "\<not> head_only" "hb_size b \<noteq> 0" by auto
  then have body: "body = take (hb_size b) bs" "length body = hb_size b" using wf by (simp_all add: body_def live_def)
  show ?thesis
  proof (cases "length h + hb_size b \<le> cap")
    case no: False
    with bs body show ?thesis by (intro writes_fail [of _ m]) (simp_all add: body_copy_def)
  next
    case yes: True
    then have "length h + length body \<le> length m" using body assms(3) by simp
    with assms(1) obtain m' where m': "blit m (length h) body = Some m'" "length m' = length m" "starts m' (h @ body)"
      by (rule blit_starts)
    have "rd_range bs 0 (hb_size b) = Some body" using wf [OF bs(1)] body by (simp add: rd_range_def)
    with yes bs body m' show ?thesis by (intro writesI [of _ _ _ m']) (simp_all add: body_copy_def)
  qed
qed

lemma buffer_body_write_spec:
  fixes saw head_only :: bool and b :: http_buffer
  assumes "starts m s" "length s < cap" "cap \<le> length m"
    and wf: "\<And>bs. hb_bytes b = Some bs \<Longrightarrow> hb_size b \<le> length bs"
  defines "h \<equiv> s @ length_line saw b @ crlf" and "body \<equiv> (if head_only then [] else live b)"
  shows "writes m s (length_line saw b @ crlf @ body) (length h < cap \<and> length h + length body \<le> cap)
     (length h + length body) (buffer_body_write b saw head_only m (length s) cap)"
proof -
  let ?l = "length_line saw b"
  from length_line_write_spec [OF assms(1-3), of saw b] obtain m1 where m1:
    "(if \<not> saw \<and> hb_size b > 0 then do {
       (written, m) \<leftarrow> snprintf m (length s) (cap - length s) (''Content-Length: '' @ show_nat (hb_size b) @ crlf);
       Some (if written \<ge> cap - length s then None else Some (length s + written), m)
     } else Some (Some (length s), m))
     = Some (if length s + length ?l < cap then Some (length s + length ?l) else None, m1)"
    "length m1 = length m" "length s + length ?l < cap \<longrightarrow> starts m1 (s @ ?l)" by (rule writesE)
  note unf = buffer_body_write_def m1(1)
  show ?thesis
  proof (cases "length s + length ?l < cap")
    case False
    with m1(2) show ?thesis unfolding unf by (intro writesI [of _ _ _ m1]) (simp_all add: h_def)
  next
    case True
    have "cap \<le> length m1" using assms(3) m1(2) by simp
    from blank_line_write_spec [OF m1(3) [rule_format, OF True] this] obtain m2 where m2:
      "blank_line_write m1 (length s + length ?l) cap
        = Some (if length h < cap then Some (length h) else None, m2)"
      "length m2 = length m1" "length h < cap \<longrightarrow> starts m2 h"
      by (rule writesE) (simp add: h_def add.assoc)
    show ?thesis
    proof (cases "length h < cap")
      case False
      with True m1(2) m2 show ?thesis unfolding unf by (intro writesI [of _ _ _ m2]) simp_all
    next
      case fits: True
      then have st: "starts m2 h" using m2(3) by simp
      have cap2: "cap \<le> length m2" using assms(3) m1(2) m2(2) by simp
      have "buffer_body_write b saw head_only m (length s) cap = body_copy b head_only m2 (length h) cap"
        using True fits m2(1) unfolding unf by (simp add: body_copy_def)
      then have "writes m2 h body (length h + length body \<le> cap) (length h + length body)
          (buffer_body_write b saw head_only m (length s) cap)"
        using body_copy_spec [OF st _ cap2 wf, of head_only] fits by (simp add: body_def)
      from writes_trans [of m2 s "?l @ crlf", folded h_def, OF this] m1(2) m2(2) fits show ?thesis by simp
    qed
  qed
qed

lemma stream_head_write_spec:
  assumes "starts m s" "cap \<le> length m"
  shows "writes m s (transfer_encoding_chunked @ crlf) (length (s @ transfer_encoding_chunked @ crlf) < cap)
     (length (s @ transfer_encoding_chunked @ crlf)) (stream_head_write m (length s) cap)"
proof (cases "length s + length transfer_encoding_chunked \<le> cap")
  case False
  then show ?thesis by (intro writesI [of _ _ _ m]) (simp_all add: stream_head_write_def)
next
  case True
  then have "length s + length transfer_encoding_chunked \<le> length m" using assms(2) by simp
  with assms(1) obtain m1 where m1: "blit m (length s) transfer_encoding_chunked = Some m1" "length m1 = length m"
    "starts m1 (s @ transfer_encoding_chunked)" by (rule blit_starts)
  have "cap \<le> length m1" using assms(2) m1(2) by simp
  from blank_line_write_spec [OF m1(3) this] obtain m2 where
    "blank_line_write m1 (length (s @ transfer_encoding_chunked)) cap
      = Some (if length (s @ transfer_encoding_chunked) + 2 < cap then Some (length (s @ transfer_encoding_chunked) + 2) else None, m2)"
    "length m2 = length m1" "length (s @ transfer_encoding_chunked) + 2 < cap \<longrightarrow> starts m2 ((s @ transfer_encoding_chunked) @ crlf)"
    by (rule writesE)
  with True m1 show ?thesis by (intro writesI [of _ _ _ m2]) (simp_all add: stream_head_write_def Let_def)
qed

lemma body_write_spec:
  assumes "starts m s" "length s < cap" "cap \<le> length m" "wf_response resp"
  defines "h \<equiv> s @ framing_line resp @ crlf"
  shows "writes m s (framing_line resp @ crlf @ response_body resp)
     (length h < cap \<and> length h + length (response_body resp) \<le> cap) (length h + length (response_body resp))
     (case rs_body resp of
        BODY_BUFFER body \<Rightarrow> buffer_body_write body (has_content_length (rs_headers resp)) (rs_head_only resp) m (length s) cap
      | BODY_NONE \<Rightarrow> blank_line_write m (length s) cap
      | BODY_STREAM st \<Rightarrow> stream_head_write m (length s) cap)"
proof (cases "rs_body resp")
  case BODY_NONE
  with blank_line_write_spec [OF assms(1,3)] show ?thesis
    by (auto simp: h_def framing_line_def response_body_def writes_def)
next
  case (BODY_BUFFER b)
  have "framing_line resp = length_line (has_content_length (rs_headers resp)) b"
    "response_body resp = (if rs_head_only resp then [] else live b)"
    "\<And>bs. hb_bytes b = Some bs \<Longrightarrow> hb_size b \<le> length bs"
    using BODY_BUFFER assms(4)
    by (simp_all add: framing_line_def length_line_def response_body_def wf_response_def)
  with BODY_BUFFER buffer_body_write_spec [OF assms(1-3), of b "has_content_length (rs_headers resp)" "rs_head_only resp"]
  show ?thesis by (simp add: h_def)
next
  case (BODY_STREAM st)
  with stream_head_write_spec [OF assms(1,3)] show ?thesis
    by (auto simp: h_def framing_line_def response_body_def writes_def)
qed

text \<open>
  The serializer writes the text of the response and returns its length exactly when the head ends
  before the last byte of the buffer and the body fits behind it; it never leaves the buffer.
\<close>

definition response_fits :: "int option \<Rightarrow> 'u response \<Rightarrow> nat \<Rightarrow> bool \<Rightarrow> bool" where
  "response_fits now resp cap keep_alive \<longleftrightarrow> (case now of None \<Rightarrow> False
     | Some t \<Rightarrow> length (response_head t resp keep_alive) < cap \<and> length (response_text t resp keep_alive) \<le> cap)"

text \<open>The two stages of \<open>response_serialize\<close> behind the date: the connection and the body, and the headers before them.\<close>

definition write_connection_body :: "'u response \<Rightarrow> bool \<Rightarrow> bool \<Rightarrow> mem \<Rightarrow> nat \<Rightarrow> nat \<Rightarrow> (nat option \<times> mem) option" where
  "write_connection_body resp keep_alive saw m offset cap = do {
     (conn, m) \<leftarrow> response_header_connection_write m offset (cap - offset) keep_alive;
     case conn of None \<Rightarrow> Some (None, m) | Some written \<Rightarrow>
       if written \<ge> cap - offset then Some (None, m) else
       (let offset = offset + written in
        case rs_body resp of
          BODY_BUFFER body \<Rightarrow> buffer_body_write body saw (rs_head_only resp) m offset cap
        | BODY_NONE \<Rightarrow> blank_line_write m offset cap
        | BODY_STREAM s \<Rightarrow> stream_head_write m offset cap)
   }"

definition write_headers_body :: "'u response \<Rightarrow> bool \<Rightarrow> mem \<Rightarrow> nat \<Rightarrow> nat \<Rightarrow> (nat option \<times> mem) option" where
  "write_headers_body resp keep_alive m offset cap = do {
     (headers, m) \<leftarrow> response_headers_loop (rs_headers resp) m offset cap False;
     case headers of None \<Rightarrow> Some (None, m)
       | Some (offset, saw) \<Rightarrow> write_connection_body resp keep_alive saw m offset cap
   }"

lemma response_serialize_stages: "response_serialize now resp m cap keep_alive = do {
     (written, m) \<leftarrow> snprintf m 0 cap (start_line resp);
     if written > cap then Some (None, m) else do {
       (time_written, m) \<leftarrow> response_current_time_write now m written (cap - written);
       if time_written = 0 then Some (None, m) else write_headers_body resp keep_alive m (written + time_written) cap
     }
   }"
  by (simp only: response_serialize_def start_line_def write_headers_body_def write_connection_body_def Let_def)

text \<open>What has to fit behind \<open>s\<close>: the head \<open>h\<close> with a byte to spare, and the body.\<close>

definition fits_behind :: "nat \<Rightarrow> string \<Rightarrow> string \<Rightarrow> 'u response \<Rightarrow> bool" where
  "fits_behind cap s h resp \<longleftrightarrow> length (s @ h) < cap \<and> length (s @ h) + length (response_body resp) \<le> cap"

lemma write_connection_body_spec:
  fixes ka :: bool
  assumes "starts m s" "length s \<le> cap" "cap \<le> length m" "wf_response resp"
  defines "h \<equiv> connection_line ka @ framing_line resp @ crlf"
  shows "writes m s (h @ response_body resp) (fits_behind cap s h resp) (length (s @ h) + length (response_body resp))
    (write_connection_body resp ka (has_content_length (rs_headers resp)) m (length s) cap)"
proof -
  let ?c = "connection_line ka"
  from connection_write_spec [OF assms(1-3), of ka] obtain m1 where m1:
    "response_header_connection_write m (length s) (cap - length s) ka
      = Some (if length s + length ?c \<le> cap then Some (length ?c) else None, m1)" "length m1 = length m"
    "length s + length ?c \<le> cap \<longrightarrow> starts m1 (s @ ?c)" .
  show ?thesis
  proof (cases "length (s @ ?c) < cap")
    case False
    then show ?thesis using m1(1,2)
      by (intro writes_fail [of _ m1]) (auto simp: write_connection_body_def fits_behind_def h_def)
  next
    case True
    then have "starts m1 (s @ ?c)" "cap \<le> length m1" using m1 assms(3) by simp_all
    note body = body_write_spec [OF this(1) True this(2) assms(4)]
    have "write_connection_body resp ka (has_content_length (rs_headers resp)) m (length s) cap = (case rs_body resp of
        BODY_BUFFER body \<Rightarrow> buffer_body_write body (has_content_length (rs_headers resp)) (rs_head_only resp) m1 (length (s @ ?c)) cap
      | BODY_NONE \<Rightarrow> blank_line_write m1 (length (s @ ?c)) cap
      | BODY_STREAM st \<Rightarrow> stream_head_write m1 (length (s @ ?c)) cap)"
      using m1(1) True
      by (cases "rs_body resp") (auto simp: write_connection_body_def Let_def)
    from writes_trans [OF body [folded this] m1(2)] show ?thesis
      by (simp add: h_def fits_behind_def)
  qed
qed

lemma write_headers_body_spec:
  fixes ka :: bool
  assumes "starts m s" "length s \<le> cap" "cap \<le> length m" "wf_response resp"
  defines "h \<equiv> concat (map header_line (rs_headers resp)) @ connection_line ka @ framing_line resp @ crlf"
  shows "writes m s (h @ response_body resp) (fits_behind cap s h resp) (length (s @ h) + length (response_body resp))
    (write_headers_body resp ka m (length s) cap)"
proof -
  let ?hl = "concat (map header_line (rs_headers resp))"
  from response_headers_loop_spec [OF assms(1-3), of "rs_headers resp" False] obtain m1 where m1:
    "response_headers_loop (rs_headers resp) m (length s) cap False = Some (if rs_headers resp = [] \<or> length s + length ?hl < cap
        then Some (length (s @ ?hl), has_content_length (rs_headers resp)) else None, m1)"
    "length m1 = length m" "rs_headers resp = [] \<or> length s + length ?hl < cap \<longrightarrow> starts m1 (s @ ?hl)"
    by (rule writesE) simp
  show ?thesis
  proof (cases "rs_headers resp = [] \<or> length s + length ?hl < cap")
    case False
    then show ?thesis using m1(1,2)
      by (intro writes_fail [of _ m1]) (auto simp: write_headers_body_def fits_behind_def h_def)
  next
    case True
    then have "starts m1 (s @ ?hl)" "length (s @ ?hl) \<le> cap" "cap \<le> length m1" using m1 assms(2,3) by auto
    note rest = write_connection_body_spec [OF this assms(4), of ka]
    have "write_headers_body resp ka m (length s) cap
        = write_connection_body resp ka (has_content_length (rs_headers resp)) m1 (length (s @ ?hl)) cap"
      using m1(1) True by (simp add: write_headers_body_def)
    from writes_trans [OF rest [folded this] m1(2)] show ?thesis
      by (simp add: h_def fits_behind_def)
  qed
qed

lemma response_current_time_write_line: "response_current_time_write (Some t) m at cap = strftime m at cap (date_line t)"
  by (simp only: response_current_time_write_def option.case date_line_def)

lemma response_serialize_spec:
  assumes "wf_response resp" "cap \<le> length m"
  obtains (result) m' where "response_serialize now resp m cap ka
      = Some (case now of None \<Rightarrow> None
          | Some t \<Rightarrow> if response_fits now resp cap ka then Some (length (response_text t resp ka)) else None, m')"
    "length m' = length m"
    "\<forall>t. now = Some t \<and> response_fits now resp cap ka \<longrightarrow> starts m' (response_text t resp ka)"
proof -
  let ?s0 = "start_line resp"
  have "length [] + cap \<le> length m" using assms(2) by simp
  from snprintf_starts [OF starts_Nil this, of ?s0] obtain m0 where m0:
    "snprintf m 0 cap ?s0 = Some (length ?s0, m0)" "length m0 = length m" "length ?s0 < cap \<longrightarrow> starts m0 ?s0"
    by auto
  show thesis
  proof (cases now)
    case None
    then show thesis using m0 by (intro result [of m0]) (simp_all add: response_serialize_stages response_current_time_write_def)
  next
    case (Some t)
    let ?d = "date_line t" and ?h = "concat (map header_line (rs_headers resp)) @ connection_line ka @ framing_line resp @ crlf"
    have text_eq: "response_text t resp ka = (?s0 @ ?d) @ ?h @ response_body resp"
      "response_fits now resp cap ka \<longleftrightarrow> fits_behind cap (?s0 @ ?d) ?h resp"
      by (simp_all add: response_fits_def fits_behind_def Some response_head_def response_text_def add.assoc)
    have "writes m [] (response_text t resp ka) (response_fits now resp cap ka) (length (response_text t resp ka))
        (response_serialize now resp m cap ka)"
    proof (cases "length (?s0 @ ?d) < cap")
      case c1: True
      then have "starts m0 ?s0" "length ?s0 + (cap - length ?s0) \<le> length m0" using m0 assms(2) by auto
      from strftime_starts [OF this, of ?d] obtain m1 where strf:
        "strftime m0 (length ?s0) (cap - length ?s0) ?d = Some (if length ?d < cap - length ?s0 then length ?d else 0, m1)"
        "length m1 = length m0" "length ?d < cap - length ?s0 \<longrightarrow> starts m1 (?s0 @ ?d)" .
      have "length ?d < cap - length ?s0" using c1 by simp
      note m1 = strf(1) [unfolded if_P [OF this]] strf(2) mp [OF strf(3) this]
      have ser: "response_serialize now resp m cap ka = write_headers_body resp ka m1 (length (?s0 @ ?d)) cap"
        using m0(1) c1 m1(1) Some by (simp add: response_serialize_stages response_current_time_write_line) (simp add: date_line_def)
      have "length (?s0 @ ?d) \<le> cap" "cap \<le> length m1" using c1 assms(2) m0(2) m1(2) by simp_all
      note behind = write_headers_body_spec [OF m1(3) this assms(1), of ka, folded ser]
      have "length m1 = length m" using m0(2) m1(2) by simp
      from writes_trans [where s = "[]", unfolded append_Nil, OF behind this] show ?thesis
        unfolding text_eq by (simp only: length_append append_assoc add.assoc)
    next
      case False
      then have "\<not> length ?d < cap - length ?s0" by simp
      then have "response_serialize now resp m cap ka = Some (None, m0)"
        using m0(1) Some by (simp add: response_serialize_stages response_current_time_write_line strftime_def)
      then show ?thesis using m0(2) False by (intro writes_fail [of _ m0]) (auto simp: text_eq(2) fits_behind_def)
    qed
    then show thesis using Some by (auto elim!: writesE intro: result)
  qed
qed

subsection \<open>Canned errors\<close>

definition canned :: "(int \<times> string) list" where
  "canned = [(400, ''Bad Request''), (413, ''Payload Too Large''), (414, ''URI Too Long''),
     (431, ''Request Header Fields Too Large''), (501, ''Not Implemented''), (505, ''HTTP Version Not Supported''),
     (404, ''Not Found''), (500, ''Internal Server Error'')]"

lemma error_from_status_canned:
  "\<exists>(st, reason) \<in> set canned. response_error_from_status s = response_literal st reason []"
  by (cases s) (simp_all add: response_error_from_status_def canned_def)

lemma response_literal_simps [simp]:
  "rs_status (response_literal st reason hs) = st" "rs_reason (response_literal st reason hs) = reason"
  "rs_headers (response_literal st reason hs) = hs" "rs_head_only (response_literal st reason hs) = False"
  "rs_body (response_literal st reason hs)
     = BODY_BUFFER \<lparr> hb_cap = length reason + 1, hb_size = length reason + 1, hb_bytes = Some (reason @ [NUL]) \<rparr>"
  by (simp_all add: response_literal_def response_buffer_def)

lemma wf_response_literal: "wf_response (response_literal st reason hs)"
  by (simp add: wf_response_def)

lemma length_show_nat: "n < 10 ^ k \<Longrightarrow> 0 < k \<Longrightarrow> length (show_nat n) \<le> k"
  unfolding show_nat_def by (rule length_show_base) simp_all

lemma canned_length:
  assumes "(st, reason) \<in> set canned" "sane_clock t"
  shows "length (response_text t (response_literal st reason []) ka) \<le> 200"
proof -
  have "0 \<le> st \<and> st < 1000 \<and> length reason \<le> 31" using assms(1) by (auto simp: canned_def)
  moreover from this have "length (show_int st) \<le> 3" by (auto simp: show_int_def intro!: length_show_nat)
  moreover have "length (show_nat (length reason + 1)) \<le> 2" using calculation(1) by (intro length_show_nat) simp_all
  moreover have "length (connection_line ka) \<le> 24" by (simp add: connection_line_def)
  ultimately show ?thesis using length_http_date [OF assms(2)]
    by (simp add: response_text_def response_head_def response_body_def start_line_def date_line_def
        framing_line_def has_content_length_def live_def)
qed

lemma canned_fits:
  assumes "(st, reason) \<in> set canned" "sane_clock t" "256 \<le> cap"
  shows "response_fits (Some t) (response_literal st reason [] :: 'u response) cap ka"
proof -
  have "length (response_text t (response_literal st reason [] :: 'u response) ka) \<le> 200"
    by (rule canned_length [OF assms(1,2)])
  then show ?thesis using assms(3) by (simp add: response_fits_def response_text_def)
qed

lemma response_text_nonempty [simp]: "response_text t resp ka \<noteq> []"
  by (simp add: response_text_def response_head_def start_line_def)

text \<open>A buffer whose live bytes are a given text.\<close>

lemma wf_buffer_starts:
  assumes "length m' = hb_cap b" "starts m' s"
  shows "wf_buffer (b\<lparr>hb_size := length s, hb_bytes := Some m'\<rparr>)" "live (b\<lparr>hb_size := length s, hb_bytes := Some m'\<rparr>) = s"
  using assms starts_le [OF assms(2)] by (simp_all add: wf_buffer_def live_def starts_def)

lemma response_error_serialize_ok:
  assumes "wf_buffer resp" "256 \<le> hb_cap resp" "sane_clock t"
  obtains resp' where "response_error_serialize (Some t) resp s = Some resp'" "wf_buffer resp'"
    "hb_cap resp' = hb_cap resp" "live resp' = response_text t (response_error_from_status s :: unit response) False"
    "0 < hb_size resp'"
proof -
  let ?r = "response_error_from_status s :: unit response"
  obtain m where m: "hb_bytes resp = Some m" "length m = hb_cap resp" using assms(1) by (rule wf_bufferE)
  obtain st reason where canned: "(st, reason) \<in> set canned" "?r = response_literal st reason []"
    using error_from_status_canned [of s] by (auto split: prod.splits)
  have wf: "wf_response ?r" and fits: "response_fits (Some t) ?r (hb_cap resp) False"
    unfolding canned(2) by (rule wf_response_literal, rule canned_fits [OF canned(1) assms(3,2)])
  have "hb_cap resp \<le> length m" by (simp add: m(2))
  from response_serialize_spec [OF wf this, of "Some t" False] obtain m' where m':
    "response_serialize (Some t) ?r m (hb_cap resp) False = Some (Some (length (response_text t ?r False)), m')"
    "length m' = length m" "starts m' (response_text t ?r False)" using fits by auto
  note b = wf_buffer_starts [of m' resp, OF _ m'(3)]
  show thesis
  proof (rule that)
    show "response_error_serialize (Some t) resp s
        = Some (resp\<lparr>hb_size := length (response_text t ?r False), hb_bytes := Some m'\<rparr>)"
      by (simp add: response_error_serialize_def m(1) m'(1))
  qed (use b m(2) m'(2) in simp_all)
qed

subsection \<open>The methods of a 405 response\<close>

fun join_comma :: "string list \<Rightarrow> string" where
  "join_comma [] = []"
| "join_comma [m] = m"
| "join_comma (m # ms) = m @ '', '' @ join_comma ms"

lemma strncat_take: "length dst < cap \<Longrightarrow> strncat dst src (cap - length dst - 1) = take (cap - 1) (dst @ src)"
  by (simp add: strncat_def)

lemma allow_append_take:
  assumes "0 < cap"
  shows "allow_append cap ms first (take (cap - 1) s)
    = take (cap - 1) (if ms = [] then s else s @ (if first then [] else '', '') @ join_comma ms)"
proof (induction ms arbitrary: first s)
  case (Cons m ms)
  have step: "strncat (take (cap - 1) u) v (cap - length (take (cap - 1) u) - 1) = take (cap - 1) (u @ v)" for u v
    using assms by (subst strncat_take) (auto simp add: min_def)
  have "allow_append cap (m # ms) first (take (cap - 1) s)
      = allow_append cap ms False (take (cap - 1) (s @ (if first then [] else '', '') @ m))"
    using step [of s "'', ''"] step [of s m] step [of "s @ '', ''" m] by (cases first) (simp_all add: Let_def)
  then show ?case unfolding Cons.IH by (cases ms) simp_all
qed simp

subsection \<open>Frames\<close>

lemma chunk_frame_spec:
  assumes "cap \<le> length out" "len \<le> length data"
  defines "f \<equiv> chunk_text (show_hex len, take len data)"
  shows "writes out [] f (length f \<le> cap) (length f) (chunk_frame data len out cap)"
proof -
  let ?h = "show_hex len @ crlf"
  have f: "f = ?h @ take len data @ crlf" by (simp add: f_def chunk_text_def)
  have lf: "length f = length ?h + len + 2" using assms(2) by (simp add: f)
  have "length [] + cap \<le> length out" using assms(1) by simp
  from snprintf_starts [OF starts_Nil this, of ?h] obtain o1 where o1:
    "snprintf out 0 cap ?h = Some (length ?h, o1)" "length o1 = length out" "length ?h < cap \<longrightarrow> starts o1 ?h"
    by auto
  show ?thesis
  proof (cases "length f \<le> cap")
    case False
    then show ?thesis using o1(1,2) unfolding lf
      by (intro writesI [of _ _ _ o1]) (simp_all add: chunk_frame_def)
  next
    case True
    then have "starts o1 ?h" "length ?h + length (take len data) \<le> length o1" using o1 assms lf by simp_all
    then obtain o2 where o2: "blit o1 (length ?h) (take len data) = Some o2" "length o2 = length o1"
      "starts o2 (?h @ take len data)" by (rule blit_starts)
    have "length (?h @ take len data) + length [CR] \<le> length o2" using True assms o1(2) o2(2) lf by simp
    with o2(3) obtain o3 where o3: "blit o2 (length (?h @ take len data)) [CR] = Some o3" "length o3 = length o2"
      "starts o3 ((?h @ take len data) @ [CR])" by (rule blit_starts)
    have "length ((?h @ take len data) @ [CR]) + length [LF] \<le> length o3" using True assms o1(2) o2(2) o3(2) lf by simp
    with o3(3) obtain o4 where o4: "blit o3 (length ((?h @ take len data) @ [CR])) [LF] = Some o4" "length o4 = length o3"
      "starts o4 (((?h @ take len data) @ [CR]) @ [LF])" by (rule blit_starts)
    have "chunk_frame data len out cap = Some (Some (length f), o4)"
      using True o1(1) o2(1) o3(1) o4(1) assms(2) unfolding lf
      by (simp add: chunk_frame_def rd_range_def min_absorb2)
    moreover have "starts o4 f" using o4(3) by (simp add: f)
    ultimately show ?thesis using True o1(2) o2(2) o3(2) o4(2) by (intro writesI [of _ _ _ o4]) simp_all
  qed
qed

lemma chunk_frame_last_spec:
  assumes "cap \<le> length out"
  shows "writes out [] (''0'' @ crlf @ crlf) (5 \<le> cap) 5 (chunk_frame_last out cap)"
proof (cases "5 \<le> cap")
  case True
  then have "length [] + length (''0'' @ crlf @ crlf) \<le> length out" using assms by simp
  from blit_starts [OF starts_Nil this] obtain o' where
    "blit out 0 (''0'' @ crlf @ crlf) = Some o'" "length o' = length out" "starts o' (''0'' @ crlf @ crlf)" by auto
  with True show ?thesis by (intro writesI [of _ _ _ o']) (simp_all add: chunk_frame_last_def)
qed (simp add: writes_def chunk_frame_last_def)

text \<open>The size line of a frame is one the decoder reads back.\<close>

lemma show_hex_chars: "list_all (\<lambda>c. c \<noteq> CR \<and> c \<noteq> LF \<and> c \<noteq> CHR '';'') (show_hex n)" "show_hex n \<noteq> []"
proof -
  have ok: "list_all (digit_ok 16) (show_hex n) \<and> show_hex n \<noteq> []"
    using show_base_digits [of 16 n] by (simp add: show_hex_def)
  then show "show_hex n \<noteq> []" by simp
  have "\<not> digit_ok 16 CR" "\<not> digit_ok 16 LF" "\<not> digit_ok 16 (CHR '';'')"
    by (simp_all add: digit_ok_def digit_value_def ord_def)
  then show "list_all (\<lambda>c. c \<noteq> CR \<and> c \<noteq> LF \<and> c \<noteq> CHR '';'') (show_hex n)"
    using ok by (auto simp: list_all_iff)
qed

lemma size_line_show_hex:
  assumes "n \<le> max_body_len cfg"
  shows "size_line_ok cfg (show_hex n) n"
proof -
  have cs: "CR \<notin> set (show_hex n)" "CHR '';'' \<notin> set (show_hex n)"
    using show_hex_chars(1) [of n] by (auto simp: list_all_iff)
  have hd: "takeWhile (\<lambda>c. c \<noteq> CHR '';'') (show_hex n) = show_hex n"
    using cs(2) by (subst takeWhile_eq_all_conv) auto
  have "uint_reference 16 (max_body_len cfg) 0 (show_hex n) = Inr n"
    using show_base_digits [of 16 n] assms
    by (subst uint_reference_Inr_iff) (simp_all add: show_hex_def digits_value_def)
  then have "chunk_size cfg (show_hex n) = Inr n"
    using show_hex_chars(2) [of n] by (simp only: chunk_size_def hd Let_def if_False)
  with crlf_split_no_CR [OF cs(1), of "[]"] show ?thesis by (simp add: size_line_ok_def)
qed

lemma chunk_wf_frame: "data \<noteq> [] \<Longrightarrow> length data \<le> max_body_len cfg \<Longrightarrow> chunk_wf cfg (show_hex (length data), data)"
  by (simp add: chunk_wf_def size_line_show_hex)

lemma size_line_last: "size_line_ok cfg ''0'' 0"
proof -
  have "show_hex 0 = ''0''" by code_simp
  with size_line_show_hex [of 0 cfg] show ?thesis by simp
qed

subsection \<open>One send\<close>

text \<open>A send moves the cursor over the bytes it put on the wire.\<close>

lemma response_send_spec:
  assumes "wf_buffer resp" "sent < hb_size resp" "0 \<le> fd"
  obtains st sent' net' where "response_send fd resp sent net = Some (st, sent', net')"
    "sent \<le> sent'" "sent' \<le> hb_size resp" "inbox net' = inbox net"
    "wire net' = wire net @ take (sent' - sent) (drop sent (live resp))"
    "st = SEND_OK \<longleftrightarrow> sent' = hb_size resp"
proof -
  obtain m where m: "hb_bytes resp = Some m" "length m = hb_cap resp" "hb_size resp \<le> hb_cap resp"
    "live resp = take (hb_size resp) m" using assms(1) by (rule wf_bufferE)
  define bs where "bs = take (hb_size resp - sent) (drop sent m)"
  have rd: "rd_range m sent (hb_size resp - sent) = Some bs" and bs: "bs = drop sent (live resp)"
    and len: "length bs = hb_size resp - sent"
    using m assms(2) by (simp_all add: rd_range_def bs_def drop_take)
  obtain r net' where r: "send net bs = (r, net')" by fastforce
  note out = send_outcome [OF r]
  show thesis
  proof (cases r)
    case (Inl k)
    note k = out(2) [OF Inl]
    show thesis
    proof (rule that)
      show "response_send fd resp sent net
          = Some (if sent + k = hb_size resp then SEND_OK else SEND_HAS_MORE, sent + k, net')"
        using m(1) assms rd r Inl by (simp add: response_send_def)
      show "wire net' = wire net @ take (sent + k - sent) (drop sent (live resp))" using k bs by simp
    qed (use k len assms(2) out(1) in auto)
  next
    case (Inr e)
    show thesis
    proof (rule that)
      show "response_send fd resp sent net = Some (if e = EAGAIN \<or> e = EINTR then SEND_HAS_MORE
          else if e = EPIPE \<or> e = ECONNRESET then SEND_PEER_CLOSED else SEND_ERROR, sent, net')"
        using m(1) assms rd r Inr by (simp add: response_send_def)
      show "wire net' = wire net @ take (sent - sent) (drop sent (live resp))" using out(3) [OF Inr] by simp
    qed (use assms(2) out(1) in auto)
  qed
qed

subsection \<open>Properties of the serializer\<close>

text \<open>
  C22: \<open>response_serialize\<close> is exact.  For any status, reason, headers and body, any buffer of \<open>cap\<close>
  bytes and any clock it stays inside the buffer; it returns a length exactly when the clock can be
  read, the head (status line, date, headers, connection, framing, empty line) ends before the last
  byte and the body fits behind it, and then the buffer starts with the text of the response and the
  length is that of the text; otherwise the result is \<open>-1\<close>.
\<close>

theorem response_serialize_writes_text:
  assumes "wf_response resp" "cap \<le> length m"
  shows "\<exists>r m'. response_serialize now resp m cap ka = Some (r, m') \<and> length m' = length m
    \<and> (r = None \<longleftrightarrow> \<not> response_fits now resp cap ka)
    \<and> (\<forall>t. now = Some t \<and> r \<noteq> None \<longrightarrow> r = Some (length (response_text t resp ka)) \<and> starts m' (response_text t resp ka))"
proof -
  from response_serialize_spec [OF assms, of now ka] obtain m' where m':
    "response_serialize now resp m cap ka
      = Some (case now of None \<Rightarrow> None
          | Some t \<Rightarrow> if response_fits now resp cap ka then Some (length (response_text t resp ka)) else None, m')"
    "length m' = length m"
    "\<forall>t. now = Some t \<and> response_fits now resp cap ka \<longrightarrow> starts m' (response_text t resp ka)" .
  then show ?thesis by (cases now) (auto simp: response_fits_def)
qed

theorem response_serialize_writes_text_witness:
  "\<exists>r m'. response_serialize (Some 0) (response_buffer 200 ''OK'' (Some ''hi'') 2 [\<lparr>rhd_key = ''A'', rhd_value = ''b''\<rparr>] :: unit response)
        (replicate 120 NUL) 120 True = Some (r, m') \<and> length m' = length (replicate 120 NUL)
    \<and> (r = None \<longleftrightarrow> \<not> response_fits (Some 0) (response_buffer 200 ''OK'' (Some ''hi'') 2 [\<lparr>rhd_key = ''A'', rhd_value = ''b''\<rparr>] :: unit response) 120 True)
    \<and> (\<forall>t. Some 0 = Some t \<and> r \<noteq> None \<longrightarrow>
         r = Some (length (response_text t (response_buffer 200 ''OK'' (Some ''hi'') 2 [\<lparr>rhd_key = ''A'', rhd_value = ''b''\<rparr>] :: unit response) True))
         \<and> starts m' (response_text t (response_buffer 200 ''OK'' (Some ''hi'') 2 [\<lparr>rhd_key = ''A'', rhd_value = ''b''\<rparr>] :: unit response) True))"
  by (rule response_serialize_writes_text) (simp_all add: wf_response_def response_buffer_def)

text \<open>
  C23: one \<open>response_send\<close> never reads outside the buffer, whatever the kernel answers; it puts on the
  wire exactly the bytes from the old cursor to the new one, never moves the cursor back or past the
  end, and reports \<open>SEND_OK\<close> exactly when the cursor has reached the end.
\<close>

theorem response_send_moves_cursor:
  assumes "wf_buffer resp" "sent < hb_size resp" "0 \<le> fd"
  shows "\<exists>st sent' net'. response_send fd resp sent net = Some (st, sent', net')
    \<and> sent \<le> sent' \<and> sent' \<le> hb_size resp \<and> inbox net' = inbox net
    \<and> wire net' = wire net @ take (sent' - sent) (drop sent (live resp))
    \<and> (st = SEND_OK \<longleftrightarrow> sent' = hb_size resp)"
proof -
  obtain st sent' net' where "response_send fd resp sent net = Some (st, sent', net')"
    "sent \<le> sent'" "sent' \<le> hb_size resp" "inbox net' = inbox net"
    "wire net' = wire net @ take (sent' - sent) (drop sent (live resp))"
    "st = SEND_OK \<longleftrightarrow> sent' = hb_size resp"
    using assms by (rule response_send_spec)
  then show ?thesis by blast
qed

definition demo_text :: http_buffer where
  "demo_text = \<lparr> hb_cap = 8, hb_size = 5, hb_bytes = Some ''hello!!!'' \<rparr>"

theorem response_send_moves_cursor_witness:
  "\<exists>st sent' net'. response_send 4 demo_text 2 \<lparr> inbox = [], outbox = [Send_Room 2], wire = ''he'' \<rparr> = Some (st, sent', net')
    \<and> 2 \<le> sent' \<and> sent' \<le> hb_size demo_text \<and> inbox net' = inbox \<lparr> inbox = [], outbox = [Send_Room 2], wire = ''he'' \<rparr>
    \<and> wire net' = wire \<lparr> inbox = [], outbox = [Send_Room 2], wire = ''he'' \<rparr> @ take (sent' - 2) (drop 2 (live demo_text))
    \<and> (st = SEND_OK \<longleftrightarrow> sent' = hb_size demo_text)"
  by (rule response_send_moves_cursor) (simp_all add: demo_text_def wf_buffer_def)

text \<open>
  C24: a frame is a chunk.  \<open>chunk_frame\<close> stays inside the output, fails exactly when the frame does
  not fit, and otherwise writes the size in hexadecimal, the payload and the line ends: a chunk that
  the chunk decoder of the same server accepts with that payload, whatever the payload is.
\<close>

theorem chunk_frame_is_chunk:
  assumes "cap \<le> length out" "data \<noteq> []" "length data \<le> max_body_len cfg"
  shows "\<exists>r out'. chunk_frame data (length data) out cap = Some (r, out') \<and> length out' = length out
    \<and> (r = None \<longleftrightarrow> cap < length (chunk_text (show_hex (length data), data)))
    \<and> (\<forall>n. r = Some n \<longrightarrow> take n out' = chunk_text (show_hex (length data), data))
    \<and> chunk_wf cfg (show_hex (length data), data)"
proof -
  from chunk_frame_spec [OF assms(1), of "length data" data] obtain out' where
    "chunk_frame data (length data) out cap
      = Some (if length (chunk_text (show_hex (length data), data)) \<le> cap
          then Some (length (chunk_text (show_hex (length data), data))) else None, out')" "length out' = length out"
    "length (chunk_text (show_hex (length data), data)) \<le> cap \<longrightarrow> starts out' (chunk_text (show_hex (length data), data))"
    by (auto elim: writesE)
  with chunk_wf_frame [OF assms(2,3)] show ?thesis by (auto simp: starts_def)
qed

theorem chunk_frame_is_chunk_witness:
  "\<exists>r out'. chunk_frame ''hello'' (length ''hello'') (replicate 16 NUL) 16 = Some (r, out') \<and> length out' = length (replicate 16 NUL)
    \<and> (r = None \<longleftrightarrow> 16 < length (chunk_text (show_hex (length ''hello''), ''hello'')))
    \<and> (\<forall>n. r = Some n \<longrightarrow> take n out' = chunk_text (show_hex (length ''hello''), ''hello''))
    \<and> chunk_wf esp32_config (show_hex (length ''hello''), ''hello'')"
  by (rule chunk_frame_is_chunk) (simp_all add: esp32_config_def)

text \<open>
  C25: every parse error has an answer that fits.  With a clock of a four-digit year and a response
  buffer of at least 256 bytes, \<open>response_error_serialize\<close> leaves in the buffer the whole response
  for that error, with \<open>Connection: close\<close>, and at least one byte to send.
\<close>

theorem error_responses_always_fit:
  assumes "wf_buffer resp" "256 \<le> hb_cap resp" "sane_clock t"
  shows "\<exists>resp'. response_error_serialize (Some t) resp s = Some resp' \<and> wf_buffer resp'
    \<and> hb_cap resp' = hb_cap resp \<and> live resp' = response_text t (response_error_from_status s :: unit response) False
    \<and> 0 < hb_size resp'"
  using response_error_serialize_ok [OF assms, of s] by blast

theorem error_responses_always_fit_witness:
  "\<exists>resp'. response_error_serialize (Some 1000000) \<lparr> hb_cap = 256, hb_size = 0, hb_bytes = Some (replicate 256 NUL) \<rparr> PARSE_URI_TOO_LONG
       = Some resp' \<and> wf_buffer resp'
    \<and> hb_cap resp' = hb_cap \<lparr> hb_cap = 256, hb_size = 0, hb_bytes = Some (replicate 256 NUL) \<rparr>
    \<and> live resp' = response_text 1000000 (response_error_from_status PARSE_URI_TOO_LONG :: unit response) False
    \<and> 0 < hb_size resp'"
  by (rule error_responses_always_fit) (simp_all add: wf_buffer_def sane_clock_def)

text \<open>
  C27: without a clock the error path is not safe.  When \<open>time\<close> fails, \<open>response_error_serialize\<close>
  stores the result \<open>-1\<close> as the size of the response, and the send that follows reads beyond the
  buffer.
\<close>

theorem error_without_clock_overruns:
  assumes "wf_buffer resp" "hb_cap resp < 2 ^ 64 - 1"
  shows "\<exists>resp'. response_error_serialize None resp s = Some resp' \<and> hb_size resp' = 2 ^ 64 - 1
    \<and> response_send fd resp' 0 net = None"
proof -
  obtain m where m: "hb_bytes resp = Some m" "length m = hb_cap resp" using assms(1) by (rule wf_bufferE)
  obtain st reason where "response_error_from_status s = (response_literal st reason [] :: unit response)"
    using error_from_status_canned [of s] by (auto split: prod.splits)
  then have "wf_response (response_error_from_status s :: unit response)" by (simp add: wf_response_literal)
  moreover have "hb_cap resp \<le> length m" by (simp add: m(2))
  ultimately obtain m' where m': "response_serialize None (response_error_from_status s :: unit response) m (hb_cap resp) False
      = Some (None, m')" "length m' = length m"
    by (rule response_serialize_spec [where now = None and ka = False]) simp
  have "response_error_serialize None resp s = Some (resp\<lparr>hb_size := 2 ^ 64 - 1, hb_bytes := Some m'\<rparr>)"
    by (simp add: response_error_serialize_def m(1) m'(1))
  moreover have "response_send fd (resp\<lparr>hb_size := 2 ^ 64 - 1, hb_bytes := Some m'\<rparr>) 0 net = None"
    using assms(2) m(2) m'(2) by (simp add: response_send_def rd_range_def require_def)
  ultimately show ?thesis by simp
qed

theorem error_without_clock_overruns_witness:
  "\<exists>resp'. response_error_serialize None \<lparr> hb_cap = 256, hb_size = 0, hb_bytes = Some (replicate 256 NUL) \<rparr> PARSE_BAD_REQUEST
       = Some resp' \<and> hb_size resp' = 2 ^ 64 - 1
    \<and> response_send 3 resp' 0 \<lparr> inbox = [], outbox = [], wire = [] \<rparr> = None"
  by (rule error_without_clock_overruns) (simp_all add: wf_buffer_def)

text \<open>
  C26: the header \<open>Allow\<close> of a 405 response lists the allowed methods in the order of the routes,
  separated by commas, cut off at the size of its buffer: it never holds more than \<open>cap - 1\<close> bytes.
\<close>

theorem allow_header_lists_methods:
  assumes "0 < cap"
  shows "rs_status (response_error_405 allowed cap) = 405
    \<and> rs_headers (response_error_405 allowed cap)
      = [\<lparr> rhd_key = ''Allow'', rhd_value = take (cap - 1) (join_comma allowed) \<rparr>]
    \<and> length (rhd_value (hd (rs_headers (response_error_405 allowed cap)))) < cap"
  using allow_append_take [OF assms, of allowed True "[]"] assms
  by (cases "allowed = []") (simp_all add: response_error_405_def)

theorem allow_header_lists_methods_witness:
  "rs_status (response_error_405 [''GET'', ''PUT''] 128) = 405
    \<and> rs_headers (response_error_405 [''GET'', ''PUT''] 128)
      = [\<lparr> rhd_key = ''Allow'', rhd_value = take (128 - 1) (join_comma [''GET'', ''PUT'']) \<rparr>]
    \<and> length (rhd_value (hd (rs_headers (response_error_405 [''GET'', ''PUT''] 128)))) < 128"
  by (rule allow_header_lists_methods) simp

end
