(* ===== verification/Content.thy ===== *)
theory Content
  imports Dictionary Http_Date Request Response Arena
begin

text \<open>
  The content registry, the second half of \<open>src/HttpRouter.c\<close>: loading files into entries, finding
  the entry of a URL, revalidating it, and the responses that serve it.  A pointer into an entry (a
  header value in its \<open>data\<close>, \<open>etag\<close> or \<open>last_modified\<close>) is the string it leads to.
\<close>

subsection \<open>Entries\<close>

datatype serve_mode = SERVE_STATIC_RESIDENT | SERVE_STATIC_STREAMED | SERVE_DYN_RESIDENT | SERVE_DYN_STREAMED

text \<open>\<open>len_str\<close> of \<open>RevalMeta\<close> is never used.\<close>

record reval_meta =
  rv_mtime :: int
  rv_size :: nat
  rv_fs_path :: string
  rv_etag :: string
  rv_last_modified :: string

text \<open>The header array holds the fields that have been set, \<open>data\<close> the bytes of the block behind the struct.\<close>

record content_entry =
  ce_mode :: serve_mode
  ce_len :: nat
  ce_headers :: "response_header list"
  ce_reval :: "reval_meta option"
  ce_data :: mem

type_synonym registry = "content_entry dictionary"

datatype content_lookup_status = CONTENT_MISS | CONTENT_GONE | CONTENT_NOT_MODIFIED | CONTENT_HIT

record content_lookup_result =
  cl_status :: content_lookup_status
  cl_entry :: "content_entry option"

definition content_registry_create :: "config \<Rightarrow> 'u world \<Rightarrow> registry option \<times> 'u world" where
  "content_registry_create cfg w = dict_init cfg w"

subsection \<open>Reading files\<close>

definition len_buf_size :: nat where
  "len_buf_size = 32"

text \<open>\<open>file_read\<close>: the inner \<open>None\<close> is the result \<open>-1\<close>; the bytes and a terminator go to \<open>dest\<close>.\<close>

definition file_read :: "'u world \<Rightarrow> string \<Rightarrow> mem \<Rightarrow> nat \<Rightarrow> (nat option \<times> mem) option" where
  "file_read w path dest bytes = (case map_of (w_files w) path of
     None \<Rightarrow> Some (None, dest)
   | Some f \<Rightarrow> if w_fd_limit w \<le> length (w_fds w) \<or> f_broken f then Some (None, dest) else do {
       let got = take bytes (f_bytes f);
       dest \<leftarrow> blit dest 0 got;
       dest \<leftarrow> blit dest (length got) [NUL];
       Some (Some (length got), dest)
     })"

definition etag_text :: "stat_buf \<Rightarrow> string" where
  "etag_text st = ''W/'' @ [CHR 0x22] @ show_hex (nat (st_mtime st mod 2 ^ 64)) @ ''-'' @ show_hex (st_size st) @ [CHR 0x22]"

text \<open>
  \<open>reval_fill\<close>: the path is cut at 255 bytes, the tag at 39.  A date that does not fit its 32 bytes
  leaves no string there to rely on.
\<close>

definition reval_fill :: "stat_buf \<Rightarrow> string \<Rightarrow> reval_meta option" where
  "reval_fill st fs_path = (let date = http_date_text (gmtime (st_mtime st)) in
     if length date < 32 then
       Some \<lparr> rv_mtime = st_mtime st, rv_size = st_size st, rv_fs_path = take 255 fs_path,
              rv_etag = take 39 (etag_text st), rv_last_modified = date \<rparr>
     else None)"

definition content_type :: "string \<Rightarrow> string" where
  "content_type path =
     (if str_ends_with (Some path) (Some ''.html'') then ''text/html''
      else if str_ends_with (Some path) (Some ''.ico'') then ''image/x-icon''
      else if str_ends_with (Some path) (Some ''.jpg'') \<or> str_ends_with (Some path) (Some ''.jpeg'') then ''image/jpeg''
      else if str_ends_with (Some path) (Some ''.png'') then ''image/png''
      else if str_ends_with (Some path) (Some ''.css'') then ''text/css''
      else if str_ends_with (Some path) (Some ''.js'') then ''application/javascript''
      else if str_ends_with (Some path) (Some ''.wasm'') then ''application/wasm''
      else if str_ends_with (Some path) (Some ''.data'') then ''application/octet-stream''
      else ''application/octet-stream'')"

text \<open>The length as text, written behind the data at \<open>len + 1\<close>.\<close>

definition len_header_write :: "mem \<Rightarrow> nat \<Rightarrow> (string \<times> mem) option" where
  "len_header_write m len = do {
     (n, m) \<leftarrow> snprintf m (len + 1) len_buf_size (show_nat len);
     Some (take (len_buf_size - 1) (show_nat len), m)
   }"

text \<open>
  The two loaders of resident entries.  The inner \<open>None\<close> is \<open>NULL\<close>.  The static one asks for \<open>LEN_BUF_SIZE\<close>
  bytes behind the data, the dynamic one does not.
\<close>

definition content_entry_static_load :: "'u world \<Rightarrow> string \<Rightarrow> (content_entry option \<times> 'u world) option" where
  "content_entry_static_load w fs_path = (case stat_path w fs_path of
     None \<Rightarrow> Some (None, w)
   | Some st \<Rightarrow> (let (ok, w) = malloc_ok w in
       if \<not> ok then Some (None, w) else do {
         let data = replicate (st_size st + 1 + len_buf_size + w_slack w) NUL;
         (len, data) \<leftarrow> file_read w fs_path data (st_size st);
         case len of
           None \<Rightarrow> Some (None, w)
         | Some len \<Rightarrow> do {
             (len_buf, data) \<leftarrow> len_header_write data len;
             Some (Some \<lparr> ce_mode = SERVE_STATIC_RESIDENT, ce_len = len,
               ce_headers = [\<lparr> rhd_key = ''Content-Type'', rhd_value = content_type fs_path \<rparr>,
                 \<lparr> rhd_key = ''Content-Length'', rhd_value = len_buf \<rparr>,
                 \<lparr> rhd_key = ''Cache-Control'', rhd_value = ''max-age=31536000, immutable'' \<rparr>],
               ce_reval = None, ce_data = data \<rparr>, w)
           }
       }))"

definition content_entry_dynamic_load :: "'u world \<Rightarrow> string \<Rightarrow> stat_buf \<Rightarrow> (content_entry option \<times> 'u world) option" where
  "content_entry_dynamic_load w fs_path st = (let (ok, w) = malloc_ok w in
     if \<not> ok then Some (None, w) else let (ok, w) = malloc_ok w in
     if \<not> ok then Some (None, w) else do {
       let data = replicate (st_size st + 1 + w_slack w) NUL;
       (len, data) \<leftarrow> file_read w fs_path data (st_size st);
       case len of
         None \<Rightarrow> Some (None, w)
       | Some len \<Rightarrow> do {
           reval \<leftarrow> reval_fill st fs_path;
           (len_buf, data) \<leftarrow> len_header_write data len;
           Some (Some \<lparr> ce_mode = SERVE_DYN_RESIDENT, ce_len = len,
             ce_headers = [\<lparr> rhd_key = ''Content-Type'', rhd_value = content_type fs_path \<rparr>,
               \<lparr> rhd_key = ''Content-Length'', rhd_value = len_buf \<rparr>,
               \<lparr> rhd_key = ''ETag'', rhd_value = rv_etag reval \<rparr>,
               \<lparr> rhd_key = ''Last-Modified'', rhd_value = rv_last_modified reval \<rparr>,
               \<lparr> rhd_key = ''Cache-Control'', rhd_value = ''no-cache'' \<rparr>],
             ce_reval = Some reval, ce_data = data \<rparr>, w)
         }
     })"

definition content_entry_streamed_load :: "'u world \<Rightarrow> string \<Rightarrow> stat_buf \<Rightarrow> serve_mode \<Rightarrow> string
    \<Rightarrow> (content_entry option \<times> 'u world) option" where
  "content_entry_streamed_load w fs_path st mode cache_control = (let (ok, w) = malloc_ok w in
     if \<not> ok then Some (None, w) else let (ok, w) = malloc_ok w in
     if \<not> ok then Some (None, w) else do {
       reval \<leftarrow> reval_fill st fs_path;
       Some (Some \<lparr> ce_mode = mode, ce_len = 0,
         ce_headers = [\<lparr> rhd_key = ''Content-Type'', rhd_value = content_type fs_path \<rparr>,
           \<lparr> rhd_key = ''ETag'', rhd_value = rv_etag reval \<rparr>,
           \<lparr> rhd_key = ''Last-Modified'', rhd_value = rv_last_modified reval \<rparr>,
           \<lparr> rhd_key = ''Cache-Control'', rhd_value = cache_control \<rparr>],
         ce_reval = Some reval, ce_data = [] \<rparr>, w)
     })"

subsection \<open>Responses\<close>

definition response_resident :: "request \<Rightarrow> content_entry \<Rightarrow> 'u response option" where
  "response_resident req e = (let n = (if ce_mode e = SERVE_STATIC_RESIDENT then 3 else 5);
       head_only = (rl_method (rq_line req) = HEAD) in do {
     require (n \<le> length (ce_headers e));
     Some \<lparr> rs_status = 200, rs_reason = ''OK'', rs_headers = take n (ce_headers e),
       rs_body = BODY_BUFFER (if head_only then \<lparr> hb_cap = 0, hb_size = 0, hb_bytes = None \<rparr>
         else \<lparr> hb_cap = 0, hb_size = ce_len e, hb_bytes = Some (ce_data e) \<rparr>),
       rs_head_only = head_only \<rparr>
   })"

text \<open>\<open>file_pull\<close> tries again after \<open>EINTR\<close>; the context of a file stream is its descriptor.\<close>

lemma read_file_error: "read_file w fd cap = (Inr EINTR, w') \<Longrightarrow> length (w_read_errors w') < length (w_read_errors w)"
  by (auto simp: read_file_def split: list.splits option.splits if_splits)

function file_pull :: "nat \<Rightarrow> nat \<Rightarrow> 'u world \<Rightarrow> string option \<times> 'u world" where
  "file_pull ctx cap w = (case read_file w ctx cap of
     (Inl bs, w) \<Rightarrow> (Some bs, w)
   | (Inr e, w) \<Rightarrow> if e = EINTR then file_pull ctx cap w else (None, w))"
  by pat_completeness auto
termination
  by (relation "measure (\<lambda>(ctx, cap, w). length (w_read_errors w))")
    (auto dest: read_file_error [OF sym])

declare file_pull.simps [simp del]

definition file_close :: "nat \<Rightarrow> 'u world \<Rightarrow> 'u world" where
  "file_close ctx w = close_file w ctx"

text \<open>\<open>FileCtx\<close> holds one \<open>int\<close>: four bytes, aligned to four.\<close>

definition file_stream_open :: "'u world \<Rightarrow> string \<Rightarrow> arena \<Rightarrow> ('u stream \<times> arena \<times> 'u world) option" where
  "file_stream_open w fs_path scratch = (case open_file w fs_path of
     (None, w) \<Rightarrow> Some (stream_zero, scratch, w)
   | (Some fd, w) \<Rightarrow> do {
       (c, scratch) \<leftarrow> arena_new scratch 4 4;
       case c of
         None \<Rightarrow> Some (stream_zero, scratch, close_file w fd)
       | Some c \<Rightarrow> Some (\<lparr> st_ctx = fd, st_pull = Some file_pull, st_cleanup = Some file_close \<rparr>, scratch, w)
     })"

definition response_streamed :: "content_entry \<Rightarrow> arena \<Rightarrow> 'u world \<Rightarrow> ('u response \<times> arena \<times> 'u world) option" where
  "response_streamed e scratch w = do {
     reval \<leftarrow> ce_reval e;
     (s, scratch, w) \<leftarrow> file_stream_open w (rv_fs_path reval) scratch;
     if st_pull s = None then Some (response_error_from_status PARSE_SERVER_ERROR, scratch, w)
     else do {
       require (4 \<le> length (ce_headers e));
       Some (response_stream 200 ''OK'' s (take 4 (ce_headers e)), scratch, w)
     }
   }"

definition response_dynamic_304 :: "content_entry \<Rightarrow> 'u response option" where
  "response_dynamic_304 e = do {
     require (5 \<le> length (ce_headers e));
     Some (response_none 304 ''Not Modified'' (take 3 (drop 2 (ce_headers e))))
   }"

definition response_for_entry :: "request \<Rightarrow> content_entry \<Rightarrow> arena \<Rightarrow> 'u world \<Rightarrow> ('u response \<times> arena \<times> 'u world) option" where
  "response_for_entry req e scratch w =
     (if ce_mode e = SERVE_STATIC_RESIDENT \<or> ce_mode e = SERVE_DYN_RESIDENT
      then map_option (\<lambda>r. (r, scratch, w)) (response_resident req e)
      else response_streamed e scratch w)"

subsection \<open>Lookup and revalidation\<close>

definition request_validators_match :: "request \<Rightarrow> content_entry \<Rightarrow> bool option" where
  "request_validators_match req e = do {
     reval \<leftarrow> ce_reval e;
     Some (case header_find (rq_headers req) ''if-none-match'' of
       Some inm \<Rightarrow> h_value inm = ''*'' \<or> h_value inm = rv_etag reval
     | None \<Rightarrow> (case header_find (rq_headers req) ''if-modified-since'' of
         Some ims \<Rightarrow> (case http_date_parse (h_value ims) of None \<Rightarrow> False | Some t \<Rightarrow> rv_mtime reval \<le> t)
       | None \<Rightarrow> False))
   }"

definition cl_zero :: "content_lookup_status \<Rightarrow> content_lookup_result" where
  "cl_zero st = \<lparr> cl_status = st, cl_entry = None \<rparr>"

definition cl_dynamic :: "request \<Rightarrow> content_entry \<Rightarrow> content_lookup_result option" where
  "cl_dynamic req e = do {
     m \<leftarrow> request_validators_match req e;
     Some \<lparr> cl_status = (if m then CONTENT_NOT_MODIFIED else CONTENT_HIT), cl_entry = Some e \<rparr>
   }"

definition content_registry_lookup :: "config \<Rightarrow> registry option \<Rightarrow> request \<Rightarrow> string \<Rightarrow> 'u world
    \<Rightarrow> (content_lookup_result \<times> registry option \<times> 'u world) option" where
  "content_registry_lookup cfg reg req url w = do {
     entry \<leftarrow> dict_find cfg reg url;
     case entry of None \<Rightarrow> Some (cl_zero CONTENT_MISS, reg, w) | Some e \<Rightarrow>
     if ce_mode e = SERVE_DYN_RESIDENT then do {
       reval \<leftarrow> ce_reval e;
       case stat_path w (rv_fs_path reval) of
         None \<Rightarrow> Some (cl_zero CONTENT_GONE, reg, w)
       | Some st \<Rightarrow>
           if st_mtime st \<noteq> rv_mtime reval \<or> st_size st \<noteq> rv_size reval then do {
             (fresh, w) \<leftarrow> content_entry_dynamic_load w (rv_fs_path reval) st;
             case fresh of
               None \<Rightarrow> Some (cl_zero CONTENT_GONE, reg, w)
             | Some fresh \<Rightarrow> do {
                 d \<leftarrow> reg;
                 (_, d, _, w) \<leftarrow> dict_insert cfg d url fresh w;
                 r \<leftarrow> cl_dynamic req fresh;
                 Some (r, Some d, w)
               }
           } else do {
             r \<leftarrow> cl_dynamic req e;
             Some (r, reg, w)
           }
     } else Some (\<lparr> cl_status = CONTENT_HIT, cl_entry = Some e \<rparr>, reg, w)
   }"

subsection \<open>Registration\<close>

definition register_entry :: "config \<Rightarrow> registry \<Rightarrow> string \<Rightarrow> content_entry option \<times> 'u world
    \<Rightarrow> (nat \<times> registry \<times> 'u world) option" where
  "register_entry cfg d url r = (case r of (None, w) \<Rightarrow> Some (0, d, w)
     | (Some e, w) \<Rightarrow> do {
         (_, d, _, w) \<leftarrow> dict_insert cfg d url e w;
         Some (1, d, w)
       })"

definition content_registry_add_file :: "config \<Rightarrow> registry \<Rightarrow> string \<Rightarrow> string \<Rightarrow> serve_mode \<Rightarrow> 'u world
    \<Rightarrow> (nat \<times> registry \<times> 'u world) option" where
  "content_registry_add_file cfg d fs_path url mode w = (case stat_path w fs_path of
     None \<Rightarrow> Some (0, d, w)
   | Some st \<Rightarrow> do {
       r \<leftarrow> (case mode of
           SERVE_STATIC_RESIDENT \<Rightarrow> content_entry_static_load w fs_path
         | SERVE_STATIC_STREAMED \<Rightarrow>
             content_entry_streamed_load w fs_path st SERVE_STATIC_STREAMED ''max-age=31536000, immutable''
         | SERVE_DYN_RESIDENT \<Rightarrow> content_entry_dynamic_load w fs_path st
         | SERVE_DYN_STREAMED \<Rightarrow> content_entry_streamed_load w fs_path st SERVE_DYN_STREAMED ''no-cache'');
       register_entry cfg d url r
     })"

text \<open>The loop over the directory entries; \<open>url\<close> and \<open>fpath\<close> are cut at 511 bytes.\<close>

fun add_dir_loop :: "config \<Rightarrow> registry \<Rightarrow> string \<Rightarrow> string option \<Rightarrow> serve_mode \<Rightarrow> (string \<times> bool) list \<Rightarrow> nat
    \<Rightarrow> 'u world \<Rightarrow> (nat \<times> registry \<times> 'u world) option" where
  "add_dir_loop cfg d dir prefix mode [] f_count w = Some (f_count, d, w)"
| "add_dir_loop cfg d dir prefix mode ((name, regular) # des) f_count w =
     (if take 1 name = ''.'' \<or> \<not> regular then add_dir_loop cfg d dir prefix mode des f_count w
      else do {
        let url = take 511 (case prefix of Some p \<Rightarrow> p @ ''/'' @ name | None \<Rightarrow> ''/'' @ name);
        let fpath = take 511 (dir @ ''/'' @ name);
        (n, d, w) \<leftarrow> content_registry_add_file cfg d fpath url mode w;
        (_, d, w) \<leftarrow> (if name = ''index.html'' then content_registry_add_file cfg d fpath ''/'' mode w
                     else Some (0, d, w));
        add_dir_loop cfg d dir prefix mode des (f_count + n) w
      })"

definition content_registry_add_dir :: "config \<Rightarrow> registry \<Rightarrow> string \<Rightarrow> string option \<Rightarrow> serve_mode \<Rightarrow> 'u world
    \<Rightarrow> (nat \<times> registry \<times> 'u world) option" where
  "content_registry_add_dir cfg d dir prefix mode w = (case map_of (w_dirs w) dir of
     None \<Rightarrow> Some (0, d, w)
   | Some des \<Rightarrow> add_dir_loop cfg d dir prefix mode des 0 w)"

text \<open>\<open>kvp_free\<close> releases the metadata, the entry and the key of a pair; \<open>freed\<close> lists what has been released.\<close>

datatype block = Reval_Block reval_meta | Entry_Block content_entry | Key_Block string

definition kvp_free :: "string option \<times> content_entry \<Rightarrow> block list \<Rightarrow> block list" where
  "kvp_free kvp freed = freed
     @ (case ce_reval (snd kvp) of Some r \<Rightarrow> [Reval_Block r] | None \<Rightarrow> [])
     @ Entry_Block (snd kvp) # (case fst kvp of Some key \<Rightarrow> [Key_Block key] | None \<Rightarrow> [])"

definition content_registry_free :: "registry option \<Rightarrow> block list \<Rightarrow> block list" where
  "content_registry_free cache freed = dict_free cache (Some kvp_free) freed"

subsection \<open>What is loaded\<close>

lemma length_show_nat_len_buf: "length (show_nat len) < len_buf_size" if "len < 10 ^ 20"
  using length_show_nat [of len 20] that by (simp add: len_buf_size_def)

lemma file_read_ok:
  assumes "map_of (w_files w) path = Some f" "length (w_fds w) < w_fd_limit w" "\<not> f_broken f"
    "length (f_bytes f) < length dest"
  obtains dest' where "file_read w path dest (length (f_bytes f)) = Some (Some (length (f_bytes f)), dest')"
    "length dest' = length dest" "take (length (f_bytes f)) dest' = f_bytes f"
proof -
  have "length [] + length (f_bytes f) \<le> length dest" using assms(4) by simp
  from blit_starts [OF starts_Nil this] obtain d1 where d1: "blit dest 0 (f_bytes f) = Some d1" "length d1 = length dest"
    "starts d1 (f_bytes f)" by auto
  have "length (f_bytes f) + length [NUL] \<le> length d1" using assms(4) d1(2) by simp
  with d1(3) obtain d2 where d2: "blit d1 (length (f_bytes f)) [NUL] = Some d2" "length d2 = length d1"
    "starts d2 (f_bytes f @ [NUL])" by (rule blit_starts)
  show thesis
  proof (rule that)
    show "file_read w path dest (length (f_bytes f)) = Some (Some (length (f_bytes f)), d2)"
      using assms d1(1) d2(1) by (simp add: file_read_def)
    show "length d2 = length dest" using d1(2) d2(2) by simp
    show "take (length (f_bytes f)) d2 = f_bytes f"
      using starts_prefix [OF d2(3)] by (simp add: starts_def)
  qed
qed

lemma len_header_write_spec:
  assumes "len < 10 ^ 20"
  shows "len_header_write m len = (if len + 1 + length (show_nat len) + 1 \<le> length m
     then Some (show_nat len, take (len + 1) m @ show_nat len @ [NUL] @ drop (len + 1 + length (show_nat len) + 1) m)
     else None)"
proof -
  have l: "length (show_nat len) < len_buf_size" using assms by (rule length_show_nat_len_buf)
  then have t: "take (len_buf_size - 1) (show_nat len) = show_nat len" "len_buf_size \<noteq> 0" by auto
  show ?thesis
    unfolding len_header_write_def snprintf_def t(1) using t(2) by (simp add: blit_def)
qed

lemma stat_size_file:
  "map_of (w_files w) path = Some f \<Longrightarrow> stat_path w path = Some \<lparr> st_mtime = f_mtime f, st_size = length (f_bytes f) \<rparr>"
  by (simp add: stat_path_def)

lemma malloc_okE:
  assumes "malloc_ok w = (ok, w')"
  shows "w_files w' = w_files w" "w_fds w' = w_fds w" "w_fd_limit w' = w_fd_limit w" "w_slack w' = w_slack w"
    "w_clock w' = w_clock w" "w_dirs w' = w_dirs w" "w_read_errors w' = w_read_errors w"
  using assms by (auto simp: malloc_ok_def split: list.splits)

lemma static_load_ok:
  assumes "map_of (w_files w) path = Some f" "length (w_fds w) < w_fd_limit w" "\<not> f_broken f"
    "length (f_bytes f) < 10 ^ 20" "malloc_ok w = (True, w')"
  obtains e where "content_entry_static_load w path = Some (Some e, w')" "ce_mode e = SERVE_STATIC_RESIDENT"
    "ce_len e = length (f_bytes f)" "take (ce_len e) (ce_data e) = f_bytes f" "ce_len e < length (ce_data e)"
    "ce_headers e = [\<lparr> rhd_key = ''Content-Type'', rhd_value = content_type path \<rparr>,
       \<lparr> rhd_key = ''Content-Length'', rhd_value = show_nat (length (f_bytes f)) \<rparr>,
       \<lparr> rhd_key = ''Cache-Control'', rhd_value = ''max-age=31536000, immutable'' \<rparr>]"
proof -
  let ?n = "length (f_bytes f)" and ?d = "replicate (length (f_bytes f) + 1 + len_buf_size + w_slack w') NUL"
  note w' = malloc_okE [OF assms(5)]
  have "map_of (w_files w') path = Some f" "length (w_fds w') < w_fd_limit w'" "?n < length ?d" using assms w' by simp_all
  from file_read_ok [OF this(1,2) assms(3) this(3)] obtain d1 where
    d1: "file_read w' path ?d ?n = Some (Some ?n, d1)" "length d1 = length ?d" "take ?n d1 = f_bytes f" .
  have fits: "?n + 1 + length (show_nat ?n) + 1 \<le> length d1"
    using length_show_nat_len_buf [OF assms(4)] d1(2) by simp
  define d2 where "d2 = take (?n + 1) d1 @ show_nat ?n @ [NUL] @ drop (?n + 1 + length (show_nat ?n) + 1) d1"
  have len: "len_header_write d1 ?n = Some (show_nat ?n, d2)"
    using fits by (simp add: len_header_write_spec [OF assms(4)] d2_def)
  have d2: "take ?n d2 = f_bytes f" "?n < length d2" using d1(2,3) fits by (simp_all add: d2_def)
  let ?e = "\<lparr> ce_mode = SERVE_STATIC_RESIDENT, ce_len = ?n,
       ce_headers = [\<lparr> rhd_key = ''Content-Type'', rhd_value = content_type path \<rparr>,
       \<lparr> rhd_key = ''Content-Length'', rhd_value = show_nat ?n \<rparr>,
       \<lparr> rhd_key = ''Cache-Control'', rhd_value = ''max-age=31536000, immutable'' \<rparr>], ce_reval = None, ce_data = d2 \<rparr>"
  show thesis
  proof (rule that [of ?e])
    show "content_entry_static_load w path = Some (Some ?e, w')"
      using d1(1) len by (simp add: content_entry_static_load_def stat_size_file [OF assms(1)] assms(5))
  qed (use d2 in simp_all)
qed

lemma reval_fill_sane:
  "sane_clock (st_mtime st) \<Longrightarrow> reval_fill st path = Some \<lparr> rv_mtime = st_mtime st, rv_size = st_size st,
     rv_fs_path = take 255 path, rv_etag = take 39 (etag_text st), rv_last_modified = http_date_text (gmtime (st_mtime st)) \<rparr>"
  by (simp add: reval_fill_def Let_def length_http_date)

lemma dynamic_load_cases:
  assumes "map_of (w_files w) path = Some f" "length (w_fds w) < w_fd_limit w" "\<not> f_broken f"
    "length (f_bytes f) < 10 ^ 20" "malloc_ok w = (True, wa)" "malloc_ok wa = (True, w')" "sane_clock (f_mtime f)"
  shows "if w_slack w \<le> length (show_nat (length (f_bytes f)))
     then content_entry_dynamic_load w path \<lparr> st_mtime = f_mtime f, st_size = length (f_bytes f) \<rparr> = None
     else \<exists>e. content_entry_dynamic_load w path \<lparr> st_mtime = f_mtime f, st_size = length (f_bytes f) \<rparr> = Some (Some e, w')
       \<and> ce_mode e = SERVE_DYN_RESIDENT \<and> ce_len e = length (f_bytes f) \<and> take (ce_len e) (ce_data e) = f_bytes f
       \<and> ce_reval e = reval_fill \<lparr> st_mtime = f_mtime f, st_size = length (f_bytes f) \<rparr> path \<and> length (ce_headers e) = 5
       \<and> ce_len e < length (ce_data e)"
proof -
  let ?n = "length (f_bytes f)" and ?st = "\<lparr> st_mtime = f_mtime f, st_size = length (f_bytes f) \<rparr>"
  let ?d = "replicate (?n + 1 + w_slack w') NUL"
  note w' = malloc_okE [OF assms(5)] malloc_okE [OF assms(6)]
  have "map_of (w_files w') path = Some f" "length (w_fds w') < w_fd_limit w'" "?n < length ?d" using assms w' by simp_all
  from file_read_ok [OF this(1,2) assms(3) this(3)] obtain d1 where
    d1: "file_read w' path ?d ?n = Some (Some ?n, d1)" "length d1 = length ?d" "take ?n d1 = f_bytes f" .
  have slack: "w_slack w' = w_slack w" using w' by simp
  obtain r where r: "reval_fill ?st path = Some r" using reval_fill_sane [of ?st] assms(7) by simp
  note len = len_header_write_spec [OF assms(4), of d1]
  show ?thesis
  proof (cases "w_slack w \<le> length (show_nat ?n)")
    case True
    then have "len_header_write d1 ?n = None" using d1(2) slack by (simp add: len)
    then have "content_entry_dynamic_load w path ?st = None"
      using d1(1) r by (simp add: content_entry_dynamic_load_def assms(5,6))
    with True show ?thesis by simp
  next
    case False
    then obtain d2 where d2: "len_header_write d1 ?n = Some (show_nat ?n, d2)" "take ?n d2 = f_bytes f" "?n < length d2"
      using d1(2,3) slack by (simp add: len)
    with False d1(1) r show ?thesis
      by (simp add: content_entry_dynamic_load_def assms(5,6))
  qed
qed

subsection \<open>Properties of the registry\<close>

text \<open>
  C31: the loader of a dynamic resident entry writes outside its block.  It asks for room for the
  bytes of the file and a terminator, then prints the length behind them; on a readable file that is
  a fault unless the allocator happens to have granted more bytes than the length has digits.
\<close>

theorem dynamic_load_overruns_its_block:
  assumes "map_of (w_files w) path = Some f" "length (w_fds w) < w_fd_limit w" "\<not> f_broken f"
    "length (f_bytes f) < 10 ^ 20" "malloc_ok w = (True, wa)" "malloc_ok wa = (True, w')" "sane_clock (f_mtime f)"
    "w_slack w \<le> length (show_nat (length (f_bytes f)))"
  shows "content_entry_dynamic_load w path \<lparr> st_mtime = f_mtime f, st_size = length (f_bytes f) \<rparr> = None"
  using dynamic_load_cases [OF assms(1-7)] assms(8) by (simp only: if_True)

definition demo_file :: fs_file where
  "demo_file = \<lparr> f_mtime = 1000000000, f_bytes = ''hello'', f_regular = True, f_broken = False \<rparr>"

theorem dynamic_load_overruns_its_block_witness:
  "content_entry_dynamic_load (demo_world\<lparr>w_files := [(''a.html'', demo_file)]\<rparr>) ''a.html''
     \<lparr> st_mtime = f_mtime demo_file, st_size = length (f_bytes demo_file) \<rparr> = None"
  by (rule dynamic_load_overruns_its_block [where f = demo_file and wa = "demo_world\<lparr>w_files := [(''a.html'', demo_file)]\<rparr>"
        and w' = "demo_world\<lparr>w_files := [(''a.html'', demo_file)]\<rparr>"])
    (simp_all add: demo_world_def demo_file_def malloc_ok_def sane_clock_def)

text \<open>
  C29: a static file is served as it is.  Registering a readable file as a static resident, with memory for the
  entry and, where its URL is new, for the copy of the URL and the node of the dictionary, succeeds
  and changes the answer for its URL only; from then on a lookup of the URL is a hit for every
  request and every state of the file system, and the response to a request other than HEAD has
  status 200, exactly the bytes of the file as its body and their number as its \<open>Content-Length\<close>.
\<close>

theorem static_file_is_served:
  assumes "dict_inv cfg d" "map_of (w_files w) path = Some f" "length (w_fds w) < w_fd_limit w" "\<not> f_broken f"
    "length (f_bytes f) < 10 ^ 20" "malloc_ok w = (True, wa)"
    "if dict_find cfg (Some d) url = Some None then malloc_ok wa = (True, wb) \<and> malloc_ok wb = (True, w') else w' = wa"
  shows "\<exists>d' e. content_registry_add_file cfg d path url SERVE_STATIC_RESIDENT w = Some (1, d', w') \<and> dict_inv cfg d'
    \<and> (\<forall>u. u \<noteq> url \<longrightarrow> dict_find cfg (Some d') u = dict_find cfg (Some d) u)
    \<and> (\<forall>req (v :: 'v world). content_registry_lookup cfg (Some d') req url v
         = Some (\<lparr> cl_status = CONTENT_HIT, cl_entry = Some e \<rparr>, Some d', v))
    \<and> (\<forall>req a (v :: 'v world). rl_method (rq_line req) \<noteq> HEAD \<longrightarrow>
         (\<exists>resp. response_for_entry req e a v = Some (resp, a, v) \<and> wf_response resp \<and> rs_status resp = 200
           \<and> response_body resp = f_bytes f
           \<and> \<lparr> rhd_key = ''Content-Length'', rhd_value = show_nat (length (f_bytes f)) \<rparr> \<in> set (rs_headers resp)))"
proof -
  obtain e where e: "content_entry_static_load w path = Some (Some e, wa)" "ce_mode e = SERVE_STATIC_RESIDENT"
    "ce_len e = length (f_bytes f)" "take (ce_len e) (ce_data e) = f_bytes f" "ce_len e < length (ce_data e)"
    "ce_headers e = [\<lparr> rhd_key = ''Content-Type'', rhd_value = content_type path \<rparr>,
       \<lparr> rhd_key = ''Content-Length'', rhd_value = show_nat (length (f_bytes f)) \<rparr>,
       \<lparr> rhd_key = ''Cache-Control'', rhd_value = ''max-age=31536000, immutable'' \<rparr>]"
    by (rule static_load_ok [OF assms(2-6)])
  let ?d = "dict_put cfg d url e"
  note put = dict_put_inv [OF assms(1), of url e]
  have "\<exists>freed. dict_insert cfg d url e wa = Some (1, ?d, freed, w')"
    using assms(7) by (simp add: dict_find_get [OF assms(1)] dict_insert_cases [OF assms(1)] split: option.splits if_splits)
  then have "content_registry_add_file cfg d path url SERVE_STATIC_RESIDENT w = Some (1, ?d, w')"
    by (auto simp: content_registry_add_file_def stat_size_file [OF assms(2)] e(1) register_entry_def)
  moreover have finds: "dict_find cfg (Some ?d) u = Some (if u = url then Some e else dict_get cfg d u)" for u
    by (simp add: dict_find_get [OF put(1)] put(2))
  moreover have "content_registry_lookup cfg (Some ?d) req url v
      = Some (\<lparr> cl_status = CONTENT_HIT, cl_entry = Some e \<rparr>, Some ?d, v)" for req and v :: "'v world"
    by (simp add: content_registry_lookup_def finds e(2))
  moreover have "\<exists>resp. response_for_entry req e a v = Some (resp, a, v) \<and> wf_response resp \<and> rs_status resp = 200
      \<and> response_body resp = f_bytes f
      \<and> \<lparr> rhd_key = ''Content-Length'', rhd_value = show_nat (length (f_bytes f)) \<rparr> \<in> set (rs_headers resp)"
    if "rl_method (rq_line req) \<noteq> HEAD" for req a and v :: "'v world"
    using that e by (simp add: response_for_entry_def response_resident_def wf_response_def response_body_def live_def)
  ultimately show ?thesis using put(1) by (intro exI [of _ ?d] exI [of _ e]) (simp add: dict_find_get [OF assms(1)])
qed

theorem static_file_is_served_witness:
  "\<exists>d' e. content_registry_add_file esp32_config (replicate (bucket_count esp32_config) []) ''a.html'' ''/a''
        SERVE_STATIC_RESIDENT (demo_world\<lparr>w_files := [(''a.html'', demo_file)], w_mallocs := [True, True, True, False]\<rparr>)
      = Some (1, d', demo_world\<lparr>w_files := [(''a.html'', demo_file)], w_mallocs := [False]\<rparr>) \<and> dict_inv esp32_config d'
    \<and> (\<forall>u. u \<noteq> ''/a'' \<longrightarrow> dict_find esp32_config (Some d') u = dict_find esp32_config (Some (replicate (bucket_count esp32_config) [])) u)
    \<and> (\<forall>req (v :: unit world). content_registry_lookup esp32_config (Some d') req ''/a'' v
         = Some (\<lparr> cl_status = CONTENT_HIT, cl_entry = Some e \<rparr>, Some d', v))
    \<and> (\<forall>req a (v :: unit world). rl_method (rq_line req) \<noteq> HEAD \<longrightarrow>
         (\<exists>resp. response_for_entry req e a v = Some (resp, a, v) \<and> wf_response resp \<and> rs_status resp = 200
           \<and> response_body resp = f_bytes demo_file
           \<and> \<lparr> rhd_key = ''Content-Length'', rhd_value = show_nat (length (f_bytes demo_file)) \<rparr> \<in> set (rs_headers resp)))"
proof -
  let ?w = "\<lambda>bs. demo_world\<lparr>w_files := [(''a.html'', demo_file)], w_mallocs := bs\<rparr>"
  have buckets: "0 < bucket_count esp32_config" by (simp add: esp32_config_def)
  note empty = dict_inv_empty [OF buckets] dict_find_get [OF dict_inv_empty [OF buckets]] dict_get_empty [OF buckets]
  show ?thesis
    by (rule static_file_is_served [where wa = "?w [True, True, False]" and wb = "?w [True, False]"])
      (simp_all add: empty, simp_all add: demo_world_def demo_file_def malloc_ok_def)
qed

lemma dynamic_load_Some:
  assumes "content_entry_dynamic_load w path st = Some (Some e, w')"
  shows "\<exists>reval. reval_fill st path = Some reval \<and> ce_mode e = SERVE_DYN_RESIDENT \<and> ce_reval e = Some reval
    \<and> (\<exists>h0 h1 h4. ce_headers e = [h0, h1, \<lparr> rhd_key = ''ETag'', rhd_value = rv_etag reval \<rparr>,
         \<lparr> rhd_key = ''Last-Modified'', rhd_value = rv_last_modified reval \<rparr>, h4])"
  using assms by (auto simp: content_entry_dynamic_load_def Let_def Option.bind_eq_Some_conv split: prod.splits if_splits option.splits)

lemma reval_fill_Some:
  "reval_fill st path = Some reval \<Longrightarrow> rv_mtime reval = st_mtime st \<and> rv_size reval = st_size st
     \<and> rv_fs_path reval = take 255 path \<and> rv_last_modified reval = http_date_text (gmtime (st_mtime st))"
  by (auto simp: reval_fill_def Let_def split: if_splits)

lemma lookup_unchanged:
  assumes "dict_find cfg (Some d) url = Some (Some e)" "ce_mode e = SERVE_DYN_RESIDENT" "ce_reval e = Some reval"
    "stat_path v (rv_fs_path reval) = Some \<lparr> st_mtime = rv_mtime reval, st_size = rv_size reval \<rparr>"
  shows "content_registry_lookup cfg (Some d) req url v = map_option (\<lambda>r. (r, Some d, v)) (cl_dynamic req e)"
  using assms by (simp add: content_registry_lookup_def map_conv_bind_option comp_def)

text \<open>
  C30: the validators the server sends are the ones it accepts.  For a dynamic resident entry as it was
  loaded from a file of a year of four digits, there are an entity tag and a date, that of the file, such that the response that serves
  the entry and the 304 both carry them as \<open>ETag\<close> and \<open>Last-Modified\<close>; and as long as \<open>stat\<close> shows the
  same time and size at the stored path, a lookup of the URL of the entry answers 304 to a request with \<open>If-None-Match\<close> exactly if
  that is this tag or an asterisk, whatever \<open>If-Modified-Since\<close> says, to one with only
  \<open>If-Modified-Since\<close> exactly if its date is not before that of the file, so for the date that was sent, and never to one
  with neither.  Streamed entries send validators too, but a lookup does not look at them.
\<close>

theorem sent_validators_match:
  assumes "content_entry_dynamic_load w path st = Some (Some e, w')" "sane_clock (st_mtime st)"
    "dict_find cfg (Some d) url = Some (Some e)" "stat_path v (take 255 path) = Some \<lparr> st_mtime = st_mtime st, st_size = st_size st \<rparr>"
  shows "\<exists>etag date. date = http_date_text (gmtime (st_mtime st))
    \<and> (\<forall>req a (u :: 'u world). \<exists>resp. response_for_entry req e a u = Some (resp, a, u) \<and> rs_status resp = 200
         \<and> \<lparr> rhd_key = ''ETag'', rhd_value = etag \<rparr> \<in> set (rs_headers resp)
         \<and> \<lparr> rhd_key = ''Last-Modified'', rhd_value = date \<rparr> \<in> set (rs_headers resp))
    \<and> (\<exists>resp :: 'u response. response_dynamic_304 e = Some resp \<and> rs_status resp = 304
         \<and> \<lparr> rhd_key = ''ETag'', rhd_value = etag \<rparr> \<in> set (rs_headers resp)
         \<and> \<lparr> rhd_key = ''Last-Modified'', rhd_value = date \<rparr> \<in> set (rs_headers resp))
    \<and> (\<forall>req. content_registry_lookup cfg (Some d) req url v = Some (\<lparr> cl_status =
         (if (case header_find (rq_headers req) ''if-none-match'' of
                Some h \<Rightarrow> h_value h = ''*'' \<or> h_value h = etag
              | None \<Rightarrow> (case header_find (rq_headers req) ''if-modified-since'' of
                    Some h \<Rightarrow> h_value h = date \<or> (\<exists>t \<ge> st_mtime st. http_date_parse (h_value h) = Some t)
                  | None \<Rightarrow> False))
          then CONTENT_NOT_MODIFIED else CONTENT_HIT), cl_entry = Some e \<rparr>, Some d, v))"
proof -
  from dynamic_load_Some [OF assms(1)] obtain reval h0 h1 h4 where
    reval: "reval_fill st path = Some reval" "ce_mode e = SERVE_DYN_RESIDENT" "ce_reval e = Some reval" and
    headers: "ce_headers e = [h0, h1, \<lparr> rhd_key = ''ETag'', rhd_value = rv_etag reval \<rparr>,
      \<lparr> rhd_key = ''Last-Modified'', rhd_value = rv_last_modified reval \<rparr>, h4]" by blast
  note fill = reval_fill_Some [OF reval(1)]
  have date: "http_date_parse (rv_last_modified reval) = Some (st_mtime st)"
    using fill by (simp add: http_date_parse_def strptime_http_date_text [OF printable_gmtime [OF assms(2)]] timegm_gmtime)
  have "content_registry_lookup cfg (Some d) req url v = map_option (\<lambda>r. (r, Some d, v)) (cl_dynamic req e)" for req
    using fill assms(4) by (intro lookup_unchanged [OF assms(3) reval(2,3)]) simp
  then have "content_registry_lookup cfg (Some d) req url v = Some (\<lparr> cl_status =
         (if (case header_find (rq_headers req) ''if-none-match'' of
                Some h \<Rightarrow> h_value h = ''*'' \<or> h_value h = rv_etag reval
              | None \<Rightarrow> (case header_find (rq_headers req) ''if-modified-since'' of
                    Some h \<Rightarrow> h_value h = rv_last_modified reval \<or> (\<exists>t \<ge> st_mtime st. http_date_parse (h_value h) = Some t)
                  | None \<Rightarrow> False))
          then CONTENT_NOT_MODIFIED else CONTENT_HIT), cl_entry = Some e \<rparr>, Some d, v)" for req
    using fill date by (auto simp: cl_dynamic_def request_validators_match_def reval(3) split: option.splits)
  moreover have "\<exists>resp. response_for_entry req e a u = Some (resp, a, u) \<and> rs_status resp = 200
         \<and> \<lparr> rhd_key = ''ETag'', rhd_value = rv_etag reval \<rparr> \<in> set (rs_headers resp)
         \<and> \<lparr> rhd_key = ''Last-Modified'', rhd_value = rv_last_modified reval \<rparr> \<in> set (rs_headers resp)" for req a and u :: "'u world"
    by (simp add: response_for_entry_def response_resident_def Let_def reval(2) headers)
  moreover have "\<exists>resp :: 'u response. response_dynamic_304 e = Some resp \<and> rs_status resp = 304
         \<and> \<lparr> rhd_key = ''ETag'', rhd_value = rv_etag reval \<rparr> \<in> set (rs_headers resp)
         \<and> \<lparr> rhd_key = ''Last-Modified'', rhd_value = rv_last_modified reval \<rparr> \<in> set (rs_headers resp)"
    by (simp add: response_dynamic_304_def response_none_def headers)
  ultimately show ?thesis
    using fill by (intro exI [of _ "rv_etag reval"] exI [of _ "rv_last_modified reval"] conjI allI) simp_all
qed

text \<open>An entry loaded with room behind its block, and requests that return its tag, its date and the second before.\<close>

theorem sent_validators_match_witness:
  "\<exists>e d etag. content_entry_dynamic_load (demo_world\<lparr>w_files := [(''a.html'', demo_file)], w_slack := 21\<rparr>) ''a.html''
       \<lparr> st_mtime = f_mtime demo_file, st_size = length (f_bytes demo_file) \<rparr>
       = Some (Some e, demo_world\<lparr>w_files := [(''a.html'', demo_file)], w_slack := 21\<rparr>)
     \<and> dict_find esp32_config (Some d) ''/a'' = Some (Some e)
     \<and> (\<exists>resp :: unit response. response_dynamic_304 e = Some resp \<and> \<lparr> rhd_key = ''ETag'', rhd_value = etag \<rparr> \<in> set (rs_headers resp))
     \<and> map (\<lambda>h. map_option (cl_status \<circ> fst) (content_registry_lookup esp32_config (Some d) (request_zero\<lparr>rq_headers := [h]\<rparr>) ''/a''
           (demo_world\<lparr>w_files := [(''a.html'', demo_file)]\<rparr>)))
         [\<lparr> h_key = ''If-None-Match'', h_value = etag \<rparr>,
          \<lparr> h_key = ''if-none-match'', h_value = ''other'' \<rparr>,
          \<lparr> h_key = ''If-Modified-Since'', h_value = http_date_text (gmtime 1000000000) \<rparr>,
          \<lparr> h_key = ''If-Modified-Since'', h_value = http_date_text (gmtime 999999999) \<rparr>]
       = [Some CONTENT_NOT_MODIFIED, Some (if ''other'' = etag then CONTENT_NOT_MODIFIED else CONTENT_HIT),
          Some CONTENT_NOT_MODIFIED, Some CONTENT_HIT]"
proof -
  let ?w = "demo_world\<lparr>w_files := [(''a.html'', demo_file)], w_slack := 21\<rparr>"
  let ?v = "demo_world\<lparr>w_files := [(''a.html'', demo_file)]\<rparr>"
  let ?st = "\<lparr> st_mtime = f_mtime demo_file, st_size = length (f_bytes demo_file) \<rparr>"
  have sane: "sane_clock (f_mtime demo_file)" by (simp add: demo_file_def sane_clock_def)
  have "map_of (w_files ?w) ''a.html'' = Some demo_file" "length (w_fds ?w) < w_fd_limit ?w" "\<not> f_broken demo_file"
    "length (f_bytes demo_file) < 10 ^ 20" "malloc_ok ?w = (True, ?w)" by (simp_all add: demo_world_def demo_file_def malloc_ok_def)
  from dynamic_load_cases [OF this this(5) sane] obtain e where e: "content_entry_dynamic_load ?w ''a.html'' ?st = Some (Some e, ?w)"
    by (auto simp: demo_file_def show_nat_def show_base.simps split: if_splits)
  let ?d = "dict_put esp32_config (replicate (bucket_count esp32_config) []) ''/a'' e"
  have "0 < bucket_count esp32_config" by (simp add: esp32_config_def)
  note inv = dict_put_inv [OF dict_inv_empty [OF this], of "''/a''" e]
  have find: "dict_find esp32_config (Some ?d) ''/a'' = Some (Some e)" by (simp add: dict_find_get [OF inv(1)] inv(2))
  have "stat_path ?v (take 255 ''a.html'') = Some \<lparr> st_mtime = st_mtime ?st, st_size = st_size ?st \<rparr>"
    by (simp add: stat_path_def)
  note match = sent_validators_match [OF e _ find this, simplified stat_buf.simps, OF sane]
  from match obtain etag where
    etag: "\<exists>resp :: unit response. response_dynamic_304 e = Some resp \<and> \<lparr> rhd_key = ''ETag'', rhd_value = etag \<rparr> \<in> set (rs_headers resp)" and
    lookup: "\<forall>req. content_registry_lookup esp32_config (Some ?d) req ''/a'' ?v = Some (\<lparr> cl_status =
         (if (case header_find (rq_headers req) ''if-none-match'' of
                Some h \<Rightarrow> h_value h = ''*'' \<or> h_value h = etag
              | None \<Rightarrow> (case header_find (rq_headers req) ''if-modified-since'' of
                    Some h \<Rightarrow> h_value h = http_date_text (gmtime (f_mtime demo_file)) \<or> (\<exists>t \<ge> f_mtime demo_file. http_date_parse (h_value h) = Some t)
                  | None \<Rightarrow> False))
          then CONTENT_NOT_MODIFIED else CONTENT_HIT), cl_entry = Some e \<rparr>, Some ?d, ?v)" by blast
  have names: "ascii_ieq ''If-None-Match'' ''if-none-match''" "\<not> ascii_ieq ''If-Modified-Since'' ''if-none-match''"
    "ascii_ieq ''if-none-match'' ''if-none-match''" "ascii_ieq ''If-Modified-Since'' ''if-modified-since''" by code_simp+
  have parse: "http_date_parse (http_date_text (gmtime t)) = Some t" if "sane_clock t" for t
    using that by (simp add: http_date_parse_def strptime_http_date_text [OF printable_gmtime] timegm_gmtime)
  have dates: "f_mtime demo_file = 1000000000" "http_date_parse (http_date_text (gmtime 999999999)) = Some 999999999"
    "http_date_parse (http_date_text (gmtime 1000000000)) = Some 1000000000"
    by (simp_all add: demo_file_def parse sane_clock_def)
  then have old: "http_date_text (gmtime 999999999) \<noteq> http_date_text (gmtime 1000000000)" by auto
  have status: "map_option (cl_status \<circ> fst) (content_registry_lookup esp32_config (Some ?d) (request_zero\<lparr>rq_headers := [h]\<rparr>) ''/a'' ?v)
      = Some (if (if ascii_ieq (h_key h) ''if-none-match'' then h_value h = ''*'' \<or> h_value h = etag
          else ascii_ieq (h_key h) ''if-modified-since'' \<and> (h_value h = http_date_text (gmtime 1000000000)
            \<or> (\<exists>t \<ge> 1000000000. http_date_parse (h_value h) = Some t))) then CONTENT_NOT_MODIFIED else CONTENT_HIT)" for h
    unfolding lookup [rule_format] dates(1) by simp
  show ?thesis
    by (intro exI [of _ e] exI [of _ ?d] exI [of _ etag] conjI e find etag) (simp only: status list.map header.simps names dates old, simp)
qed

end
