(* ===== verification/Router.thy ===== *)
theory Router
  imports Content
begin

text \<open>
  The route table, the first half of \<open>src/HttpRouter.c\<close>: finding the route of a request, and the
  start-up check for duplicate routes.
\<close>

subsection \<open>Routes\<close>

text \<open>
  A handler is a function of the application: it sees the request and the bytes \<open>body\<close> points at, and may
  use the scratch arena of the request and the part of the world that is its own; a handler that fails an
  assertion is a fault.  The union is read as \<open>fn_with_data\<close> exactly when \<open>data\<close> is not
  \<open>NULL\<close>; reading the member that was not written is a fault.
\<close>

type_synonym 'u handler_fn = "request \<Rightarrow> string \<Rightarrow> arena \<Rightarrow> 'u world \<Rightarrow> ('u response \<times> arena \<times> 'u world) option"

datatype 'u handler = Fn "'u handler_fn" | Fn_With_Data "nat \<Rightarrow> 'u handler_fn"

text \<open>
  \<open>rt_method_shared\<close> tells whether the pointer \<open>method\<close> is the one \<open>http_method_show (GET)\<close> returns;
  \<open>rt_data\<close> is 0 for \<open>NULL\<close>.
\<close>

record 'u route =
  rt_method :: string
  rt_method_shared :: bool
  rt_path :: string
  rt_handler :: "'u handler"
  rt_data :: nat

record 'u router =
  ro_routes :: "'u route list"
  ro_registry :: "registry option"

record 'u route_lookup_result =
  rlr_route :: "'u route option"
  rlr_allowed :: "string list"

fun route_lookup_loop :: "'u route list \<Rightarrow> string \<Rightarrow> string \<Rightarrow> string list \<Rightarrow> 'u route_lookup_result" where
  "route_lookup_loop [] meth path allowed = \<lparr> rlr_route = None, rlr_allowed = allowed \<rparr>"
| "route_lookup_loop (r # rs) meth path allowed =
     (if path \<noteq> rt_path r then route_lookup_loop rs meth path allowed
      else if meth = rt_method r then \<lparr> rlr_route = Some r, rlr_allowed = allowed \<rparr>
      else route_lookup_loop rs meth path (if length allowed < 8 then allowed @ [rt_method r] else allowed))"

definition route_lookup :: "'u route list \<Rightarrow> string \<Rightarrow> string \<Rightarrow> 'u route_lookup_result" where
  "route_lookup routes meth path = route_lookup_loop routes meth path []"

definition call_handler :: "'u route \<Rightarrow> 'u handler_fn option" where
  "call_handler r = (if rt_data r = 0 then (case rt_handler r of Fn f \<Rightarrow> Some f | Fn_With_Data _ \<Rightarrow> None)
     else (case rt_handler r of Fn_With_Data f \<Rightarrow> Some (f (rt_data r)) | Fn _ \<Rightarrow> None))"

subsection \<open>The check for duplicates\<close>

text \<open>The first loop: a GET route whose path is in the registry.\<close>

fun shadowed_loop :: "config \<Rightarrow> registry option \<Rightarrow> 'u route list \<Rightarrow> bool option" where
  "shadowed_loop cfg reg [] = Some False"
| "shadowed_loop cfg reg (r # rs) =
     (if \<not> rt_method_shared r then shadowed_loop cfg reg rs else do {
        entry \<leftarrow> dict_find cfg reg (rt_path r);
        if entry \<noteq> None then Some True else shadowed_loop cfg reg rs
      })"

text \<open>The second: \<open>i\<close> from 0 below \<open>route_count - 1\<close>, \<open>j\<close> from 1 below \<open>route_count\<close>.\<close>

definition same_route :: "'u route \<Rightarrow> 'u route \<Rightarrow> bool" where
  "same_route r s \<longleftrightarrow> rt_path r = rt_path s \<and> rt_method r = rt_method s"

definition same_loop :: "'u route list \<Rightarrow> bool" where
  "same_loop routes = list_ex (\<lambda>i. list_ex (\<lambda>j. same_route (routes ! i) (routes ! j)) [1..<length routes])
     [0..<length routes - 1]"

text \<open>
  With no routes the bound \<open>route_count - 1\<close> wraps around, and the loop leaves the table: a fault.
\<close>

definition router_has_duplicate_routes :: "config \<Rightarrow> 'u router \<Rightarrow> bool option" where
  "router_has_duplicate_routes cfg router = do {
     shadowed \<leftarrow> shadowed_loop cfg (ro_registry router) (ro_routes router);
     if shadowed then Some True
     else if ro_routes router = [] then None
     else Some (same_loop (ro_routes router))
   }"

subsection \<open>What a lookup finds\<close>

lemma route_lookup_loop_spec:
  "route_lookup_loop rs meth path allowed =
     \<lparr> rlr_route = find (\<lambda>r. path = rt_path r \<and> meth = rt_method r) rs,
       rlr_allowed = allowed @ take (8 - length allowed)
         (map rt_method (filter (\<lambda>r. path = rt_path r)
           (takeWhile (\<lambda>r. \<not> (path = rt_path r \<and> meth = rt_method r)) rs))) \<rparr>"
proof (induction rs arbitrary: allowed)
  case (Cons r rs)
  have "8 - length allowed = Suc (8 - Suc (length allowed))" if "length allowed < 8" using that by simp
  then show ?case using Cons.IH [of allowed] Cons.IH [of "allowed @ [rt_method r]"] by auto
qed simp

text \<open>
  C32: \<open>route_lookup\<close> finds the first route with the method and the path of the request.  When there is
  none, \<open>allowed\<close> lists the methods of the routes with that path in table order, at most eight of
  them; so 405 is answered exactly when the path exists under other methods only, and 404 exactly
  when it does not exist.
\<close>

theorem route_lookup_finds_first:
  "rlr_route (route_lookup routes meth path) = find (\<lambda>r. path = rt_path r \<and> meth = rt_method r) routes
   \<and> (rlr_route (route_lookup routes meth path) = None \<longrightarrow>
        rlr_allowed (route_lookup routes meth path) = take 8 (map rt_method (filter (\<lambda>r. path = rt_path r) routes))
      \<and> (rlr_allowed (route_lookup routes meth path) = [] \<longleftrightarrow> path \<notin> rt_path ` set routes))"
proof -
  have all: "takeWhile (\<lambda>r. \<not> (path = rt_path r \<and> meth = rt_method r)) routes = routes"
    if "find (\<lambda>r. path = rt_path r \<and> meth = rt_method r) routes = None"
    using that by (subst takeWhile_eq_all_conv) (auto simp: find_None_iff)
  have none: "filter (\<lambda>r. path = rt_path r) routes = [] \<longleftrightarrow> path \<notin> rt_path ` set routes"
    by (auto simp: filter_empty_conv)
  show ?thesis
  proof (cases "find (\<lambda>r. path = rt_path r \<and> meth = rt_method r) routes")
    case None
    show ?thesis unfolding route_lookup_def route_lookup_loop_spec all [OF None] using none None by simp
  qed (simp add: route_lookup_def route_lookup_loop_spec)
qed

definition demo_routes :: "unit route list" where
  "demo_routes = [
     \<lparr> rt_method = ''POST'', rt_method_shared = False, rt_path = ''/submit'',
       rt_handler = Fn (\<lambda>req bs a w. Some (response_none 204 ''No Content'' [], a, w)), rt_data = 0 \<rparr>,
     \<lparr> rt_method = ''PUT'', rt_method_shared = False, rt_path = ''/submit'',
       rt_handler = Fn (\<lambda>req bs a w. Some (response_none 204 ''No Content'' [], a, w)), rt_data = 0 \<rparr>]"

theorem route_lookup_finds_first_witness:
  "rlr_route (route_lookup demo_routes ''GET'' ''/submit'') = None
    \<and> rlr_allowed (route_lookup demo_routes ''GET'' ''/submit'') = [''POST'', ''PUT'']"
proof -
  have "find (\<lambda>r. ''/submit'' = rt_path r \<and> ''GET'' = rt_method r) demo_routes = None"
    "take 8 (map rt_method (filter (\<lambda>r. ''/submit'' = rt_path r) demo_routes)) = [''POST'', ''PUT'']"
    by (simp_all add: demo_routes_def)
  then show ?thesis
    using route_lookup_finds_first [of demo_routes "''GET''" "''/submit''"] by simp
qed

subsection \<open>The check rejects every table of three routes\<close>

text \<open>
  C33: the start-up check does not do what it is for.  With a table of at least three routes it reports
  a duplicate whatever the routes are, because \<open>i\<close> and \<open>j\<close> meet at the second route; with no route it
  leaves the table; only with one or two routes does it report exactly the duplicates.
\<close>

theorem duplicate_check_rejects_three_routes:
  assumes "shadowed_loop cfg (ro_registry router) (ro_routes router) = Some False"
  shows "router_has_duplicate_routes cfg router =
    (if ro_routes router = [] then None
     else if length (ro_routes router) \<le> 2 then Some (\<not> distinct (map (\<lambda>r. (rt_path r, rt_method r)) (ro_routes router)))
     else Some True)"
proof -
  let ?rs = "ro_routes router"
  consider "?rs = []" | r where "?rs = [r]" | r s where "?rs = [r, s]" | r s t rest where "?rs = r # s # t # rest"
    by (metis neq_Nil_conv)
  then show ?thesis
  proof cases
    case 4
    have "same_loop ?rs"
      unfolding same_loop_def list_ex_iff
    proof (intro bexI)
      show "same_route (?rs ! 1) (?rs ! 1)" by (simp add: same_route_def)
      show "1 \<in> set [1..<length ?rs]" "1 \<in> set [0..<length ?rs - 1]" using 4
        by (simp_all only: set_upt atLeastLessThan_iff list.size) simp_all
    qed
    with 4 assms show ?thesis by (simp add: router_has_duplicate_routes_def)
  qed (use assms in \<open>auto simp: router_has_duplicate_routes_def same_loop_def same_route_def\<close>)
qed

theorem duplicate_check_rejects_three_routes_witness:
  "router_has_duplicate_routes esp32_config
      \<lparr> ro_routes = demo_routes @ [(hd demo_routes)\<lparr>rt_path := ''/other''\<rparr>], ro_registry = None \<rparr> = Some True
    \<and> distinct (map (\<lambda>r. (rt_path r, rt_method r)) (demo_routes @ [(hd demo_routes)\<lparr>rt_path := ''/other''\<rparr>]))"
  using duplicate_check_rejects_three_routes [of esp32_config
    "\<lparr> ro_routes = demo_routes @ [(hd demo_routes)\<lparr>rt_path := ''/other''\<rparr>], ro_registry = None \<rparr>"]
  by (simp add: demo_routes_def)

end
