(* ===== verification/Readers.thy ===== *)
theory Readers
  imports Chunked Net
begin

text \<open>
  The three read loops of a connection: the head (\<open>conn_recv_header\<close> of \<open>src/Connection.c\<close>), a body
  of known length and a chunked body (\<open>src/HttpBody.c\<close>).  Each may return before it is done and is
  called again when the socket is readable.  The theorems say that what a loop reports depends only
  on the bytes received, not on how they were cut into packets or over how many calls.
\<close>

subsection \<open>The head\<close>

datatype read_header_status =
  READ_HEADER_OK | READ_HEADER_PEER_CLOSED | READ_HEADER_TOO_LARGE | READ_HEADER_IO_ERROR | READ_HEADER_HAS_MORE

record read_header_result =
  rh_status :: read_header_status
  rh_total_received :: nat
  rh_body_start :: nat

text \<open>The loop of \<open>conn_recv_header\<close>; \<open>received\<close> is \<open>res.total_received\<close>.\<close>

function conn_recv_header_loop :: "mem \<Rightarrow> nat \<Rightarrow> nat \<Rightarrow> net \<Rightarrow> (read_header_result \<times> mem \<times> net) option" where
  "conn_recv_header_loop m cap received net = do {
     bytes \<leftarrow> rd_range m 0 received;
     (case memmem bytes (crlf @ crlf) of
       Some t \<Rightarrow> Some (\<lparr> rh_status = READ_HEADER_OK, rh_total_received = received, rh_body_start = t + 4 \<rparr>, m, net)
     | None \<Rightarrow>
         if received \<ge> cap then
           Some (\<lparr> rh_status = READ_HEADER_TOO_LARGE, rh_total_received = received, rh_body_start = 0 \<rparr>, m, net)
         else (case recv net (cap - received) of
             (Inl [], net) \<Rightarrow>
               Some (\<lparr> rh_status = READ_HEADER_PEER_CLOSED, rh_total_received = received, rh_body_start = 0 \<rparr>, m, net)
           | (Inl (b # bs), net) \<Rightarrow> do {
               m \<leftarrow> blit m received (b # bs);
               conn_recv_header_loop m cap (received + length (b # bs)) net
             }
           | (Inr EAGAIN, net) \<Rightarrow>
               Some (\<lparr> rh_status = READ_HEADER_HAS_MORE, rh_total_received = received, rh_body_start = 0 \<rparr>, m, net)
           | (Inr EINTR, net) \<Rightarrow> conn_recv_header_loop m cap received net
           | (Inr _, net) \<Rightarrow>
               Some (\<lparr> rh_status = READ_HEADER_IO_ERROR, rh_total_received = received, rh_body_start = 0 \<rparr>, m, net)))
   }"
  by pat_completeness auto
termination
  by (relation "measure (\<lambda>(m, cap, received, net). inbox_size net)") (auto dest: recv_shrinks [OF sym])

declare conn_recv_header_loop.simps [simp del]

definition conn_recv_header :: "int \<Rightarrow> http_buffer \<Rightarrow> net \<Rightarrow> (read_header_result \<times> http_buffer \<times> net) option" where
  "conn_recv_header fd req net = do {
     m \<leftarrow> hb_bytes req;
     require (fd \<ge> 0);
     (res, m, net) \<leftarrow> conn_recv_header_loop m (hb_cap req) (hb_size req) net;
     Some (res, req\<lparr>hb_bytes := Some m, hb_size := rh_total_received res\<rparr>, net)
   }"

subsection \<open>A body of known length\<close>

datatype read_body_status =
  READ_BODY_OK | READ_BODY_PEER_CLOSED | READ_BODY_TOO_LARGE | READ_BODY_IO_ERROR | READ_BODY_BAD_DATA | READ_BODY_HAS_MORE

record read_body_result =
  rb_status :: read_body_status
  rb_next_req_offset :: nat

function conn_recv_body_cl_loop :: "http_buffer \<Rightarrow> nat \<Rightarrow> nat \<Rightarrow> nat \<Rightarrow> net
    \<Rightarrow> (read_body_result \<times> http_buffer \<times> nat \<times> net) option" where
  "conn_recv_body_cl_loop req body_start body_len received net =
     (if received \<ge> body_len then
        Some (\<lparr> rb_status = READ_BODY_OK,
          rb_next_req_offset = (if received > body_len then body_start + body_len else 0) \<rparr>, req, received, net)
      else if hb_size req \<ge> hb_cap req then
        Some (\<lparr> rb_status = READ_BODY_TOO_LARGE, rb_next_req_offset = 0 \<rparr>, req, received, net)
      else (case recv net (hb_cap req - hb_size req) of
          (Inl [], net) \<Rightarrow> Some (\<lparr> rb_status = READ_BODY_PEER_CLOSED, rb_next_req_offset = 0 \<rparr>, req, received, net)
        | (Inl (b # bs), net) \<Rightarrow> do {
            req \<leftarrow> buffer_append req (b # bs);
            conn_recv_body_cl_loop req body_start body_len (received + length (b # bs)) net
          }
        | (Inr EAGAIN, net) \<Rightarrow> Some (\<lparr> rb_status = READ_BODY_HAS_MORE, rb_next_req_offset = 0 \<rparr>, req, received, net)
        | (Inr EINTR, net) \<Rightarrow> conn_recv_body_cl_loop req body_start body_len received net
        | (Inr _, net) \<Rightarrow> Some (\<lparr> rb_status = READ_BODY_IO_ERROR, rb_next_req_offset = 0 \<rparr>, req, received, net)))"
  by pat_completeness auto
termination
  by (relation "measure (\<lambda>(req, body_start, body_len, received, net). inbox_size net)")
    (auto dest: recv_shrinks [OF sym])

declare conn_recv_body_cl_loop.simps [simp del]

definition conn_recv_body_cl :: "int \<Rightarrow> http_buffer \<Rightarrow> nat \<Rightarrow> nat \<Rightarrow> nat \<Rightarrow> net
    \<Rightarrow> (read_body_result \<times> http_buffer \<times> nat \<times> net) option" where
  "conn_recv_body_cl fd req body_start body_len received net = do {
     m \<leftarrow> hb_bytes req;
     require (fd \<ge> 0);
     conn_recv_body_cl_loop req body_start body_len received net
   }"

subsection \<open>A chunked body\<close>

record chunked_st =
  cs_consumed :: nat
  cs_dec :: chunk_decoder

definition chunked_st_zero :: chunked_st where
  "chunked_st_zero = \<lparr> cs_consumed = 0, cs_dec = chunk_decoder_zero \<rparr>"

text \<open>
  The inner loop: drain what is buffered.  \<open>Inl\<close> is a return from the function, \<open>Inr\<close> the \<open>break\<close> at
  \<open>PARSE_INCOMPLETE\<close>.  \<open>fuel\<close> bounds the turns; \<open>chunked_drain\<close> gives it more than the decoder can take.
\<close>

fun chunked_drain_loop :: "config \<Rightarrow> nat \<Rightarrow> http_buffer \<Rightarrow> nat \<Rightarrow> http_buffer \<Rightarrow> chunked_st
    \<Rightarrow> ((read_body_result + unit) \<times> http_buffer \<times> chunked_st) option" where
  "chunked_drain_loop cfg 0 req_buf body_start dechunked st = None"
| "chunked_drain_loop cfg (Suc fuel) req_buf body_start dechunked st = do {
     m \<leftarrow> hb_bytes req_buf;
     out \<leftarrow> hb_bytes dechunked;
     let cur = body_start + cs_consumed st;
     let in_len = hb_size req_buf - (body_start + cs_consumed st);
     (cr, dec, out) \<leftarrow> chunk_advance cfg (cs_dec st) m cur in_len out (hb_size dechunked)
       (hb_cap dechunked - hb_size dechunked);
     let st = st\<lparr>cs_dec := dec\<rparr>;
     let st = (case next_pos (cr_parse cr) of
         Some nxt \<Rightarrow> st\<lparr>cs_consumed := cs_consumed st + (nxt - cur)\<rparr> | None \<Rightarrow> st);
     let dechunked = dechunked\<lparr>hb_bytes := Some out, hb_size := hb_size dechunked + cr_written cr\<rparr>;
     if status (cr_parse cr) = PARSE_PAYLOAD_TOO_LARGE then
       Some (Inl \<lparr> rb_status = READ_BODY_TOO_LARGE, rb_next_req_offset = 0 \<rparr>, dechunked, st)
     else if status (cr_parse cr) \<noteq> PARSE_OK \<and> status (cr_parse cr) \<noteq> PARSE_INCOMPLETE then
       Some (Inl \<lparr> rb_status = READ_BODY_BAD_DATA, rb_next_req_offset = 0 \<rparr>, dechunked, st)
     else if cd_phase (cs_dec st) = CHUNK_DONE then
       Some (Inl \<lparr> rb_status = READ_BODY_OK, rb_next_req_offset = body_start + cs_consumed st \<rparr>, dechunked, st)
     else if status (cr_parse cr) = PARSE_INCOMPLETE then Some (Inr (), dechunked, st)
     else chunked_drain_loop cfg fuel req_buf body_start dechunked st
   }"

definition chunked_drain :: "config \<Rightarrow> http_buffer \<Rightarrow> nat \<Rightarrow> http_buffer \<Rightarrow> chunked_st
    \<Rightarrow> ((read_body_result + unit) \<times> http_buffer \<times> chunked_st) option" where
  "chunked_drain cfg req_buf body_start dechunked st =
     chunked_drain_loop cfg (hb_size req_buf + 1) req_buf body_start dechunked st"

function conn_recv_body_chunked_loop :: "config \<Rightarrow> http_buffer \<Rightarrow> nat \<Rightarrow> http_buffer \<Rightarrow> chunked_st \<Rightarrow> net
    \<Rightarrow> (read_body_result \<times> http_buffer \<times> http_buffer \<times> chunked_st \<times> net) option" where
  "conn_recv_body_chunked_loop cfg req_buf body_start dechunked st net = do {
     (r, dechunked, st) \<leftarrow> chunked_drain cfg req_buf body_start dechunked st;
     (case r of
       Inl res \<Rightarrow> Some (res, req_buf, dechunked, st, net)
     | Inr _ \<Rightarrow>
         if hb_size req_buf \<ge> hb_cap req_buf then
           Some (\<lparr> rb_status = READ_BODY_TOO_LARGE, rb_next_req_offset = 0 \<rparr>, req_buf, dechunked, st, net)
         else (case recv net (hb_cap req_buf - hb_size req_buf) of
             (Inl [], net) \<Rightarrow>
               Some (\<lparr> rb_status = READ_BODY_PEER_CLOSED, rb_next_req_offset = 0 \<rparr>, req_buf, dechunked, st, net)
           | (Inl (b # bs), net) \<Rightarrow> do {
               req_buf \<leftarrow> buffer_append req_buf (b # bs);
               conn_recv_body_chunked_loop cfg req_buf body_start dechunked st net
             }
           | (Inr EAGAIN, net) \<Rightarrow>
               Some (\<lparr> rb_status = READ_BODY_HAS_MORE, rb_next_req_offset = 0 \<rparr>, req_buf, dechunked, st, net)
           | (Inr EINTR, net) \<Rightarrow> conn_recv_body_chunked_loop cfg req_buf body_start dechunked st net
           | (Inr _, net) \<Rightarrow>
               Some (\<lparr> rb_status = READ_BODY_IO_ERROR, rb_next_req_offset = 0 \<rparr>, req_buf, dechunked, st, net)))
   }"
  by pat_completeness auto
termination
  by (relation "measure (\<lambda>(cfg, req_buf, body_start, dechunked, st, net). inbox_size net)")
    (auto dest: recv_shrinks [OF sym])

declare conn_recv_body_chunked_loop.simps [simp del]

definition conn_recv_body_chunked :: "config \<Rightarrow> int \<Rightarrow> http_buffer \<Rightarrow> nat \<Rightarrow> http_buffer \<Rightarrow> chunked_st \<Rightarrow> net
    \<Rightarrow> (read_body_result \<times> http_buffer \<times> http_buffer \<times> chunked_st \<times> net) option" where
  "conn_recv_body_chunked cfg fd req_buf body_start dechunked st net = do {
     require (fd > 0);
     m \<leftarrow> hb_bytes req_buf;
     out \<leftarrow> hb_bytes dechunked;
     require (body_start + cs_consumed st \<le> hb_size req_buf);
     conn_recv_body_chunked_loop cfg req_buf body_start dechunked st net
   }"

subsection \<open>The head, whatever the packets\<close>

lemma conn_recv_header_loop_spec:
  assumes "length m = cap" "received \<le> cap"
  shows "\<exists>res m' net' bs. conn_recv_header_loop m cap received net = Some (res, m', net')
    \<and> length m' = cap \<and> take (rh_total_received res) m' = take received m @ bs
    \<and> rh_total_received res \<le> cap \<and> received_from net bs net'
    \<and> (case memmem (take received m @ bs) (crlf @ crlf) of
         Some t \<Rightarrow> rh_status res = READ_HEADER_OK \<and> rh_body_start res = t + 4
       | None \<Rightarrow> rh_status res \<noteq> READ_HEADER_OK
           \<and> (rh_status res = READ_HEADER_TOO_LARGE \<longleftrightarrow> rh_total_received res = cap))"
  using assms
proof (induction "inbox_size net" arbitrary: m received net rule: less_induct)
  case less
  have rng: "rd_range m 0 received = Some (take received m)" using less.prems by (simp add: fault_simps)
  show ?case
  proof (cases "memmem (take received m) (crlf @ crlf) = None \<and> received < cap")
    case False
    then show ?thesis using less.prems rng
      by (cases "memmem (take received m) (crlf @ crlf)"; subst conn_recv_header_loop.simps) (auto intro!: exI [of _ "[]"])
  next
    case True
    then have more: "memmem (take received m) (crlf @ crlf) = None" "received < cap" by auto
    show ?thesis
    proof (cases rule: recv_cases [of net "cap - received"])
      case (stopped r net1)
      then show ?thesis using less.prems rng more
        by (subst conn_recv_header_loop.simps) (auto intro!: exI [of _ "[]"] split: errno.splits)
    next
      case (interrupted net1)
      have "conn_recv_header_loop m cap received net = conn_recv_header_loop m cap received net1"
        using rng more interrupted(1) by (subst conn_recv_header_loop.simps) simp
      with less.hyps [OF interrupted(2) less.prems] received_from_append [OF interrupted(3)] show ?thesis by fastforce
    next
      case (arrived b bs' net1)
      define bs where "bs = b # bs'"
      have fits: "received + length bs \<le> length m" using arrived(4) less.prems more(2) by (simp add: bs_def)
      then obtain m1 where m1: "blit m received bs = Some m1" "length m1 = length m"
        "take (received + length bs) m1 = take received m @ bs"
        using blit_in [OF fits] length_blit take_blit by blast
      have turn: "conn_recv_header_loop m cap received net = conn_recv_header_loop m1 cap (received + length bs) net1"
        using rng more arrived(1) m1(1) by (subst conn_recv_header_loop.simps) (simp add: bs_def)
      have "length m1 = cap" "received + length bs \<le> cap" using m1(2) fits less.prems by simp_all
      from less.hyps [OF arrived(2) this] obtain res m' net' cs where
        ih: "conn_recv_header_loop m1 cap (received + length bs) net1 = Some (res, m', net')"
          "length m' = cap" "take (rh_total_received res) m' = (take received m @ bs) @ cs"
          "rh_total_received res \<le> cap" "received_from net1 cs net'"
          "case memmem ((take received m @ bs) @ cs) (crlf @ crlf) of
             Some t \<Rightarrow> rh_status res = READ_HEADER_OK \<and> rh_body_start res = t + 4
           | None \<Rightarrow> rh_status res \<noteq> READ_HEADER_OK
               \<and> (rh_status res = READ_HEADER_TOO_LARGE \<longleftrightarrow> rh_total_received res = cap)"
        unfolding m1(3) by blast
      then show ?thesis unfolding turn using received_from_append [OF arrived(3) [folded bs_def] ih(5)]
        by (intro exI [of _ res] exI [of _ m'] exI [of _ net'] exI [of _ "bs @ cs"]) simp
    qed
  qed
qed

lemma conn_recv_header_spec:
  assumes "wf_buffer req" "0 \<le> fd"
  shows "\<exists>res req' net' bs. conn_recv_header fd req net = Some (res, req', net')
    \<and> wf_buffer req' \<and> hb_cap req' = hb_cap req \<and> live req' = live req @ bs
    \<and> rh_total_received res = hb_size req' \<and> received_from net bs net'
    \<and> (case memmem (live req') (crlf @ crlf) of
         Some t \<Rightarrow> rh_status res = READ_HEADER_OK \<and> rh_body_start res = t + 4
       | None \<Rightarrow> rh_status res \<noteq> READ_HEADER_OK
           \<and> (rh_status res = READ_HEADER_TOO_LARGE \<longleftrightarrow> hb_size req' = hb_cap req'))"
proof -
  obtain m where m: "hb_bytes req = Some m" "length m = hb_cap req" "hb_size req \<le> hb_cap req"
    "live req = take (hb_size req) m" using assms(1) by (rule wf_bufferE)
  obtain res m' net' bs where l: "conn_recv_header_loop m (hb_cap req) (hb_size req) net = Some (res, m', net')"
    "length m' = hb_cap req" "take (rh_total_received res) m' = live req @ bs"
    "rh_total_received res \<le> hb_cap req" "received_from net bs net'"
    "case memmem (live req @ bs) (crlf @ crlf) of
         Some t \<Rightarrow> rh_status res = READ_HEADER_OK \<and> rh_body_start res = t + 4
       | None \<Rightarrow> rh_status res \<noteq> READ_HEADER_OK
           \<and> (rh_status res = READ_HEADER_TOO_LARGE \<longleftrightarrow> rh_total_received res = hb_cap req)"
    using conn_recv_header_loop_spec [OF m(2,3), of net] unfolding m(4) by blast
  define req' where "req' = req\<lparr>hb_bytes := Some m', hb_size := rh_total_received res\<rparr>"
  have "conn_recv_header fd req net = Some (res, req', net')"
    using m(1) assms(2) l(1) by (simp add: conn_recv_header_def req'_def)
  moreover have "wf_buffer req'" "hb_cap req' = hb_cap req" "hb_size req' = rh_total_received res"
    "live req' = live req @ bs"
    using l(2-4) by (simp_all add: req'_def wf_buffer_def live_def [of "req\<lparr>hb_bytes := Some m', hb_size := n\<rparr>" for n])
  ultimately show ?thesis using l(5,6) by (auto split: option.splits)
qed

subsection \<open>The body of known length, whatever the packets\<close>

lemma conn_recv_body_cl_loop_spec:
  assumes "wf_buffer req"
  shows "\<exists>res req' received' net' bs.
      conn_recv_body_cl_loop req body_start body_len received net = Some (res, req', received', net')
    \<and> wf_buffer req' \<and> hb_cap req' = hb_cap req \<and> live req' = live req @ bs
    \<and> received' = received + length bs \<and> received_from net bs net'
    \<and> (if body_len \<le> received'
       then rb_status res = READ_BODY_OK
         \<and> rb_next_req_offset res = (if body_len < received' then body_start + body_len else 0)
       else rb_status res \<noteq> READ_BODY_OK \<and> rb_next_req_offset res = 0)
    \<and> (rb_status res = READ_BODY_HAS_MORE \<longrightarrow> hb_size req' < hb_cap req')"
  using assms
proof (induction "inbox_size net" arbitrary: req received net rule: less_induct)
  case less
  note wf = less.prems
  show ?case
  proof (cases "body_len \<le> received \<or> hb_size req \<ge> hb_cap req")
    case True
    then show ?thesis using wf
      by (subst conn_recv_body_cl_loop.simps) (auto intro!: exI [of _ "[]"])
  next
    case False
    show ?thesis
    proof (cases rule: recv_cases [of net "hb_cap req - hb_size req"])
      case (stopped r net1)
      then have "\<exists>res. conn_recv_body_cl_loop req body_start body_len received net = Some (res, req, received, net1)
          \<and> rb_status res \<noteq> READ_BODY_OK \<and> rb_next_req_offset res = 0"
        using False by (subst conn_recv_body_cl_loop.simps) (auto split: errno.splits)
      then show ?thesis using stopped(3) False wf by (fastforce intro!: exI [of _ "[]"])
    next
      case (interrupted net1)
      have "conn_recv_body_cl_loop req body_start body_len received net
          = conn_recv_body_cl_loop req body_start body_len received net1"
        using False interrupted(1) by (subst conn_recv_body_cl_loop.simps) simp
      with less.hyps [OF interrupted(2) wf, of received] received_from_append [OF interrupted(3)] show ?thesis by fastforce
    next
      case (arrived b bs' net1)
      define bs where "bs = b # bs'"
      have "hb_size req + length bs \<le> hb_cap req" using arrived(4) False by (simp add: bs_def)
      then obtain req1 where a: "buffer_append req bs = Some req1" "wf_buffer req1" "live req1 = live req @ bs"
        "hb_cap req1 = hb_cap req" using buffer_append_eq [OF wf] by blast
      have turn: "conn_recv_body_cl_loop req body_start body_len received net
          = conn_recv_body_cl_loop req1 body_start body_len (received + length bs) net1"
        using False arrived(1) a(1) by (subst conn_recv_body_cl_loop.simps) (simp add: bs_def)
      from less.hyps [OF arrived(2) a(2), of "received + length bs"] obtain res req' received' net' cs where
        ih: "conn_recv_body_cl_loop req1 body_start body_len (received + length bs) net1
            = Some (res, req', received', net')"
          "wf_buffer req'" "hb_cap req' = hb_cap req1" "live req' = live req1 @ cs"
          "received' = received + length bs + length cs" "received_from net1 cs net'"
          "if body_len \<le> received'
           then rb_status res = READ_BODY_OK
             \<and> rb_next_req_offset res = (if body_len < received' then body_start + body_len else 0)
           else rb_status res \<noteq> READ_BODY_OK \<and> rb_next_req_offset res = 0"
          "rb_status res = READ_BODY_HAS_MORE \<longrightarrow> hb_size req' < hb_cap req'"
        by auto
      have "received_from net (bs @ cs) net'" by (rule received_from_append [OF arrived(3) [folded bs_def] ih(6)])
      with ih show ?thesis unfolding turn a(3,4)
        by (intro exI [of _ res] exI [of _ req'] exI [of _ received'] exI [of _ net'] exI [of _ "bs @ cs"])
          (simp add: a(3))
    qed
  qed
qed

subsection \<open>The chunked body, whatever the packets\<close>

text \<open>The decoder of the read state and the room left for it.\<close>

definition chunked_state :: "http_buffer \<Rightarrow> chunked_st \<Rightarrow> decoder_state" where
  "chunked_state dechunked st = (cs_dec st, hb_cap dechunked - hb_size dechunked)"

definition body_bytes :: "http_buffer \<Rightarrow> nat \<Rightarrow> string" where
  "body_bytes req_buf body_start = drop body_start (live req_buf)"

definition drain_result :: "nat \<Rightarrow> chunked_st \<Rightarrow> string \<Rightarrow> decoder_state outcome
    \<Rightarrow> (read_body_result + unit) \<times> http_buffer \<times> chunked_st \<Rightarrow> bool" where
  "drain_result body_start st old r res = (case (r, res) of
     (Need s n bs, (v, dechunked', st')) \<Rightarrow> v = Inr () \<and> live dechunked' = old @ bs
       \<and> chunked_state dechunked' st' = s \<and> cs_consumed st' = cs_consumed st + n
   | (Finished n bs, (v, dechunked', st')) \<Rightarrow> live dechunked' = old @ bs
       \<and> v = Inl \<lparr> rb_status = READ_BODY_OK, rb_next_req_offset = body_start + cs_consumed st + n \<rparr>
   | (Failed e, (v, dechunked', st')) \<Rightarrow> v = Inl \<lparr> rb_status =
       (if e = PARSE_PAYLOAD_TOO_LARGE then READ_BODY_TOO_LARGE else READ_BODY_BAD_DATA), rb_next_req_offset = 0 \<rparr>)"

lemma blit_live:
  assumes "wf_buffer b" "hb_bytes b = Some m" "blit m (hb_size b) bs = Some m'"
  shows "wf_buffer (b\<lparr>hb_bytes := Some m', hb_size := hb_size b + length bs\<rparr>)"
    "live (b\<lparr>hb_bytes := Some m', hb_size := hb_size b + length bs\<rparr>) = live b @ bs"
proof -
  have "length m' = length m" "take (hb_size b + length bs) m' = take (hb_size b) m @ bs" "hb_size b + length bs \<le> length m"
    using assms(3) length_blit take_blit blit_eq_Some by metis+
  then show "wf_buffer (b\<lparr>hb_bytes := Some m', hb_size := hb_size b + length bs\<rparr>)"
    "live (b\<lparr>hb_bytes := Some m', hb_size := hb_size b + length bs\<rparr>) = live b @ bs"
    using assms(1,2) by (auto simp: wf_buffer_def live_def)
qed

text \<open>Where the output and the decoder are after \<open>bs\<close> has been written for \<open>n\<close> bytes of input.\<close>

definition drained_to :: "http_buffer \<Rightarrow> chunked_st \<Rightarrow> chunk_decoder \<Rightarrow> nat \<Rightarrow> string \<Rightarrow> http_buffer \<Rightarrow> chunked_st \<Rightarrow> bool" where
  "drained_to dechunked st d n bs dechunked' st' \<longleftrightarrow> wf_buffer dechunked' \<and> hb_cap dechunked' = hb_cap dechunked
     \<and> hb_size dechunked' = hb_size dechunked + length bs \<and> live dechunked' = live dechunked @ bs
     \<and> cs_consumed st' = cs_consumed st + n \<and> cs_dec st' = d"

text \<open>One turn of the loop is one step of the decoder on the bytes that are left.\<close>

lemma chunked_drain_turn:
  assumes "wf_config cfg" "wf_buffer req_buf" "wf_buffer dechunked" "wf_decoder (cs_dec st)"
    "body_start + cs_consumed st \<le> hb_size req_buf"
  shows "\<exists>dechunked' st'. case chunk_step_of cfg (cs_dec st) (hb_cap dechunked - hb_size dechunked)
        (drop (cs_consumed st) (body_bytes req_buf body_start)) of
      Reject e \<Rightarrow> chunked_drain_loop cfg (Suc fuel) req_buf body_start dechunked st = Some (Inl \<lparr> rb_status =
         (if e = PARSE_PAYLOAD_TOO_LARGE then READ_BODY_TOO_LARGE else READ_BODY_BAD_DATA), rb_next_req_offset = 0 \<rparr>, dechunked, st')
    | Wait d n bs \<Rightarrow> drained_to dechunked st d n bs dechunked' st'
        \<and> chunked_drain_loop cfg (Suc fuel) req_buf body_start dechunked st = Some (Inr (), dechunked', st')
    | Move d n bs \<Rightarrow> drained_to dechunked st d n bs dechunked' st'
        \<and> chunked_drain_loop cfg (Suc fuel) req_buf body_start dechunked st =
           (if cd_phase d = CHUNK_DONE then Some (Inl \<lparr> rb_status = READ_BODY_OK,
              rb_next_req_offset = body_start + cs_consumed st + n \<rparr>, dechunked', st')
            else chunked_drain_loop cfg fuel req_buf body_start dechunked' st')"
proof -
  obtain m where m: "hb_bytes req_buf = Some m" "length m = hb_cap req_buf" "hb_size req_buf \<le> hb_cap req_buf"
    "live req_buf = take (hb_size req_buf) m" using assms(2) by (rule wf_bufferE)
  obtain out where out: "hb_bytes dechunked = Some out" "length out = hb_cap dechunked"
    "hb_size dechunked \<le> hb_cap dechunked" using assms(3) by (rule wf_bufferE)
  let ?cur = "body_start + cs_consumed st" and ?avail = "hb_cap dechunked - hb_size dechunked"
  let ?in_len = "hb_size req_buf - ?cur" and ?s = "drop (cs_consumed st) (body_bytes req_buf body_start)"
  have s: "seg m ?cur (?cur + ?in_len) = ?s"
    using m assms(5) by (simp add: body_bytes_def seg_def drop_take add.commute)
  have "?cur + ?in_len \<le> length m" "hb_size dechunked + ?avail \<le> length out" using m(2,3) assms(5) out(2,3) by simp_all
  from chunk_advance_step [OF assms(1,4) this] obtain cr d' out' where
    adv: "chunk_advance cfg (cs_dec st) m ?cur ?in_len out (hb_size dechunked) ?avail = Some (cr, d', out')"
    and means: "advance_means (cs_dec st) ?cur out (hb_size dechunked) (chunk_step_of cfg (cs_dec st) ?avail ?s) (cr, d', out')"
    unfolding s by (metis prod_cases3)
  let ?st = "(case next_pos (cr_parse cr) of
      Some nxt \<Rightarrow> (st\<lparr>cs_dec := d'\<rparr>)\<lparr>cs_consumed := cs_consumed st + (nxt - ?cur)\<rparr> | None \<Rightarrow> st\<lparr>cs_dec := d'\<rparr>)"
  let ?dechunked = "dechunked\<lparr>hb_bytes := Some out', hb_size := hb_size dechunked + cr_written cr\<rparr>"
  have loop: "chunked_drain_loop cfg (Suc fuel) req_buf body_start dechunked st =
    (if status (cr_parse cr) = PARSE_PAYLOAD_TOO_LARGE then
       Some (Inl \<lparr> rb_status = READ_BODY_TOO_LARGE, rb_next_req_offset = 0 \<rparr>, ?dechunked, ?st)
     else if status (cr_parse cr) \<noteq> PARSE_OK \<and> status (cr_parse cr) \<noteq> PARSE_INCOMPLETE then
       Some (Inl \<lparr> rb_status = READ_BODY_BAD_DATA, rb_next_req_offset = 0 \<rparr>, ?dechunked, ?st)
     else if cd_phase (cs_dec ?st) = CHUNK_DONE then
       Some (Inl \<lparr> rb_status = READ_BODY_OK, rb_next_req_offset = body_start + cs_consumed ?st \<rparr>, ?dechunked, ?st)
     else if status (cr_parse cr) = PARSE_INCOMPLETE then Some (Inr (), ?dechunked, ?st)
     else chunked_drain_loop cfg fuel req_buf body_start ?dechunked ?st)"
    using m(1) out(1) adv by (cases "next_pos (cr_parse cr)") (simp_all add: Let_def)
  note written = blit_live [OF assms(3) out(1)]
  show ?thesis
  proof (cases "chunk_step_of cfg (cs_dec st) ?avail ?s")
    case (Reject e)
    with chunk_step_reject have "e = PARSE_BAD_REQUEST \<or> e = PARSE_PAYLOAD_TOO_LARGE" by simp
    moreover have "?dechunked = dechunked" using Reject means out(1) by (simp add: advance_means_def)
    ultimately show ?thesis using Reject means unfolding loop by (auto simp: advance_means_def)
  next
    case (Wait d2 n bs)
    have "cd_phase d2 \<noteq> CHUNK_DONE" using Wait
      by (cases "cd_phase (cs_dec st)") (auto simp: chunk_step_phase split: option.splits sum.splits
          nat.splits list.splits if_splits)
    then show ?thesis using Wait means written unfolding loop
      by (intro exI [of _ ?dechunked] exI [of _ ?st]) (auto simp: advance_means_def drained_to_def)
  next
    case (Move d2 n bs)
    then show ?thesis using means written unfolding loop
      by (intro exI [of _ ?dechunked] exI [of _ ?st]) (auto simp: advance_means_def drained_to_def)
  qed
qed

lemma chunked_drain_loop_spec:
  assumes "wf_config cfg" "wf_buffer req_buf" "wf_buffer dechunked" "wf_decoder (cs_dec st)"
    "body_start + cs_consumed st \<le> hb_size req_buf"
    "hb_size req_buf - (body_start + cs_consumed st) < fuel"
  shows "\<exists>v dechunked' st'. chunked_drain_loop cfg fuel req_buf body_start dechunked st = Some (v, dechunked', st')
    \<and> wf_buffer dechunked' \<and> hb_cap dechunked' = hb_cap dechunked
    \<and> drain_result body_start st (live dechunked)
        (chunk_run cfg (chunked_state dechunked st) (drop (cs_consumed st) (body_bytes req_buf body_start)))
        (v, dechunked', st')"
  using assms(3-6)
proof (induction fuel arbitrary: dechunked st)
  case 0
  then show ?case by simp
next
  case (Suc fuel)
  let ?avail = "hb_cap dechunked - hb_size dechunked" and ?s = "drop (cs_consumed st) (body_bytes req_buf body_start)"
  let ?step = "chunk_step_of cfg (cs_dec st) ?avail ?s"
  obtain dechunked' st' where turn: "case ?step of
      Reject e \<Rightarrow> chunked_drain_loop cfg (Suc fuel) req_buf body_start dechunked st = Some (Inl \<lparr> rb_status =
         (if e = PARSE_PAYLOAD_TOO_LARGE then READ_BODY_TOO_LARGE else READ_BODY_BAD_DATA), rb_next_req_offset = 0 \<rparr>, dechunked, st')
    | Wait d n bs \<Rightarrow> drained_to dechunked st d n bs dechunked' st'
        \<and> chunked_drain_loop cfg (Suc fuel) req_buf body_start dechunked st = Some (Inr (), dechunked', st')
    | Move d n bs \<Rightarrow> drained_to dechunked st d n bs dechunked' st'
        \<and> chunked_drain_loop cfg (Suc fuel) req_buf body_start dechunked st =
           (if cd_phase d = CHUNK_DONE then Some (Inl \<lparr> rb_status = READ_BODY_OK,
              rb_next_req_offset = body_start + cs_consumed st + n \<rparr>, dechunked', st')
            else chunked_drain_loop cfg fuel req_buf body_start dechunked' st')"
    using chunked_drain_turn [OF assms(1,2) Suc.prems(1-3)] by blast
  note run = chunk_run_eq [OF Suc.prems(2), of cfg ?avail ?s, folded chunked_state_def]
  show ?case
  proof (cases ?step)
    case (Reject e)
    then show ?thesis using turn run Suc.prems(1) by (simp add: drain_result_def)
  next
    case (Wait d n bs)
    then show ?thesis using turn run by (auto simp: drain_result_def drained_to_def chunked_state_def)
  next
    case (Move d n bs)
    with turn have to: "drained_to dechunked st d n bs dechunked' st'" by simp
    show ?thesis
    proof (cases "cd_phase d = CHUNK_DONE")
      case True
      then show ?thesis using Move turn run by (auto simp: drain_result_def drained_to_def add.assoc)
    next
      case False
      have "cd_phase (cs_dec st) \<noteq> CHUNK_DONE" using Move False by (auto simp: chunk_step_phase)
      then have n: "0 < n" "n \<le> length ?s" "wf_decoder d"
        using chunk_step_consumes [OF Suc.prems(2), where cfg = cfg and avail = ?avail and s = ?s] Move by simp_all
      have "length ?s = hb_size req_buf - (body_start + cs_consumed st)"
        using assms(2) by (auto simp: body_bytes_def length_live)
      with n to Suc.prems(3,4) have "wf_decoder (cs_dec st')" "body_start + cs_consumed st' \<le> hb_size req_buf"
        "hb_size req_buf - (body_start + cs_consumed st') < fuel" by (auto simp: drained_to_def)
      moreover have "wf_buffer dechunked'" using to by (simp add: drained_to_def)
      ultimately obtain v dechunked2 st2 where
        ih: "chunked_drain_loop cfg fuel req_buf body_start dechunked' st' = Some (v, dechunked2, st2)"
        "wf_buffer dechunked2" "hb_cap dechunked2 = hb_cap dechunked'"
        "drain_result body_start st' (live dechunked')
          (chunk_run cfg (chunked_state dechunked' st') (drop (cs_consumed st') (body_bytes req_buf body_start)))
          (v, dechunked2, st2)" using Suc.IH by blast
      have rest: "chunk_run cfg (chunked_state dechunked' st') (drop (cs_consumed st') (body_bytes req_buf body_start))
          = chunk_run cfg (d, ?avail - length bs) (drop n ?s)"
        using to by (simp add: chunked_state_def drained_to_def add.commute)
      have "drain_result body_start st (live dechunked) (chunk_run cfg (chunked_state dechunked st) ?s) (v, dechunked2, st2)"
        using ih(4) False Move to unfolding run rest
        by (cases "chunk_run cfg (d, ?avail - length bs) (drop n ?s)") (simp_all add: drain_result_def drained_to_def)
      with ih(1-3) to False Move turn show ?thesis by (simp add: drained_to_def)
    qed
  qed
qed

text \<open>
  The state of a chunked read between two calls: the decoder, its cursor and what it has written are
  where one run over all the body bytes received so far would have come to.
\<close>

definition chunked_inv :: "config \<Rightarrow> http_buffer \<Rightarrow> nat \<Rightarrow> http_buffer \<Rightarrow> chunked_st \<Rightarrow> bool" where
  "chunked_inv cfg req_buf body_start dechunked st \<longleftrightarrow>
     wf_buffer req_buf \<and> wf_buffer dechunked \<and> wf_decoder (cs_dec st) \<and> body_start \<le> hb_size req_buf
   \<and> caught_up (chunk_run cfg) (chunk_decoder_zero, hb_cap dechunked) (body_bytes req_buf body_start)
       (cs_consumed st) (live dechunked) (chunked_state dechunked st)"

text \<open>What the loop reports, in terms of a run over all the body bytes.\<close>

definition chunked_report :: "config \<Rightarrow> nat \<Rightarrow> read_body_result \<Rightarrow> http_buffer \<Rightarrow> http_buffer \<Rightarrow> chunked_st \<Rightarrow> bool" where
  "chunked_report cfg body_start res req_buf dechunked st \<longleftrightarrow>
     (case chunk_run cfg (chunk_decoder_zero, hb_cap dechunked) (body_bytes req_buf body_start) of
       Finished n out \<Rightarrow> res = \<lparr> rb_status = READ_BODY_OK, rb_next_req_offset = body_start + n \<rparr>
         \<and> live dechunked = out
     | Failed e \<Rightarrow> res = \<lparr> rb_status =
         (if e = PARSE_PAYLOAD_TOO_LARGE then READ_BODY_TOO_LARGE else READ_BODY_BAD_DATA), rb_next_req_offset = 0 \<rparr>
     | Need _ _ _ \<Rightarrow> rb_status res \<in> {READ_BODY_HAS_MORE, READ_BODY_TOO_LARGE, READ_BODY_PEER_CLOSED, READ_BODY_IO_ERROR}
         \<and> (rb_status res = READ_BODY_TOO_LARGE \<longleftrightarrow> hb_size req_buf = hb_cap req_buf)
         \<and> chunked_inv cfg req_buf body_start dechunked st)"

lemma chunked_inv_le: "chunked_inv cfg req_buf body_start dechunked st \<Longrightarrow>
    body_start + cs_consumed st \<le> hb_size req_buf"
  by (auto simp: chunked_inv_def caught_up_def body_bytes_def length_live)

lemma wf_decoder_zero: "wf_decoder chunk_decoder_zero"
  by (simp add: wf_decoder_def chunk_decoder_zero_def)

lemma chunked_inv_append:
  assumes "chunked_inv cfg req_buf body_start dechunked st" "wf_buffer req_buf'" "live req_buf' = live req_buf @ bs"
    "hb_size req_buf \<le> hb_size req_buf'"
  shows "chunked_inv cfg req_buf' body_start dechunked st"
proof -
  have "body_start \<le> length (live req_buf)" using assms(1) by (simp add: chunked_inv_def length_live)
  then have "body_bytes req_buf' body_start = body_bytes req_buf body_start @ bs"
    using assms(3) by (simp add: body_bytes_def)
  moreover have "(\<lambda>(d, avail). wf_decoder d) (chunk_decoder_zero, hb_cap dechunked)"
    by (simp add: wf_decoder_zero)
  moreover have "(\<lambda>(d, avail). wf_decoder d) (chunked_state dechunked st)"
    using assms(1) by (simp add: chunked_inv_def chunked_state_def)
  ultimately show ?thesis
    using assms chunked.caught_up_append unfolding chunked_inv_def by fastforce
qed

lemma chunked_drain_spec:
  assumes "wf_config cfg" "chunked_inv cfg req_buf body_start dechunked st"
  shows "\<exists>v dechunked' st'. chunked_drain cfg req_buf body_start dechunked st = Some (v, dechunked', st')
    \<and> wf_buffer dechunked' \<and> hb_cap dechunked' = hb_cap dechunked
    \<and> (case v of Inl res \<Rightarrow> chunked_report cfg body_start res req_buf dechunked' st'
       | Inr _ \<Rightarrow> chunked_inv cfg req_buf body_start dechunked' st'
           \<and> (\<exists>s n out. chunk_run cfg (chunk_decoder_zero, hb_cap dechunked') (body_bytes req_buf body_start) = Need s n out))"
proof -
  let ?W = "body_bytes req_buf body_start" and ?s = "chunked_state dechunked st"
  have inv: "wf_buffer req_buf" "wf_buffer dechunked" "wf_decoder (cs_dec st)" "body_start \<le> hb_size req_buf"
    and caught: "caught_up (chunk_run cfg) (chunk_decoder_zero, hb_cap dechunked) ?W
       (cs_consumed st) (live dechunked) ?s"
    using assms(2) by (simp_all add: chunked_inv_def)
  have "hb_size req_buf - (body_start + cs_consumed st) < hb_size req_buf + 1" by simp
  from chunked_drain_loop_spec [OF assms(1) inv(1-3) chunked_inv_le [OF assms(2)] this] obtain v dechunked' st' where
    d: "chunked_drain cfg req_buf body_start dechunked st = Some (v, dechunked', st')"
      "wf_buffer dechunked'" "hb_cap dechunked' = hb_cap dechunked"
      "drain_result body_start st (live dechunked) (chunk_run cfg ?s (drop (cs_consumed st) ?W)) (v, dechunked', st')"
    unfolding chunked_drain_def by blast
  have ok: "(\<lambda>(d, avail). wf_decoder d) ?s" using inv(3) by (simp add: chunked_state_def)
  have whole: "chunk_run cfg (chunk_decoder_zero, hb_cap dechunked) ?W
      = after (cs_consumed st) (live dechunked) (chunk_run cfg ?s (drop (cs_consumed st) ?W))"
    using caught by (simp add: caught_up_def)
  show ?thesis
  proof (cases "chunk_run cfg ?s (drop (cs_consumed st) ?W)")
    case (Need s n bs)
    with d(4) have r: "v = Inr ()" "live dechunked' = live dechunked @ bs" "chunked_state dechunked' st' = s"
      "cs_consumed st' = cs_consumed st + n" by (simp_all add: drain_result_def)
    note more = chunked.caught_up_Need [OF ok caught Need]
    have "chunked_inv cfg req_buf body_start dechunked' st'"
      using inv d(2,3) r more(1,2) by (auto simp: chunked_inv_def chunked_state_def)
    with d r(1) more(3) show ?thesis by simp
  next
    case (Finished n bs)
    with d whole show ?thesis by (auto simp: drain_result_def chunked_report_def)
  next
    case (Failed e)
    with d whole show ?thesis by (auto simp: drain_result_def chunked_report_def)
  qed
qed

lemma conn_recv_body_chunked_loop_spec:
  assumes "wf_config cfg" "chunked_inv cfg req_buf body_start dechunked st"
  shows "\<exists>res req' dechunked' st' net' bs.
      conn_recv_body_chunked_loop cfg req_buf body_start dechunked st net = Some (res, req', dechunked', st', net')
    \<and> wf_buffer req' \<and> hb_cap req' = hb_cap req_buf \<and> live req' = live req_buf @ bs
    \<and> wf_buffer dechunked' \<and> hb_cap dechunked' = hb_cap dechunked
    \<and> received_from net bs net' \<and> chunked_report cfg body_start res req' dechunked' st'"
  using assms(2)
proof (induction "inbox_size net" arbitrary: req_buf dechunked st net rule: less_induct)
  case less
  have wf: "wf_buffer req_buf" using less.prems by (simp add: chunked_inv_def)
  from chunked_drain_spec [OF assms(1) less.prems] obtain v dechunked1 st1 where
    d: "chunked_drain cfg req_buf body_start dechunked st = Some (v, dechunked1, st1)"
      "wf_buffer dechunked1" "hb_cap dechunked1 = hb_cap dechunked"
      "case v of Inl res \<Rightarrow> chunked_report cfg body_start res req_buf dechunked1 st1
       | Inr _ \<Rightarrow> chunked_inv cfg req_buf body_start dechunked1 st1
           \<and> (\<exists>s n out. chunk_run cfg (chunk_decoder_zero, hb_cap dechunked1) (body_bytes req_buf body_start) = Need s n out)"
    by blast
  show ?case
  proof (cases v)
    case (Inl res)
    with d wf show ?thesis
      by (subst conn_recv_body_chunked_loop.simps) (auto intro!: exI [of _ "[]"])
  next
    case (Inr u)
    with d(4) obtain s n out where inv: "chunked_inv cfg req_buf body_start dechunked1 st1"
      and need: "chunk_run cfg (chunk_decoder_zero, hb_cap dechunked1) (body_bytes req_buf body_start) = Need s n out"
      by auto
    have report: "chunked_report cfg body_start \<lparr> rb_status = e, rb_next_req_offset = 0 \<rparr> req_buf dechunked1 st1"
      if "e \<in> {READ_BODY_HAS_MORE, READ_BODY_TOO_LARGE, READ_BODY_PEER_CLOSED, READ_BODY_IO_ERROR}"
        "e = READ_BODY_TOO_LARGE \<longleftrightarrow> hb_size req_buf = hb_cap req_buf" for e
      using that inv need by (simp add: chunked_report_def)
    have le: "hb_size req_buf \<le> hb_cap req_buf" using wf by (simp add: wf_buffer_def)
    show ?thesis
    proof (cases "hb_size req_buf \<ge> hb_cap req_buf")
      case True
      with le d(1-3) Inr wf report [of READ_BODY_TOO_LARGE] show ?thesis
        by (subst conn_recv_body_chunked_loop.simps) (auto intro!: exI [of _ "[]"])
    next
      case room: False
      show ?thesis
      proof (cases rule: recv_cases [of net "hb_cap req_buf - hb_size req_buf"])
        case (stopped r net1)
        then have "\<exists>res. conn_recv_body_chunked_loop cfg req_buf body_start dechunked st net
            = Some (res, req_buf, dechunked1, st1, net1) \<and> chunked_report cfg body_start res req_buf dechunked1 st1"
          using room d(1) Inr report by (subst conn_recv_body_chunked_loop.simps) (auto split: errno.splits)
        with stopped(3) wf d(2,3) show ?thesis by fastforce
      next
        case (interrupted net1)
        have "conn_recv_body_chunked_loop cfg req_buf body_start dechunked st net
            = conn_recv_body_chunked_loop cfg req_buf body_start dechunked1 st1 net1"
          using room interrupted(1) d(1) Inr by (subst conn_recv_body_chunked_loop.simps) simp
        with less.hyps [OF interrupted(2) inv] received_from_append [OF interrupted(3)] d(3) show ?thesis by fastforce
      next
        case (arrived b bs' net1)
        define bs where "bs = b # bs'"
        have "hb_size req_buf + length bs \<le> hb_cap req_buf" using arrived(4) room by (simp add: bs_def)
        then obtain req1 where a: "buffer_append req_buf bs = Some req1" "wf_buffer req1"
          "live req1 = live req_buf @ bs" "hb_cap req1 = hb_cap req_buf" "hb_size req1 = hb_size req_buf + length bs"
          using buffer_append_eq [OF wf] by blast
        have turn: "conn_recv_body_chunked_loop cfg req_buf body_start dechunked st net
            = conn_recv_body_chunked_loop cfg req1 body_start dechunked1 st1 net1"
          using room arrived(1) a(1) d(1) Inr by (subst conn_recv_body_chunked_loop.simps) (simp add: bs_def)
        have "chunked_inv cfg req1 body_start dechunked1 st1" using chunked_inv_append [OF inv a(2,3)] a(5) by simp
        from less.hyps [OF arrived(2) this] obtain res req' dechunked' st' net' cs where
          ih: "conn_recv_body_chunked_loop cfg req1 body_start dechunked1 st1 net1
              = Some (res, req', dechunked', st', net')"
            "wf_buffer req'" "hb_cap req' = hb_cap req1" "live req' = live req1 @ cs"
            "wf_buffer dechunked'" "hb_cap dechunked' = hb_cap dechunked1"
            "received_from net1 cs net'" "chunked_report cfg body_start res req' dechunked' st'" by blast
        have "received_from net (bs @ cs) net'" by (rule received_from_append [OF arrived(3) [folded bs_def] ih(7)])
        with ih a(3,4) d(3) show ?thesis unfolding turn
          by (intro exI [of _ res] exI [of _ req'] exI [of _ dechunked'] exI [of _ st'] exI [of _ net']
              exI [of _ "bs @ cs"]) simp
      qed
    qed
  qed
qed

lemma conn_recv_body_chunked_spec:
  assumes "wf_config cfg" "chunked_inv cfg req_buf body_start dechunked st" "0 < fd"
  shows "\<exists>res req' dechunked' st' net' bs.
      conn_recv_body_chunked cfg fd req_buf body_start dechunked st net = Some (res, req', dechunked', st', net')
    \<and> wf_buffer req' \<and> hb_cap req' = hb_cap req_buf \<and> live req' = live req_buf @ bs
    \<and> wf_buffer dechunked' \<and> hb_cap dechunked' = hb_cap dechunked
    \<and> received_from net bs net' \<and> chunked_report cfg body_start res req' dechunked' st'"
proof -
  have "wf_buffer req_buf" "wf_buffer dechunked" using assms(2) by (simp_all add: chunked_inv_def)
  then have "\<exists>m. hb_bytes req_buf = Some m" "\<exists>m. hb_bytes dechunked = Some m" by (auto simp: wf_buffer_def)
  then have "conn_recv_body_chunked cfg fd req_buf body_start dechunked st net
      = conn_recv_body_chunked_loop cfg req_buf body_start dechunked st net"
    using assms(3) chunked_inv_le [OF assms(2)] by (auto simp: conn_recv_body_chunked_def)
  with conn_recv_body_chunked_loop_spec [OF assms(1,2), of net] show ?thesis by simp
qed

subsection \<open>What the read loops promise\<close>

text \<open>
  C18: the head reader.  From any well-formed buffer \<open>conn_recv_header\<close> stays inside it, appends
  exactly the bytes that arrive, and reports a complete head if and only if the buffered bytes
  contain an empty line, with the body starting right after the first one; otherwise it reports
  "too large" exactly when the buffer is full.  The answer is a function of the bytes, not of the
  packets, the interrupted calls or the earlier wake-ups.
\<close>

theorem conn_recv_header_by_bytes:
  assumes "wf_buffer req" "0 \<le> fd"
  shows "\<exists>res req' net' bs. conn_recv_header fd req net = Some (res, req', net')
    \<and> wf_buffer req' \<and> hb_cap req' = hb_cap req \<and> live req' = live req @ bs
    \<and> rh_total_received res = hb_size req' \<and> received_from net bs net'
    \<and> (case memmem (live req') (crlf @ crlf) of
         Some t \<Rightarrow> rh_status res = READ_HEADER_OK \<and> rh_body_start res = t + 4
       | None \<Rightarrow> rh_status res \<noteq> READ_HEADER_OK
           \<and> (rh_status res = READ_HEADER_TOO_LARGE \<longleftrightarrow> hb_size req' = hb_cap req'))"
  using assms by (rule conn_recv_header_spec)

definition demo_buffer :: "nat \<Rightarrow> string \<Rightarrow> http_buffer" where
  "demo_buffer cap bs = \<lparr> hb_cap = cap, hb_size = length bs,
     hb_bytes = Some (bs @ replicate (cap - length bs) NUL) \<rparr>"

lemma wf_demo_buffer: "length bs \<le> cap \<Longrightarrow> wf_buffer (demo_buffer cap bs)"
  by (simp add: demo_buffer_def wf_buffer_def)

definition demo_net :: "recv_event list \<Rightarrow> net" where
  "demo_net evs = \<lparr> inbox = evs, outbox = [], wire = [] \<rparr>"

theorem conn_recv_header_by_bytes_witness:
  "\<exists>res req' net' bs. conn_recv_header 3 (demo_buffer 40 ''GET'')
       (demo_net [Recv_Data '' / HTTP/1.1'', Recv_Error EINTR, Recv_Data (crlf @ crlf @ ''x'')])
       = Some (res, req', net')
    \<and> wf_buffer req' \<and> hb_cap req' = hb_cap (demo_buffer 40 ''GET'') \<and> live req' = live (demo_buffer 40 ''GET'') @ bs
    \<and> rh_total_received res = hb_size req'
    \<and> received_from (demo_net [Recv_Data '' / HTTP/1.1'', Recv_Error EINTR, Recv_Data (crlf @ crlf @ ''x'')]) bs net'
    \<and> (case memmem (live req') (crlf @ crlf) of
         Some t \<Rightarrow> rh_status res = READ_HEADER_OK \<and> rh_body_start res = t + 4
       | None \<Rightarrow> rh_status res \<noteq> READ_HEADER_OK
           \<and> (rh_status res = READ_HEADER_TOO_LARGE \<longleftrightarrow> hb_size req' = hb_cap req'))"
  by (rule conn_recv_header_by_bytes) (simp_all add: wf_demo_buffer)

text \<open>
  C20: the reader of a body of known length.  It stays inside the request buffer, appends exactly the
  bytes that arrive and counts them; it reports success if and only if at least \<open>body_len\<close> bytes
  have been received, and the offset of the next request exactly when it has read beyond the body.
\<close>

theorem conn_recv_body_cl_by_bytes:
  assumes "wf_buffer req" "0 \<le> fd"
  shows "\<exists>res req' received' net' bs.
      conn_recv_body_cl fd req body_start body_len received net = Some (res, req', received', net')
    \<and> wf_buffer req' \<and> hb_cap req' = hb_cap req \<and> live req' = live req @ bs
    \<and> received' = received + length bs \<and> received_from net bs net'
    \<and> (if body_len \<le> received'
       then rb_status res = READ_BODY_OK
         \<and> rb_next_req_offset res = (if body_len < received' then body_start + body_len else 0)
       else rb_status res \<noteq> READ_BODY_OK \<and> rb_next_req_offset res = 0)
    \<and> (rb_status res = READ_BODY_HAS_MORE \<longrightarrow> hb_size req' < hb_cap req')"
proof -
  obtain m where "hb_bytes req = Some m" using assms(1) by (rule wf_bufferE)
  then have "conn_recv_body_cl fd req body_start body_len received net
      = conn_recv_body_cl_loop req body_start body_len received net"
    using assms(2) by (simp add: conn_recv_body_cl_def)
  with conn_recv_body_cl_loop_spec [OF assms(1)] show ?thesis by simp
qed

theorem conn_recv_body_cl_by_bytes_witness:
  "\<exists>res req' received' net' bs.
      conn_recv_body_cl 3 (demo_buffer 9 ''ab'') 1 4 1 (demo_net [Recv_Data ''cd'', Recv_Data ''ef''])
        = Some (res, req', received', net')
    \<and> wf_buffer req' \<and> hb_cap req' = hb_cap (demo_buffer 9 ''ab'') \<and> live req' = live (demo_buffer 9 ''ab'') @ bs
    \<and> received' = 1 + length bs \<and> received_from (demo_net [Recv_Data ''cd'', Recv_Data ''ef'']) bs net'
    \<and> (if 4 \<le> received'
       then rb_status res = READ_BODY_OK
         \<and> rb_next_req_offset res = (if 4 < received' then 1 + 4 else 0)
       else rb_status res \<noteq> READ_BODY_OK \<and> rb_next_req_offset res = 0)
    \<and> (rb_status res = READ_BODY_HAS_MORE \<longrightarrow> hb_size req' < hb_cap req')"
  by (rule conn_recv_body_cl_by_bytes) (simp_all add: wf_demo_buffer)

text \<open>
  C13: the reader of a chunked body.  However the body is cut into packets and over however many
  calls, the reader stays inside both buffers, appends what arrives, and succeeds if and only if the
  bytes received since the start of the body begin with a chunked body of the grammar whose payload
  fits the dechunk buffer; it has then written exactly the payloads of the chunks, and the next
  request starts right behind the body.  When it asks for more it can be called again.
\<close>

theorem chunked_body_by_bytes:
  assumes "wf_config cfg" "chunked_inv cfg req_buf body_start dechunked st" "0 < fd"
  shows "\<exists>res req' dechunked' st' net' bs.
      conn_recv_body_chunked cfg fd req_buf body_start dechunked st net = Some (res, req', dechunked', st', net')
    \<and> wf_buffer req' \<and> live req' = live req_buf @ bs \<and> received_from net bs net'
    \<and> wf_buffer dechunked' \<and> hb_cap dechunked' = hb_cap dechunked
    \<and> (rb_status res = READ_BODY_OK \<longleftrightarrow> (\<exists>cs l rest. list_all (chunk_wf cfg) cs \<and> size_line_ok cfg l 0
         \<and> body_bytes req' body_start = chunked_text cs l @ rest \<and> length (payload cs) \<le> hb_cap dechunked
         \<and> live dechunked' = payload cs
         \<and> rb_next_req_offset res = body_start + length (chunked_text cs l)))
    \<and> (rb_status res \<noteq> READ_BODY_OK \<longrightarrow> (\<nexists>cs l rest. list_all (chunk_wf cfg) cs \<and> size_line_ok cfg l 0
         \<and> body_bytes req' body_start = chunked_text cs l @ rest \<and> length (payload cs) \<le> hb_cap dechunked))
    \<and> (rb_status res = READ_BODY_HAS_MORE \<longrightarrow> chunked_inv cfg req' body_start dechunked' st')"
proof -
  obtain res req' dechunked' st' net' bs where r:
      "conn_recv_body_chunked cfg fd req_buf body_start dechunked st net = Some (res, req', dechunked', st', net')"
      "wf_buffer req'" "live req' = live req_buf @ bs" "wf_buffer dechunked'" "hb_cap dechunked' = hb_cap dechunked"
      "received_from net bs net'" "chunked_report cfg body_start res req' dechunked' st'"
    using conn_recv_body_chunked_spec [OF assms] by blast
  have "cd_phase chunk_decoder_zero = CHUNK_SIZE" by (simp add: chunk_decoder_zero_def)
  note grammar = chunk_run_Finished_iff [OF this, of cfg "hb_cap dechunked" "body_bytes req' body_start"]
  have ok: "rb_status res = READ_BODY_OK \<Longrightarrow> \<exists>n. chunk_run cfg (chunk_decoder_zero, hb_cap dechunked)
        (body_bytes req' body_start) = Finished n (live dechunked') \<and> rb_next_req_offset res = body_start + n"
    and no: "rb_status res \<noteq> READ_BODY_OK \<Longrightarrow> chunk_run cfg (chunk_decoder_zero, hb_cap dechunked)
        (body_bytes req' body_start) \<noteq> Finished n out" for n out
    using r(5,7) unfolding chunked_report_def by (auto split: outcome.splits if_splits)
  have more: "rb_status res = READ_BODY_HAS_MORE \<Longrightarrow> chunked_inv cfg req' body_start dechunked' st'"
    using r(5,7) unfolding chunked_report_def by (auto split: outcome.splits if_splits)
  have good: "rb_status res = READ_BODY_OK \<Longrightarrow> \<exists>cs l rest. list_all (chunk_wf cfg) cs \<and> size_line_ok cfg l 0
         \<and> body_bytes req' body_start = chunked_text cs l @ rest \<and> length (payload cs) \<le> hb_cap dechunked
         \<and> live dechunked' = payload cs \<and> rb_next_req_offset res = body_start + length (chunked_text cs l)"
    using ok unfolding grammar by blast
  have bad: "\<nexists>cs l rest. list_all (chunk_wf cfg) cs \<and> size_line_ok cfg l 0
         \<and> body_bytes req' body_start = chunked_text cs l @ rest \<and> length (payload cs) \<le> hb_cap dechunked"
    if "rb_status res \<noteq> READ_BODY_OK"
    using no [OF that] unfolding grammar by blast
  show ?thesis using r more good bad by blast
qed

theorem chunked_body_by_bytes_witness:
  "\<exists>res req' dechunked' st' net' bs.
      conn_recv_body_chunked posix_config 3 (demo_buffer 40 (''H'' @ ''3'' @ crlf @ ''ab'')) 1 (demo_buffer 8 [])
        chunked_st_zero (demo_net [Recv_Data (''c'' @ crlf), Recv_Data (''0'' @ crlf @ crlf)])
      = Some (res, req', dechunked', st', net')
    \<and> wf_buffer req' \<and> live req' = live (demo_buffer 40 (''H'' @ ''3'' @ crlf @ ''ab'')) @ bs
    \<and> received_from (demo_net [Recv_Data (''c'' @ crlf), Recv_Data (''0'' @ crlf @ crlf)]) bs net'
    \<and> wf_buffer dechunked' \<and> hb_cap dechunked' = hb_cap (demo_buffer 8 [])
    \<and> (rb_status res = READ_BODY_OK \<longleftrightarrow> (\<exists>cs l rest. list_all (chunk_wf posix_config) cs \<and> size_line_ok posix_config l 0
         \<and> body_bytes req' 1 = chunked_text cs l @ rest \<and> length (payload cs) \<le> hb_cap (demo_buffer 8 [])
         \<and> live dechunked' = payload cs
         \<and> rb_next_req_offset res = 1 + length (chunked_text cs l)))
    \<and> (rb_status res \<noteq> READ_BODY_OK \<longrightarrow> (\<nexists>cs l rest. list_all (chunk_wf posix_config) cs \<and> size_line_ok posix_config l 0
         \<and> body_bytes req' 1 = chunked_text cs l @ rest \<and> length (payload cs) \<le> hb_cap (demo_buffer 8 [])))
    \<and> (rb_status res = READ_BODY_HAS_MORE \<longrightarrow> chunked_inv posix_config req' 1 dechunked' st')"
proof (rule chunked_body_by_bytes)
  have "wf_buffer (demo_buffer 40 (''H'' @ ''3'' @ crlf @ ''ab''))" "wf_buffer (demo_buffer 8 [])"
    by (rule wf_demo_buffer, simp)+
  then show "chunked_inv posix_config (demo_buffer 40 (''H'' @ ''3'' @ crlf @ ''ab'')) 1 (demo_buffer 8 []) chunked_st_zero"
    by (simp add: chunked_inv_def chunked_st_zero_def wf_decoder_zero chunked_state_def demo_buffer_def live_def
        chunked.caught_up_start)
qed simp_all

end
