(* ===== verification/Connection.thy ===== *)
theory Connection
  imports Router Readers
begin

text \<open>
  \<open>src/Connection.c\<close>: the state machine of one connection.  A step function takes the system (the
  connection, the router with its registry, the socket of the connection and the world) and returns
  the next phase and the system, or \<open>None\<close> for a fault; \<open>connection_step_process\<close> repeats steps until
  the phase stays or the connection is closed, and is shown to terminate.
\<close>

subsection \<open>The state\<close>

datatype conn_phase =
  CONN_READING_REQUEST | CONN_READING_BODY_CL | CONN_READING_BODY_CHUNKED | CONN_SENDING_100
  | CONN_BUILDING | CONN_SENDING_RESPONSE | CONN_SENDING_RESPONSE_STREAM | CONN_CLOSED

datatype stream_phase = STREAM_HEADER | STREAM_PULL | STREAM_DRAIN | STREAM_TRAILER | STREAM_DONE

datatype stream_step = STREAM_ABORT | STREAM_YIELD | STREAM_ADVANCE

text \<open>
  The union \<open>st\<close>, by the member written last.  Reading another member is a fault, except that
  all-zero bytes, which \<open>connection_init\<close> and \<open>connection_reset\<close> leave, are \<open>St_Send 0\<close>.
\<close>

datatype conn_st = St_Cl nat | St_Chunked chunked_st | St_Send nat | St_Stream stream_phase nat

text \<open>\<open>ConnMem\<close> is spread over the fields of the connection.\<close>

record 'u connection =
  c_fd :: int
  c_phase :: conn_phase
  c_keep_alive :: bool
  c_arena :: arena
  c_req_mark :: size_t
  c_req_buf :: http_buffer
  c_resp_buf :: http_buffer
  c_body_dechunked :: http_buffer
  c_req :: request
  c_body_start :: nat
  c_body_len :: nat
  c_body_coding :: transfer_coding
  c_producer :: "'u stream"
  c_next_req_offset :: nat
  c_requests :: nat
  c_st :: conn_st

record 'u system =
  sy_conn :: "'u connection"
  sy_router :: "'u router"
  sy_net :: net
  sy_world :: "'u world"

type_synonym 'u step = "(conn_phase \<times> 'u system) option"

abbreviation on_conn :: "('u connection \<Rightarrow> 'u connection) \<Rightarrow> 'u system \<Rightarrow> 'u system" where
  "on_conn f s \<equiv> s\<lparr>sy_conn := f (sy_conn s)\<rparr>"

definition st_sent :: "conn_st \<Rightarrow> nat option" where
  "st_sent st = (case st of St_Send n \<Rightarrow> Some n | _ \<Rightarrow> None)"

definition st_received :: "conn_st \<Rightarrow> nat option" where
  "st_received st = (case st of St_Cl n \<Rightarrow> Some n | _ \<Rightarrow> None)"

definition st_chunked :: "conn_st \<Rightarrow> chunked_st option" where
  "st_chunked st = (case st of St_Chunked c \<Rightarrow> Some c | _ \<Rightarrow> None)"

definition st_stream :: "conn_st \<Rightarrow> (stream_phase \<times> nat) option" where
  "st_stream st = (case st of St_Stream p n \<Rightarrow> Some (p, n) | _ \<Rightarrow> None)"

subsection \<open>Entering a phase\<close>

definition phase_send_begin :: "'u system \<Rightarrow> conn_phase \<times> 'u system" where
  "phase_send_begin s = (CONN_SENDING_RESPONSE, on_conn (\<lambda>c. c\<lparr>c_st := St_Send 0\<rparr>) s)"

definition phase_send_100_begin :: "'u system \<Rightarrow> conn_phase \<times> 'u system" where
  "phase_send_100_begin s = (CONN_SENDING_100, on_conn (\<lambda>c. c\<lparr>c_st := St_Send 0\<rparr>) s)"

definition phase_body_dispatch :: "'u system \<Rightarrow> 'u step" where
  "phase_body_dispatch s = (let c = sy_conn s in
     if c_body_coding c = TE_CHUNKED then
       Some (CONN_READING_BODY_CHUNKED, on_conn (\<lambda>c. c\<lparr>c_st := St_Chunked chunked_st_zero,
         c_body_dechunked := (c_body_dechunked c)\<lparr>hb_size := 0\<rparr>\<rparr>) s)
     else if c_body_len c = 0 then
       Some (CONN_BUILDING, on_conn (\<lambda>c. c\<lparr>c_req := (c_req c)\<lparr>rq_body_len := 0, rq_body := Body_NULL\<rparr>,
         c_next_req_offset := c_body_start c\<rparr>) s)
     else do {
       require (c_body_start c \<le> hb_size (c_req_buf c));
       Some (CONN_READING_BODY_CL, on_conn (\<lambda>c. c\<lparr>c_st := St_Cl (hb_size (c_req_buf c) - c_body_start c)\<rparr>) s)
     })"

text \<open>\<open>response_error_serialize\<close> and \<open>phase_send_begin\<close>, as every error exit does.\<close>

definition send_error :: "parse_status \<Rightarrow> 'u system \<Rightarrow> 'u step" where
  "send_error st s = do {
     b \<leftarrow> response_error_serialize (time_now (sy_world s)) (c_resp_buf (sy_conn s)) st;
     Some (phase_send_begin (on_conn (\<lambda>c. c\<lparr>c_resp_buf := b\<rparr>) s))
   }"

subsection \<open>Reading the head\<close>

text \<open>The loop over the headers: the first \<open>Transfer-Encoding\<close> that is not plain ends it.\<close>

fun transfer_coding_loop :: "header list \<Rightarrow> transfer_coding \<Rightarrow> parse_status \<Rightarrow> (transfer_coding \<times> parse_status) option" where
  "transfer_coding_loop [] coding te = Some (coding, te)"
| "transfer_coding_loop (h # hs) coding te =
     (if coding = TE_UNSUPPORTED \<or> te \<noteq> PARSE_OK then Some (coding, te)
      else if \<not> ascii_ieq (h_key h) ''transfer-encoding'' then transfer_coding_loop hs coding te
      else do {
        (te, coding) \<leftarrow> transfer_encoding_parse (h_value h);
        transfer_coding_loop hs coding te
      })"

text \<open>From the \<open>Content-Length\<close> header on: the body, \<open>Expect\<close>, and the dispatch.\<close>

definition head_body_dispatch :: "bool \<Rightarrow> header option \<Rightarrow> 'u system \<Rightarrow> 'u step" where
  "head_body_dispatch is_http_1_0 ct_len_h s = (let c = sy_conn s;
       has_body = (c_body_coding c = TE_CHUNKED \<or> (ct_len_h \<noteq> None \<and> c_body_len c > 0));
       body_buffered = (hb_size (c_req_buf c) > c_body_start c) in
     if rl_method (rq_line (c_req c)) = HEAD \<and> has_body then send_error PARSE_BAD_REQUEST s
     else if is_http_1_0 then phase_body_dispatch s
     else let expect = header_find (rq_headers (c_req c)) ''expect'' in
       if \<not> has_body \<or> body_buffered \<or> (case expect of None \<Rightarrow> True | Some h \<Rightarrow> \<not> ascii_ieq ''100-continue'' (h_value h))
       then phase_body_dispatch s
       else Some (phase_send_100_begin s))"

definition head_framing :: "config \<Rightarrow> bool \<Rightarrow> 'u system \<Rightarrow> 'u step" where
  "head_framing cfg is_http_1_0 s = do {
     (coding, te) \<leftarrow> transfer_coding_loop (rq_headers (c_req (sy_conn s))) TE_NONE PARSE_OK;
     let s = on_conn (\<lambda>c. c\<lparr>c_body_coding := coding\<rparr>) s;
     if coding = TE_UNSUPPORTED then send_error PARSE_NOT_IMPLEMENTED s
     else if te \<noteq> PARSE_OK then send_error te s
     else if is_http_1_0 \<and> coding = TE_CHUNKED then send_error PARSE_BAD_REQUEST s
     else let ct_len_h = header_find (rq_headers (c_req (sy_conn s))) ''content-length'' in
       case ct_len_h of
         None \<Rightarrow> head_body_dispatch is_http_1_0 None s
       | Some h \<Rightarrow>
           if coding = TE_CHUNKED then send_error PARSE_BAD_REQUEST s
           else do {
             (ps, len) \<leftarrow> uint_parse (h_value h) 0 (length (h_value h)) 10 (body_limit cfg);
             if ps \<noteq> PARSE_OK then send_error ps s
             else do {
               len \<leftarrow> len;
               head_body_dispatch is_http_1_0 ct_len_h (on_conn (\<lambda>c. c\<lparr>c_body_len := unat len\<rparr>) s)
             }
           }
   }"

definition head_received :: "config \<Rightarrow> read_header_result \<Rightarrow> 'u system \<Rightarrow> 'u step" where
  "head_received cfg header_res s = do {
     m \<leftarrow> hb_bytes (c_req_buf (sy_conn s));
     (parse_res, req) \<leftarrow> request_parse cfg m (hb_size (c_req_buf (sy_conn s))) (c_req (sy_conn s));
     let s = on_conn (\<lambda>c. c\<lparr>c_req := req\<rparr>) s;
     if status parse_res \<noteq> PARSE_OK then send_error (status parse_res) s
     else do {
       require (rh_body_start header_res \<le> rh_total_received header_res);
       let s = on_conn (\<lambda>c. c\<lparr>c_body_start := rh_body_start header_res\<rparr>) s;
       let is_http_1_0 = ascii_ieq (rl_version (rq_line req)) ''http/1.0'';
       if is_http_1_0 then head_framing cfg True s
       else if header_find (rq_headers req) ''host'' = None then send_error PARSE_BAD_REQUEST s
       else let keep = (case header_find (rq_headers req) ''connection'' of None \<Rightarrow> True
             | Some h \<Rightarrow> ascii_ieq ''keep-alive'' (h_value h)) in
         head_framing cfg False (if keep then on_conn (\<lambda>c. c\<lparr>c_keep_alive := True\<rparr>) s else s)
     }
   }"

definition step_header_read :: "config \<Rightarrow> 'u system \<Rightarrow> 'u step" where
  "step_header_read cfg s = do {
     require (c_phase (sy_conn s) = CONN_READING_REQUEST);
     (header_res, buf, net) \<leftarrow> conn_recv_header (c_fd (sy_conn s)) (c_req_buf (sy_conn s)) (sy_net s);
     let s = (on_conn (\<lambda>c. c\<lparr>c_req_buf := buf\<rparr>) s)\<lparr>sy_net := net\<rparr>;
     case rh_status header_res of
       READ_HEADER_HAS_MORE \<Rightarrow> Some (CONN_READING_REQUEST, s)
     | READ_HEADER_PEER_CLOSED \<Rightarrow> Some (CONN_CLOSED, s)
     | READ_HEADER_IO_ERROR \<Rightarrow> Some (CONN_CLOSED, s)
     | READ_HEADER_TOO_LARGE \<Rightarrow> send_error PARSE_HEADER_TOO_LONG s
     | READ_HEADER_OK \<Rightarrow> head_received cfg header_res s
   }"

definition continue_100 :: string where
  "continue_100 = ''HTTP/1.1 100 Continue'' @ crlf @ crlf"

definition continue_100_buf :: http_buffer where
  "continue_100_buf = \<lparr> hb_cap = length continue_100, hb_size = length continue_100, hb_bytes = Some (continue_100 @ [NUL]) \<rparr>"

definition step_send_100 :: "'u system \<Rightarrow> 'u step" where
  "step_send_100 s = do {
     sent \<leftarrow> st_sent (c_st (sy_conn s));
     (st, sent, net) \<leftarrow> response_send (c_fd (sy_conn s)) continue_100_buf sent (sy_net s);
     let s = (on_conn (\<lambda>c. c\<lparr>c_st := St_Send sent\<rparr>) s)\<lparr>sy_net := net\<rparr>;
     case st of
       SEND_HAS_MORE \<Rightarrow> Some (CONN_SENDING_100, s)
     | SEND_OK \<Rightarrow> phase_body_dispatch s
     | _ \<Rightarrow> Some (CONN_CLOSED, s)
   }"

subsection \<open>Reading the body\<close>

definition step_body_cl_read :: "'u system \<Rightarrow> 'u step" where
  "step_body_cl_read s = do {
     require (c_phase (sy_conn s) = CONN_READING_BODY_CL);
     received \<leftarrow> st_received (c_st (sy_conn s));
     (res, buf, received, net) \<leftarrow> conn_recv_body_cl (c_fd (sy_conn s)) (c_req_buf (sy_conn s)) (c_body_start (sy_conn s))
        (c_body_len (sy_conn s)) received (sy_net s);
     let s = (on_conn (\<lambda>c. c\<lparr>c_req_buf := buf, c_st := St_Cl received\<rparr>) s)\<lparr>sy_net := net\<rparr>;
     if rb_status res = READ_BODY_OK then
       Some (CONN_BUILDING, on_conn (\<lambda>c. c\<lparr>c_req := (c_req c)\<lparr>rq_body_len := received,
         rq_body := In_Request_Buffer (c_body_start c)\<rparr>, c_next_req_offset := rb_next_req_offset res\<rparr>) s)
     else if rb_status res = READ_BODY_HAS_MORE then Some (CONN_READING_BODY_CL, s)
     else send_error PARSE_BAD_REQUEST s
   }"

definition step_body_chunked_read :: "config \<Rightarrow> 'u system \<Rightarrow> 'u step" where
  "step_body_chunked_read cfg s = do {
     require (c_phase (sy_conn s) = CONN_READING_BODY_CHUNKED);
     st \<leftarrow> st_chunked (c_st (sy_conn s));
     (res, buf, dechunked, st, net) \<leftarrow> conn_recv_body_chunked cfg (c_fd (sy_conn s)) (c_req_buf (sy_conn s))
        (c_body_start (sy_conn s)) (c_body_dechunked (sy_conn s)) st (sy_net s);
     let s = (on_conn (\<lambda>c. c\<lparr>c_req_buf := buf, c_body_dechunked := dechunked, c_st := St_Chunked st\<rparr>) s)\<lparr>sy_net := net\<rparr>;
     case rb_status res of
       READ_BODY_OK \<Rightarrow> Some (CONN_BUILDING, on_conn (\<lambda>c. c\<lparr>c_req := (c_req c)\<lparr>rq_body_len := hb_size dechunked,
         rq_body := In_Dechunked\<rparr>, c_next_req_offset := rb_next_req_offset res\<rparr>) s)
     | READ_BODY_HAS_MORE \<Rightarrow> Some (CONN_READING_BODY_CHUNKED, s)
     | READ_BODY_TOO_LARGE \<Rightarrow> send_error PARSE_PAYLOAD_TOO_LARGE s
     | _ \<Rightarrow> send_error PARSE_BAD_REQUEST s
   }"

subsection \<open>Building the response\<close>

definition stream_release :: "'u system \<Rightarrow> 'u system" where
  "stream_release s = (let p = c_producer (sy_conn s);
       w = (case st_cleanup p of Some f \<Rightarrow> f (st_ctx p) (sy_world s) | None \<Rightarrow> sy_world s)
     in (on_conn (\<lambda>c. c\<lparr>c_producer := stream_zero\<rparr>) s)\<lparr>sy_world := w\<rparr>)"

definition stream_abort :: "'u system \<Rightarrow> 'u step" where
  "stream_abort s = do {
     (_, sent) \<leftarrow> st_stream (c_st (sy_conn s));
     Some (CONN_CLOSED, on_conn (\<lambda>c. c\<lparr>c_st := St_Stream STREAM_DONE sent\<rparr>) (stream_release s))
   }"

definition request_consume :: "'u connection \<Rightarrow> 'u connection option" where
  "request_consume c = (let b = c_req_buf c; off = c_next_req_offset c in
     if off > 0 then do {
       require (off \<le> hb_size b);
       m \<leftarrow> hb_bytes b;
       bs \<leftarrow> rd_range m off (hb_size b - off);
       m \<leftarrow> blit m 0 bs;
       Some (c\<lparr>c_req_buf := b\<lparr>hb_bytes := Some m, hb_size := hb_size b - off\<rparr>, c_next_req_offset := 0\<rparr>)
     } else Some (c\<lparr>c_req_buf := b\<lparr>hb_size := 0\<rparr>, c_next_req_offset := 0\<rparr>))"

text \<open>\<open>response_serialize\<close> into the response buffer.\<close>

definition serialize_response :: "'u response \<Rightarrow> 'u system \<Rightarrow> (nat option \<times> 'u system) option" where
  "serialize_response res s = do {
     m \<leftarrow> hb_bytes (c_resp_buf (sy_conn s));
     (r, m) \<leftarrow> response_serialize (time_now (sy_world s)) res m (hb_cap (c_resp_buf (sy_conn s))) (c_keep_alive (sy_conn s));
     Some (r, on_conn (\<lambda>c. c\<lparr>c_resp_buf := (c_resp_buf c)\<lparr>hb_bytes := Some m\<rparr>\<rparr>) s)
   }"

definition set_resp_size :: "nat \<Rightarrow> 'u system \<Rightarrow> 'u system" where
  "set_resp_size n s = on_conn (\<lambda>c. c\<lparr>c_resp_buf := (c_resp_buf c)\<lparr>hb_size := n\<rparr>\<rparr>) s"

definition consume_request :: "'u system \<Rightarrow> 'u system option" where
  "consume_request s = map_option (\<lambda>c. s\<lparr>sy_conn := c\<rparr>) (request_consume (sy_conn s))"

text \<open>
  The \<open>body_len\<close> bytes at \<open>body\<close>, which a handler may read: a pointer into the request buffer, to the
  dechunked body, or \<open>NULL\<close>.  A length that leads out of the storage is a fault.
\<close>

definition handler_body :: "'u connection \<Rightarrow> string option" where
  "handler_body c = (case rq_body (c_req c) of
     Body_NULL \<Rightarrow> Some []
   | In_Request_Buffer off \<Rightarrow> do { m \<leftarrow> hb_bytes (c_req_buf c); rd_range m off (rq_body_len (c_req c)) }
   | In_Dechunked \<Rightarrow> do { m \<leftarrow> hb_bytes (c_body_dechunked c); rd_range m 0 (rq_body_len (c_req c)) })"

text \<open>The routes, when no entry of the registry answers; \<open>Allow\<close> is built in 128 bytes.\<close>

definition route_response :: "http_method \<Rightarrow> 'u system \<Rightarrow> ('u response \<times> 'u system) option" where
  "route_response meth s = (let c = sy_conn s; req = c_req c;
       r = route_lookup (ro_routes (sy_router s)) (http_method_show meth) (rl_path (rq_line req)) in
     case rlr_route r of
       Some route \<Rightarrow> do {
         f \<leftarrow> call_handler route;
         bs \<leftarrow> handler_body c;
         (res, a, w) \<leftarrow> f req bs (c_arena c) (sy_world s);
         Some (res, (on_conn (\<lambda>c. c\<lparr>c_arena := a\<rparr>) s)\<lparr>sy_world := w\<rparr>)
       }
     | None \<Rightarrow> Some (if rlr_allowed r \<noteq> [] then response_error_405 (rlr_allowed r) 128
         else response_error_from_status PARSE_NOT_FOUND, s))"

text \<open>The response before \<open>build_resp\<close>.\<close>

definition choose_response :: "config \<Rightarrow> 'u system \<Rightarrow> ('u response \<times> 'u system) option" where
  "choose_response cfg s = (let req = c_req (sy_conn s);
       meth = (if rl_method (rq_line req) = HEAD then GET else rl_method (rq_line req)) in
     if meth = GET then do {
       (d, reg, w) \<leftarrow> content_registry_lookup cfg (ro_registry (sy_router s)) req (rl_path (rq_line req)) (sy_world s);
       let s = s\<lparr>sy_router := (sy_router s)\<lparr>ro_registry := reg\<rparr>, sy_world := w\<rparr>;
       case cl_status d of
         CONTENT_MISS \<Rightarrow> route_response meth s
       | CONTENT_GONE \<Rightarrow> Some (response_error_from_status PARSE_NOT_FOUND, s)
       | CONTENT_NOT_MODIFIED \<Rightarrow> do {
           e \<leftarrow> cl_entry d;
           res \<leftarrow> response_dynamic_304 e;
           Some (res, s)
         }
       | CONTENT_HIT \<Rightarrow> do {
           e \<leftarrow> cl_entry d;
           (res, a, w) \<leftarrow> response_for_entry req e (c_arena (sy_conn s)) (sy_world s);
           Some (res, (on_conn (\<lambda>c. c\<lparr>c_arena := a\<rparr>) s)\<lparr>sy_world := w\<rparr>)
         }
     } else route_response meth s)"

definition send_plain :: "'u response \<Rightarrow> 'u system \<Rightarrow> 'u step" where
  "send_plain res s = do {
     let res = (if rl_method (rq_line (c_req (sy_conn s))) = HEAD then res\<lparr>rs_head_only := True\<rparr> else res);
     (r, s) \<leftarrow> serialize_response res s;
     (r, s) \<leftarrow> (case r of None \<Rightarrow> serialize_response (response_error_from_status PARSE_SERVER_ERROR) s
               | Some n \<Rightarrow> Some (Some n, s));
     n \<leftarrow> r;
     s \<leftarrow> consume_request (set_resp_size n s);
     Some (phase_send_begin s)
   }"

definition step_response_build :: "config \<Rightarrow> 'u system \<Rightarrow> 'u step" where
  "step_response_build cfg s = do {
     require (c_phase (sy_conn s) = CONN_BUILDING);
     (res, s) \<leftarrow> choose_response cfg s;
     case rs_body res of
       BODY_STREAM stream \<Rightarrow> do {
         (head, s) \<leftarrow> serialize_response res (on_conn (\<lambda>c. c\<lparr>c_producer := stream\<rparr>) s);
         case head of
           None \<Rightarrow> send_plain (response_error_from_status PARSE_SERVER_ERROR) (stream_release s)
         | Some n \<Rightarrow> do {
             s \<leftarrow> consume_request (on_conn (\<lambda>c. c\<lparr>c_st := St_Stream STREAM_HEADER 0\<rparr>) (set_resp_size n s));
             Some (CONN_SENDING_RESPONSE_STREAM, s)
           }
       }
     | _ \<Rightarrow> send_plain res s
   }"

subsection \<open>Sending\<close>

definition connection_reset :: "'u connection \<Rightarrow> 'u connection option" where
  "connection_reset c = do {
     a \<leftarrow> arena_reset_to (c_arena c) (c_req_mark c);
     Some (c\<lparr>c_st := St_Send 0, c_resp_buf := (c_resp_buf c)\<lparr>hb_size := 0\<rparr>, c_req := request_zero,
       c_keep_alive := False, c_body_start := 0, c_body_len := 0, c_body_coding := TE_NONE, c_arena := a\<rparr>)
   }"

text \<open>The end of a response: the connection is closed or made ready for the next request.\<close>

definition request_done :: "config \<Rightarrow> 'u system \<Rightarrow> 'u step" where
  "request_done cfg s = (let c = (sy_conn s)\<lparr>c_requests := c_requests (sy_conn s) + 1\<rparr> in
     if \<not> c_keep_alive c \<or> c_requests c \<ge> max_requests cfg then Some (CONN_CLOSED, s\<lparr>sy_conn := c\<rparr>)
     else do {
       c \<leftarrow> connection_reset c;
       Some (CONN_READING_REQUEST, s\<lparr>sy_conn := c\<rparr>)
     })"

definition step_response_send :: "config \<Rightarrow> 'u system \<Rightarrow> 'u step" where
  "step_response_send cfg s = do {
     sent \<leftarrow> st_sent (c_st (sy_conn s));
     (st, sent, net) \<leftarrow> response_send (c_fd (sy_conn s)) (c_resp_buf (sy_conn s)) sent (sy_net s);
     let s = (on_conn (\<lambda>c. c\<lparr>c_st := St_Send sent\<rparr>) s)\<lparr>sy_net := net\<rparr>;
     case st of
       SEND_HAS_MORE \<Rightarrow> Some (phase_send_begin s)
     | SEND_OK \<Rightarrow> request_done cfg s
     | _ \<Rightarrow> Some (CONN_CLOSED, s)
   }"

text \<open>\<open>sent\<close> is the cursor \<open>response_send\<close> has stored in \<open>st.stream.send\<close>.\<close>

definition stream_handle_response :: "send_status \<Rightarrow> stream_phase \<Rightarrow> 'u system \<Rightarrow> stream_step \<times> 'u system" where
  "stream_handle_response st phase s = (case st of
     SEND_ERROR \<Rightarrow> (STREAM_ABORT, s)
   | SEND_PEER_CLOSED \<Rightarrow> (STREAM_ABORT, s)
   | SEND_HAS_MORE \<Rightarrow> (STREAM_YIELD, s)
   | SEND_OK \<Rightarrow> (STREAM_ADVANCE, on_conn (\<lambda>c. c\<lparr>c_st := St_Stream phase 0\<rparr>) s))"

text \<open>One turn of the \<open>for (;;)\<close>: \<open>Inl\<close> leaves the loop, \<open>Inr\<close> continues it.\<close>

definition stream_send :: "stream_phase \<Rightarrow> stream_phase \<Rightarrow> nat \<Rightarrow> 'u system \<Rightarrow> ((conn_phase \<times> 'u system) + 'u system) option" where
  "stream_send now_phase next_phase sent s = do {
     (st, sent, net) \<leftarrow> response_send (c_fd (sy_conn s)) (c_resp_buf (sy_conn s)) sent (sy_net s);
     let s = (on_conn (\<lambda>c. c\<lparr>c_st := St_Stream now_phase sent\<rparr>) s)\<lparr>sy_net := net\<rparr>;
     let (step, s) = stream_handle_response st next_phase s;
     case step of
       STREAM_ABORT \<Rightarrow> map_option Inl (stream_abort s)
     | STREAM_YIELD \<Rightarrow> Some (Inl (CONN_SENDING_RESPONSE_STREAM, s))
     | STREAM_ADVANCE \<Rightarrow> Some (Inr s)
   }"

definition stage_frame :: "nat option \<Rightarrow> mem \<Rightarrow> stream_phase \<Rightarrow> 'u system \<Rightarrow> ((conn_phase \<times> 'u system) + 'u system) option" where
  "stage_frame f m phase s = (let s = on_conn (\<lambda>c. c\<lparr>c_resp_buf := (c_resp_buf c)\<lparr>hb_bytes := Some m\<rparr>\<rparr>) s in
     case f of None \<Rightarrow> map_option Inl (stream_abort s)
     | Some n \<Rightarrow> Some (Inr (on_conn (\<lambda>c. c\<lparr>c_st := St_Stream phase 0\<rparr>) (set_resp_size n s))))"

text \<open>A \<open>pull\<close> that stores more bytes than it was given room for is a fault.\<close>

definition stream_pull :: "config \<Rightarrow> 'u system \<Rightarrow> ((conn_phase \<times> 'u system) + 'u system) option" where
  "stream_pull cfg s = (let c = sy_conn s; p = c_producer c in do {
     pull \<leftarrow> st_pull p;
     let (pulled, w) = pull (st_ctx p) (stream_chunk_size cfg) (sy_world s);
     let s = s\<lparr>sy_world := w\<rparr>;
     case pulled of
       None \<Rightarrow> map_option Inl (stream_abort s)
     | Some bs \<Rightarrow> do {
         require (length bs \<le> stream_chunk_size cfg);
         m \<leftarrow> hb_bytes (c_resp_buf c);
         if bs = [] then do {
           (f, m) \<leftarrow> chunk_frame_last m (hb_cap (c_resp_buf c));
           stage_frame f m STREAM_TRAILER s
         } else do {
           (f, m) \<leftarrow> chunk_frame bs (length bs) m (hb_cap (c_resp_buf c));
           stage_frame f m STREAM_DRAIN s
         }
       }
   })"

definition stream_turn :: "config \<Rightarrow> 'u system \<Rightarrow> ((conn_phase \<times> 'u system) + 'u system) option" where
  "stream_turn cfg s = do {
     (phase, sent) \<leftarrow> st_stream (c_st (sy_conn s));
     case phase of
       STREAM_HEADER \<Rightarrow> stream_send STREAM_HEADER
         (if rl_method (rq_line (c_req (sy_conn s))) = HEAD then STREAM_DONE else STREAM_PULL) sent s
     | STREAM_PULL \<Rightarrow> stream_pull cfg s
     | STREAM_DRAIN \<Rightarrow> stream_send STREAM_DRAIN STREAM_PULL sent s
     | STREAM_TRAILER \<Rightarrow> stream_send STREAM_TRAILER STREAM_DONE sent s
     | STREAM_DONE \<Rightarrow> map_option Inl (request_done cfg (stream_release s))
   }"

subsection \<open>Reading sends nothing\<close>

lemma conn_recv_header_loop_keeps:
  "conn_recv_header_loop m cap received net = Some (res, m', net') \<Longrightarrow> outbox net' = outbox net \<and> wire net' = wire net"
proof (induction "inbox_size net" arbitrary: m received net rule: less_induct)
  case less
  obtain r net1 where r: "recv net (cap - received) = (r, net1)" by fastforce
  have keep: "outbox net1 = outbox net \<and> wire net1 = wire net" using recv_keeps [OF r] by simp
  note unf = less.prems [unfolded conn_recv_header_loop.simps [of m cap received net] r]
  consider "net' = net" | "net' = net1" | b bs m1 where "r = Inl (b # bs)" "conn_recv_header_loop m1 cap (received + length (b # bs)) net1 = Some (res, m', net')"
    | "r = Inr EINTR" "conn_recv_header_loop m cap received net1 = Some (res, m', net')"
    using unf by (cases r; (cases "projl r")?; (cases "projr r")?)
      (auto simp: Option.bind_eq_Some_conv split: option.splits if_splits)
  then show ?case
  proof cases
    case (3 b bs m1)
    with less.hyps [OF recv_shrinks(1) [OF r [unfolded 3(1)]] 3(2)] keep show ?thesis by simp
  next
    case 4
    with less.hyps [OF recv_shrinks(2) [OF r [unfolded 4(1)]] 4(2)] keep show ?thesis by simp
  qed (use keep in simp_all)
qed

lemma conn_recv_header_keeps: "conn_recv_header fd b net = Some (res, b', net') \<Longrightarrow> outbox net' = outbox net \<and> wire net' = wire net"
  by (auto simp: conn_recv_header_def Option.bind_eq_Some_conv dest: conn_recv_header_loop_keeps)

lemma conn_recv_body_cl_loop_keeps:
  "conn_recv_body_cl_loop req bs bl received net = Some (res, req', received', net') \<Longrightarrow> outbox net' = outbox net \<and> wire net' = wire net"
proof (induction "inbox_size net" arbitrary: req received net rule: less_induct)
  case less
  obtain r net1 where r: "recv net (hb_cap req - hb_size req) = (r, net1)" by fastforce
  have keep: "outbox net1 = outbox net \<and> wire net1 = wire net" using recv_keeps [OF r] by simp
  note unf = less.prems [unfolded conn_recv_body_cl_loop.simps [of req bs bl received net] r]
  consider "net' = net" | "net' = net1" | b cs req1 where "r = Inl (b # cs)"
      "conn_recv_body_cl_loop req1 bs bl (received + length (b # cs)) net1 = Some (res, req', received', net')"
    | "r = Inr EINTR" "conn_recv_body_cl_loop req bs bl received net1 = Some (res, req', received', net')"
    using unf by (cases r; (cases "projl r")?; (cases "projr r")?)
      (auto simp: Option.bind_eq_Some_conv split: option.splits if_splits)
  then show ?case
  proof cases
    case (3 b cs req1)
    with less.hyps [OF recv_shrinks(1) [OF r [unfolded 3(1)]] 3(2)] keep show ?thesis by simp
  next
    case 4
    with less.hyps [OF recv_shrinks(2) [OF r [unfolded 4(1)]] 4(2)] keep show ?thesis by simp
  qed (use keep in simp_all)
qed

lemma conn_recv_body_cl_keeps:
  "conn_recv_body_cl fd req bs bl received net = Some (res, req', received', net') \<Longrightarrow> outbox net' = outbox net \<and> wire net' = wire net"
  by (auto simp: conn_recv_body_cl_def Option.bind_eq_Some_conv dest: conn_recv_body_cl_loop_keeps)

lemma conn_recv_body_chunked_loop_keeps:
  "conn_recv_body_chunked_loop cfg req bs d st net = Some (res, req', d', st', net') \<Longrightarrow> outbox net' = outbox net \<and> wire net' = wire net"
proof (induction "inbox_size net" arbitrary: req d st net rule: less_induct)
  case less
  obtain r net1 where r: "recv net (hb_cap req - hb_size req) = (r, net1)" by fastforce
  have keep: "outbox net1 = outbox net \<and> wire net1 = wire net" using recv_keeps [OF r] by simp
  note unf = less.prems [unfolded conn_recv_body_chunked_loop.simps [of cfg req bs d st net] r]
  consider "net' = net" | "net' = net1" | b cs req1 d1 st1 where "r = Inl (b # cs)"
      "conn_recv_body_chunked_loop cfg req1 bs d1 st1 net1 = Some (res, req', d', st', net')"
    | d1 st1 where "r = Inr EINTR" "conn_recv_body_chunked_loop cfg req bs d1 st1 net1 = Some (res, req', d', st', net')"
    using unf by (cases r; (cases "projl r")?; (cases "projr r")?)
      (auto simp: Option.bind_eq_Some_conv split: option.splits if_splits sum.splits)
  then show ?case
  proof cases
    case (3 b cs req1 d1 st1)
    with less.hyps [OF recv_shrinks(1) [OF r [unfolded 3(1)]] 3(2)] keep show ?thesis by simp
  next
    case (4 d1 st1)
    with less.hyps [OF recv_shrinks(2) [OF r [unfolded 4(1)]] 4(2)] keep show ?thesis by simp
  qed (use keep in simp_all)
qed

lemma conn_recv_body_chunked_keeps:
  "conn_recv_body_chunked cfg fd req bs d st net = Some (res, req', d', st', net') \<Longrightarrow> outbox net' = outbox net \<and> wire net' = wire net"
  by (auto simp: conn_recv_body_chunked_def Option.bind_eq_Some_conv dest: conn_recv_body_chunked_loop_keeps)

subsection \<open>Which phase comes next\<close>

text \<open>The socket is touched by the reads and the sends only; each step names the phases it can lead to.\<close>

lemma phase_send_begin_next: "phase_send_begin s = (p, s') \<Longrightarrow> p = CONN_SENDING_RESPONSE \<and> sy_net s' = sy_net s"
  by (auto simp: phase_send_begin_def)

lemma send_error_next: "send_error st s = Some (p, s') \<Longrightarrow> p = CONN_SENDING_RESPONSE \<and> sy_net s' = sy_net s"
  by (auto simp: send_error_def phase_send_begin_def Option.bind_eq_Some_conv)

lemma phase_body_dispatch_next:
  "phase_body_dispatch s = Some (p, s') \<Longrightarrow>
     p \<in> {CONN_READING_BODY_CHUNKED, CONN_BUILDING, CONN_READING_BODY_CL} \<and> sy_net s' = sy_net s"
  by (auto simp: phase_body_dispatch_def Let_def Option.bind_eq_Some_conv split: if_splits)

definition after_head :: "conn_phase set" where
  "after_head = {CONN_SENDING_RESPONSE, CONN_READING_BODY_CHUNKED, CONN_BUILDING, CONN_READING_BODY_CL, CONN_SENDING_100}"

lemma after_head_next:
  "send_error st s = Some (p, s') \<Longrightarrow> p \<in> after_head \<and> sy_net s' = sy_net s"
  "phase_body_dispatch s = Some (p, s') \<Longrightarrow> p \<in> after_head \<and> sy_net s' = sy_net s"
  by (auto simp: after_head_def dest: send_error_next phase_body_dispatch_next)

lemma head_body_dispatch_next:
  "head_body_dispatch http10 ct s = Some (p, s') \<Longrightarrow> p \<in> after_head \<and> sy_net s' = sy_net s"
  unfolding head_body_dispatch_def Let_def
  by (auto split: if_splits dest: after_head_next simp: phase_send_100_begin_def) (simp_all add: after_head_def)

lemma head_framing_next:
  "head_framing cfg http10 s = Some (p, s') \<Longrightarrow> p \<in> after_head \<and> sy_net s' = sy_net s"
  unfolding head_framing_def Let_def
  by (auto simp: Option.bind_eq_Some_conv split: if_splits option.splits dest: after_head_next head_body_dispatch_next)

lemma head_received_next:
  "head_received cfg r s = Some (p, s') \<Longrightarrow> p \<in> after_head \<and> sy_net s' = sy_net s"
  unfolding head_received_def Let_def
  by (auto simp: Option.bind_eq_Some_conv split: if_splits dest: after_head_next head_framing_next)

lemma step_header_read_next:
  assumes "step_header_read cfg s = Some (p, s')" "p \<noteq> CONN_READING_REQUEST" "p \<noteq> CONN_CLOSED"
  shows "p \<in> after_head \<and> outbox (sy_net s') = outbox (sy_net s)"
proof -
  from assms(1) obtain res buf net where r: "conn_recv_header (c_fd (sy_conn s)) (c_req_buf (sy_conn s)) (sy_net s) = Some (res, buf, net)"
    unfolding step_header_read_def by (auto simp: Option.bind_eq_Some_conv)
  note keep = conn_recv_header_keeps [OF r]
  from assms r show ?thesis
    unfolding step_header_read_def
    by (cases "rh_status res")
      (auto simp: Option.bind_eq_Some_conv keep dest: after_head_next(1) head_received_next)
qed

lemma send_outbox:
  "send net bs = (r, net') \<Longrightarrow> length (outbox net') \<le> length (outbox net)"
  "send net bs = (Inl k, net') \<Longrightarrow> length (outbox net') < length (outbox net)"
  by (auto simp: send_def split: list.splits send_event.splits)

lemma response_send_outbox:
  assumes "response_send fd b sent net = Some (st, sent', net')"
  shows "length (outbox net') \<le> length (outbox net)" "st = SEND_OK \<Longrightarrow> length (outbox net') < length (outbox net)"
proof -
  from assms obtain bs where bs: "(let (r, n) = send net bs in
     case r of
       Inr e \<Rightarrow> if e = EAGAIN \<or> e = EINTR then Some (SEND_HAS_MORE, sent, n)
         else if e = EPIPE \<or> e = ECONNRESET then Some (SEND_PEER_CLOSED, sent, n)
         else Some (SEND_ERROR, sent, n)
     | Inl k \<Rightarrow> let sent = sent + k in
         Some (if sent = hb_size b then SEND_OK else SEND_HAS_MORE, sent, n)) = Some (st, sent', net')"
    unfolding response_send_def Option.bind_eq_Some_conv by blast
  obtain r n where r: "send net bs = (r, n)" by fastforce
  note res = bs [unfolded r Let_def prod.case]
  have "n = net'" using res by (auto split: sum.splits if_splits)
  then show "length (outbox net') \<le> length (outbox net)" using send_outbox(1) [OF r] by simp
  show "length (outbox net') < length (outbox net)" if "st = SEND_OK"
  proof (cases r)
    case (Inl k)
    with \<open>n = net'\<close> send_outbox(2) r show ?thesis by blast
  qed (use res that in \<open>auto split: if_splits\<close>)
qed

lemma step_send_100_next:
  assumes "step_send_100 s = Some (p, s')" "p \<noteq> CONN_SENDING_100" "p \<noteq> CONN_CLOSED"
  shows "p \<in> {CONN_READING_BODY_CHUNKED, CONN_BUILDING, CONN_READING_BODY_CL}
    \<and> length (outbox (sy_net s')) \<le> length (outbox (sy_net s))"
proof -
  from assms(1) obtain sent st sent' net where r: "st_sent (c_st (sy_conn s)) = Some sent"
    "response_send (c_fd (sy_conn s)) continue_100_buf sent (sy_net s) = Some (st, sent', net)"
    unfolding step_send_100_def by (auto simp: Option.bind_eq_Some_conv)
  with assms show ?thesis using response_send_outbox(1) [OF r(2)]
    unfolding step_send_100_def by (cases st) (auto dest: phase_body_dispatch_next)
qed

lemma step_body_cl_read_next:
  assumes "step_body_cl_read s = Some (p, s')" "p \<noteq> CONN_READING_BODY_CL"
  shows "p \<in> {CONN_BUILDING, CONN_SENDING_RESPONSE} \<and> outbox (sy_net s') = outbox (sy_net s)"
  using assms unfolding step_body_cl_read_def Let_def
  by (auto simp: Option.bind_eq_Some_conv split: if_splits dest!: send_error_next conn_recv_body_cl_keeps)

lemma step_body_chunked_read_next:
  assumes "step_body_chunked_read cfg s = Some (p, s')" "p \<noteq> CONN_READING_BODY_CHUNKED"
  shows "p \<in> {CONN_BUILDING, CONN_SENDING_RESPONSE} \<and> outbox (sy_net s') = outbox (sy_net s)"
proof -
  from assms(1) obtain st res buf d st' net where r: "st_chunked (c_st (sy_conn s)) = Some st"
    "conn_recv_body_chunked cfg (c_fd (sy_conn s)) (c_req_buf (sy_conn s)) (c_body_start (sy_conn s))
      (c_body_dechunked (sy_conn s)) st (sy_net s) = Some (res, buf, d, st', net)"
    unfolding step_body_chunked_read_def by (auto simp: Option.bind_eq_Some_conv)
  from conn_recv_body_chunked_keeps [OF r(2)] assms r show ?thesis
    unfolding step_body_chunked_read_def
    by (cases "rb_status res") (auto simp: Option.bind_eq_Some_conv dest: send_error_next)
qed

lemma serialize_response_net: "serialize_response res s = Some (r, s') \<Longrightarrow> sy_net s' = sy_net s"
  by (auto simp: serialize_response_def Option.bind_eq_Some_conv)

lemma consume_request_net: "consume_request s = Some s' \<Longrightarrow> sy_net s' = sy_net s"
  by (auto simp: consume_request_def)

lemma set_resp_size_net [simp]: "sy_net (set_resp_size n s) = sy_net s"
  by (simp add: set_resp_size_def)

lemma stream_release_net [simp]: "sy_net (stream_release s) = sy_net s"
  by (simp add: stream_release_def Let_def)

lemma route_response_net: "route_response meth s = Some (r, s') \<Longrightarrow> sy_net s' = sy_net s"
  by (auto simp: route_response_def Let_def Option.bind_eq_Some_conv case_prod_beta split: option.splits)

lemma choose_response_net: "choose_response cfg s = Some (r, s') \<Longrightarrow> sy_net s' = sy_net s"
  unfolding choose_response_def Let_def
  by (auto simp: Option.bind_eq_Some_conv split: if_splits content_lookup_status.splits dest: route_response_net)

lemma send_plain_next:
  assumes "send_plain res s = Some (p, s')"
  shows "p = CONN_SENDING_RESPONSE \<and> sy_net s' = sy_net s"
  using assms unfolding send_plain_def Let_def
  by (auto simp: Option.bind_eq_Some_conv split: option.splits
      dest!: phase_send_begin_next serialize_response_net consume_request_net)

text \<open>The stream phase after a step; only a stream that is done leads on without a send.\<close>

definition stream_is_done :: "conn_st \<Rightarrow> bool" where
  "stream_is_done st \<longleftrightarrow> (case st of St_Stream STREAM_DONE _ \<Rightarrow> True | _ \<Rightarrow> False)"

lemma consume_request_st: "consume_request s = Some s' \<Longrightarrow> c_st (sy_conn s') = c_st (sy_conn s)"
  by (auto simp: consume_request_def request_consume_def Let_def Option.bind_eq_Some_conv split: if_splits)

lemma step_response_build_next:
  assumes "step_response_build cfg s = Some (p, s')"
  shows "sy_net s' = sy_net s
    \<and> (p = CONN_SENDING_RESPONSE \<or> p = CONN_SENDING_RESPONSE_STREAM \<and> \<not> stream_is_done (c_st (sy_conn s')))"
proof -
  from assms obtain res s1 where c: "choose_response cfg s = Some (res, s1)"
    and rest: "(case rs_body res of
       BODY_STREAM stream \<Rightarrow> do {
         (head, s) \<leftarrow> serialize_response res (on_conn (\<lambda>c. c\<lparr>c_producer := stream\<rparr>) s1);
         case head of
           None \<Rightarrow> send_plain (response_error_from_status PARSE_SERVER_ERROR) (stream_release s)
         | Some n \<Rightarrow> do {
             s \<leftarrow> consume_request (on_conn (\<lambda>c. c\<lparr>c_st := St_Stream STREAM_HEADER 0\<rparr>) (set_resp_size n s));
             Some (CONN_SENDING_RESPONSE_STREAM, s)
           }
       }
     | _ \<Rightarrow> send_plain res s1) = Some (p, s')"
    unfolding step_response_build_def by (auto simp: Option.bind_eq_Some_conv)
  note n = choose_response_net [OF c]
  show ?thesis
  proof (cases "rs_body res")
    case (BODY_STREAM stream)
    with rest obtain head s2 where s2: "serialize_response res (on_conn (\<lambda>c. c\<lparr>c_producer := stream\<rparr>) s1) = Some (head, s2)"
      by (auto simp: Option.bind_eq_Some_conv)
    note n2 = serialize_response_net [OF s2]
    show ?thesis
    proof (cases head)
      case None
      with rest BODY_STREAM s2 have "send_plain (response_error_from_status PARSE_SERVER_ERROR) (stream_release s2) = Some (p, s')" by simp
      with n n2 show ?thesis by (auto dest: send_plain_next)
    next
      case (Some k)
      with rest BODY_STREAM s2 n n2 show ?thesis
        by (auto simp: Option.bind_eq_Some_conv stream_is_done_def dest: consume_request_net consume_request_st)
    qed
  qed (use rest n in \<open>auto dest: send_plain_next\<close>)
qed

lemma request_done_next:
  "request_done cfg s = Some (p, s') \<Longrightarrow> (p = CONN_CLOSED \<or> p = CONN_READING_REQUEST) \<and> sy_net s' = sy_net s"
  by (auto simp: request_done_def Let_def Option.bind_eq_Some_conv split: if_splits)

lemma step_response_send_next:
  assumes "step_response_send cfg s = Some (p, s')" "p \<noteq> CONN_SENDING_RESPONSE" "p \<noteq> CONN_CLOSED"
  shows "p = CONN_READING_REQUEST \<and> length (outbox (sy_net s')) < length (outbox (sy_net s))"
proof -
  from assms(1) obtain sent st sent' net where r: "st_sent (c_st (sy_conn s)) = Some sent"
    "response_send (c_fd (sy_conn s)) (c_resp_buf (sy_conn s)) sent (sy_net s) = Some (st, sent', net)"
    unfolding step_response_send_def by (auto simp: Option.bind_eq_Some_conv)
  with assms show ?thesis using response_send_outbox(2) [OF r(2)]
    unfolding step_response_send_def
    by (cases st) (auto dest: request_done_next simp: phase_send_begin_def)
qed

subsection \<open>The stream loop\<close>

definition stream_measure :: "'u system \<Rightarrow> nat" where
  "stream_measure s = 2 * length (outbox (sy_net s)) + (case c_st (sy_conn s) of St_Stream STREAM_PULL _ \<Rightarrow> 1 | _ \<Rightarrow> 0)"

lemma stream_abort_next: "stream_abort s = Some (p, s') \<Longrightarrow> p = CONN_CLOSED \<and> sy_net s' = sy_net s"
  by (auto simp: stream_abort_def Option.bind_eq_Some_conv)

lemma stream_send_turn:
  assumes "stream_send a b sent s = Some r"
  shows "case r of Inr s' \<Rightarrow> length (outbox (sy_net s')) < length (outbox (sy_net s)) \<and> (\<exists>n. c_st (sy_conn s') = St_Stream b n)
    | Inl (p, s') \<Rightarrow> p = CONN_CLOSED \<or> p = CONN_SENDING_RESPONSE_STREAM"
proof -
  from assms obtain st sent' net where r: "response_send (c_fd (sy_conn s)) (c_resp_buf (sy_conn s)) sent (sy_net s) = Some (st, sent', net)"
    unfolding stream_send_def by (auto simp: Option.bind_eq_Some_conv)
  with assms show ?thesis using response_send_outbox(2) [OF r]
    unfolding stream_send_def stream_handle_response_def
    by (cases st) (auto dest: stream_abort_next)
qed

lemma stage_frame_turn:
  assumes "stage_frame f m phase s = Some r"
  shows "case r of Inr s' \<Rightarrow> sy_net s' = sy_net s \<and> (\<exists>n. c_st (sy_conn s') = St_Stream phase n)
    | Inl (p, s') \<Rightarrow> p = CONN_CLOSED"
  using assms unfolding stage_frame_def Let_def
  by (auto split: option.splits dest: stream_abort_next)

lemma stream_pull_turn:
  assumes "stream_pull cfg s = Some r"
  shows "case r of Inr s' \<Rightarrow> sy_net s' = sy_net s \<and> (\<exists>n. c_st (sy_conn s') = St_Stream STREAM_DRAIN n \<or> c_st (sy_conn s') = St_Stream STREAM_TRAILER n)
    | Inl (p, s') \<Rightarrow> p = CONN_CLOSED"
proof -
  from assms obtain pull where pull: "st_pull (c_producer (sy_conn s)) = Some pull"
    by (auto simp: stream_pull_def Let_def Option.bind_eq_Some_conv)
  obtain pulled w where w: "pull (st_ctx (c_producer (sy_conn s))) (stream_chunk_size cfg) (sy_world s) = (pulled, w)"
    by fastforce
  let ?s = "s\<lparr>sy_world := w\<rparr>"
  consider e where "stream_abort ?s = Some e" "r = Inl e"
    | f m where "stage_frame f m STREAM_TRAILER ?s = Some r" | f m where "stage_frame f m STREAM_DRAIN ?s = Some r"
    using assms pull w unfolding stream_pull_def Let_def
    by (auto simp: Option.bind_eq_Some_conv split: option.splits if_splits)
  then show ?thesis
  proof cases
    case (1 e)
    then show ?thesis by (cases e) (auto dest: stream_abort_next)
  qed (auto dest!: stage_frame_turn split: sum.splits)
qed

lemma stream_turn_smaller: "stream_turn cfg s = Some (Inr s') \<Longrightarrow> stream_measure s' < stream_measure s"
proof -
  assume "stream_turn cfg s = Some (Inr s')"
  then obtain phase sent where st: "c_st (sy_conn s) = St_Stream phase sent"
    and turn: "(case phase of
       STREAM_HEADER \<Rightarrow> stream_send STREAM_HEADER
         (if rl_method (rq_line (c_req (sy_conn s))) = HEAD then STREAM_DONE else STREAM_PULL) sent s
     | STREAM_PULL \<Rightarrow> stream_pull cfg s
     | STREAM_DRAIN \<Rightarrow> stream_send STREAM_DRAIN STREAM_PULL sent s
     | STREAM_TRAILER \<Rightarrow> stream_send STREAM_TRAILER STREAM_DONE sent s
     | STREAM_DONE \<Rightarrow> map_option Inl (request_done cfg (stream_release s))) = Some (Inr s')"
    by (auto simp: stream_turn_def st_stream_def Option.bind_eq_Some_conv split: conn_st.splits)
  show ?thesis
  proof (cases phase)
    case STREAM_PULL
    with turn have "stream_pull cfg s = Some (Inr s')" by simp
    from stream_pull_turn [OF this] st STREAM_PULL show ?thesis by (auto simp: stream_measure_def)
  next
    case STREAM_DONE
    with turn show ?thesis by simp
  qed (use turn st in \<open>auto dest!: stream_send_turn simp: stream_measure_def split: conn_st.splits stream_phase.splits\<close>)
qed

function step_response_send_stream :: "config \<Rightarrow> 'u system \<Rightarrow> 'u step" where
  "step_response_send_stream cfg s = do {
     r \<leftarrow> stream_turn cfg s;
     case r of Inl done \<Rightarrow> Some done | Inr s \<Rightarrow> step_response_send_stream cfg s
   }"
  by pat_completeness auto
termination
  by (relation "measure (\<lambda>(cfg, s). stream_measure s)") (auto dest: stream_turn_smaller)

declare step_response_send_stream.simps [simp del]

lemma stream_turn_stays:
  assumes "stream_turn cfg s = Some (Inr s')"
  shows "length (outbox (sy_net s')) \<le> length (outbox (sy_net s))"
    "stream_is_done (c_st (sy_conn s')) \<Longrightarrow> length (outbox (sy_net s')) < length (outbox (sy_net s))"
  using stream_turn_smaller [OF assms] assms
  by (auto simp: stream_measure_def stream_turn_def st_stream_def stream_is_done_def Option.bind_eq_Some_conv
      split: conn_st.splits stream_phase.splits dest!: stream_send_turn stream_pull_turn)

lemma stream_turn_leaves:
  assumes "stream_turn cfg s = Some (Inl (p, s'))"
  shows "p = CONN_CLOSED \<or> p = CONN_SENDING_RESPONSE_STREAM
    \<or> p = CONN_READING_REQUEST \<and> stream_is_done (c_st (sy_conn s)) \<and> sy_net s' = sy_net s"
  using assms
  by (auto simp: stream_turn_def st_stream_def stream_is_done_def Option.bind_eq_Some_conv
      split: conn_st.splits stream_phase.splits dest!: stream_send_turn stream_pull_turn request_done_next)

lemma step_response_send_stream_next:
  assumes "step_response_send_stream cfg s = Some (p, s')" "p \<noteq> CONN_SENDING_RESPONSE_STREAM" "p \<noteq> CONN_CLOSED"
  shows "p = CONN_READING_REQUEST \<and> (length (outbox (sy_net s')) < length (outbox (sy_net s))
    \<or> stream_is_done (c_st (sy_conn s)) \<and> length (outbox (sy_net s')) \<le> length (outbox (sy_net s)))"
  using assms
proof (induction cfg s rule: step_response_send_stream.induct)
  case (1 cfg s)
  obtain r where r: "stream_turn cfg s = Some r"
    using "1.prems"(1) by (subst (asm) step_response_send_stream.simps) (auto simp: Option.bind_eq_Some_conv)
  show ?case
  proof (cases r)
    case (Inl out)
    with "1.prems" r have "stream_turn cfg s = Some (Inl (p, s'))"
      by (subst (asm) step_response_send_stream.simps) simp
    from stream_turn_leaves [OF this] "1.prems"(2, 3) show ?thesis by auto
  next
    case (Inr s1)
    with "1.prems"(1) r have "step_response_send_stream cfg s1 = Some (p, s')"
      by (subst (asm) step_response_send_stream.simps) simp
    from "1.IH" [OF r Inr this "1.prems"(2, 3)] stream_turn_stays [OF r [unfolded Inr]]
    show ?thesis by auto
  qed
qed

subsection \<open>Driving the connection\<close>

definition conn_step :: "config \<Rightarrow> 'u system \<Rightarrow> 'u system option" where
  "conn_step cfg s = do {
     (p, s) \<leftarrow> (case c_phase (sy_conn s) of
        CONN_READING_REQUEST \<Rightarrow> step_header_read cfg s
      | CONN_SENDING_100 \<Rightarrow> step_send_100 s
      | CONN_READING_BODY_CL \<Rightarrow> step_body_cl_read s
      | CONN_READING_BODY_CHUNKED \<Rightarrow> step_body_chunked_read cfg s
      | CONN_BUILDING \<Rightarrow> step_response_build cfg s
      | CONN_SENDING_RESPONSE \<Rightarrow> step_response_send cfg s
      | CONN_SENDING_RESPONSE_STREAM \<Rightarrow> step_response_send_stream cfg s
      | CONN_CLOSED \<Rightarrow> Some (CONN_CLOSED, s));
     Some (on_conn (\<lambda>c. c\<lparr>c_phase := p\<rparr>) s)
   }"

text \<open>
  Every step that changes the phase brings the connection closer to rest: nothing is sent before a
  response is built, and each response takes a \<open>send\<close> that the kernel answers.
\<close>

definition conn_rank :: "'u connection \<Rightarrow> nat" where
  "conn_rank c = (case c_phase c of
     CONN_READING_REQUEST \<Rightarrow> 5 | CONN_SENDING_100 \<Rightarrow> 4 | CONN_READING_BODY_CL \<Rightarrow> 3 | CONN_READING_BODY_CHUNKED \<Rightarrow> 3
   | CONN_BUILDING \<Rightarrow> 2 | CONN_SENDING_RESPONSE \<Rightarrow> 1 | CONN_CLOSED \<Rightarrow> 0
   | CONN_SENDING_RESPONSE_STREAM \<Rightarrow> if stream_is_done (c_st c) then 6 else 1)"

definition conn_measure :: "'u system \<Rightarrow> nat" where
  "conn_measure s = 8 * length (outbox (sy_net s)) + conn_rank (sy_conn s)"

lemma conn_step_smaller:
  assumes "conn_step cfg s = Some s'" "c_phase (sy_conn s') \<noteq> c_phase (sy_conn s)" "c_phase (sy_conn s') \<noteq> CONN_CLOSED"
  shows "conn_measure s' < conn_measure s"
proof -
  obtain p s1 where s': "s' = on_conn (\<lambda>c. c\<lparr>c_phase := p\<rparr>) s1"
    and step: "(case c_phase (sy_conn s) of
        CONN_READING_REQUEST \<Rightarrow> step_header_read cfg s
      | CONN_SENDING_100 \<Rightarrow> step_send_100 s
      | CONN_READING_BODY_CL \<Rightarrow> step_body_cl_read s
      | CONN_READING_BODY_CHUNKED \<Rightarrow> step_body_chunked_read cfg s
      | CONN_BUILDING \<Rightarrow> step_response_build cfg s
      | CONN_SENDING_RESPONSE \<Rightarrow> step_response_send cfg s
      | CONN_SENDING_RESPONSE_STREAM \<Rightarrow> step_response_send_stream cfg s
      | CONN_CLOSED \<Rightarrow> Some (CONN_CLOSED, s)) = Some (p, s1)"
    using assms(1) unfolding conn_step_def by (auto simp: Option.bind_eq_Some_conv)
  have p: "p \<noteq> c_phase (sy_conn s)" "p \<noteq> CONN_CLOSED" using assms(2, 3) s' by simp_all
  have m: "conn_measure s' = 8 * length (outbox (sy_net s1)) + conn_rank (sy_conn s1\<lparr>c_phase := p\<rparr>)"
    by (simp add: s' conn_measure_def)
  show ?thesis
  proof (cases "c_phase (sy_conn s)")
    case CONN_READING_REQUEST
    with step p step_header_read_next show ?thesis
      unfolding m by (fastforce simp: conn_measure_def conn_rank_def after_head_def)
  next
    case CONN_SENDING_100
    with step p step_send_100_next show ?thesis
      unfolding m by (fastforce simp: conn_measure_def conn_rank_def)
  next
    case CONN_READING_BODY_CL
    with step p step_body_cl_read_next show ?thesis
      unfolding m by (fastforce simp: conn_measure_def conn_rank_def)
  next
    case CONN_READING_BODY_CHUNKED
    with step p step_body_chunked_read_next show ?thesis
      unfolding m by (fastforce simp: conn_measure_def conn_rank_def)
  next
    case CONN_BUILDING
    with step p step_response_build_next show ?thesis
      unfolding m by (fastforce simp: conn_measure_def conn_rank_def)
  next
    case CONN_SENDING_RESPONSE
    with step p step_response_send_next show ?thesis
      unfolding m by (fastforce simp: conn_measure_def conn_rank_def)
  next
    case CONN_SENDING_RESPONSE_STREAM
    with step p step_response_send_stream_next show ?thesis
      unfolding m by (fastforce simp: conn_measure_def conn_rank_def)
  qed (use step p in simp)
qed

function connection_step_process :: "config \<Rightarrow> 'u system \<Rightarrow> 'u system option" where
  "connection_step_process cfg s = do {
     s' \<leftarrow> conn_step cfg s;
     if c_phase (sy_conn s') \<noteq> c_phase (sy_conn s) \<and> c_phase (sy_conn s') \<noteq> CONN_CLOSED
     then connection_step_process cfg s' else Some s'
   }"
  by pat_completeness auto
termination
  by (relation "measure (\<lambda>(cfg, s). conn_measure s)") (auto dest: conn_step_smaller)

declare connection_step_process.simps [simp del]

end
