(* ===== verification/Networking.thy ===== *)
theory Networking
  imports Connection
begin

text \<open>
  \<open>src/Networking.c\<close>: the slots of the server.  Slot 0 of \<open>poll_fd_set\<close> is the listener, every other
  slot is free (descriptor -1) or holds a client with its connection and its arena.  \<open>accept\<close> and \<open>fcntl\<close> are
  events of the environment; the listening socket and \<open>inet_ntop2\<close> are in \<open>Listener\<close>.
\<close>

subsection \<open>The slots\<close>

record pollfd =
  pf_fd :: int
  pf_events :: "16 word"
  pf_revents :: "16 word"

definition POLLIN :: "16 word" where "POLLIN = 1"
definition POLLOUT :: "16 word" where "POLLOUT = 4"
definition POLLHUP :: "16 word" where "POLLHUP = 16"

text \<open>
  \<open>cs_regions\<close> are the addresses of the rows of \<open>arena_backing\<close>; the bytes of the three buffers of a
  slot are kept with the buffers.
\<close>

record 'u client_set =
  cs_polls :: "pollfd list"
  cs_conns :: "'u connection list"
  cs_regions :: "size_t list"

text \<open>The server: its slots, the router, the open sockets by descriptor, and the world.\<close>

record 'u server =
  sv_clients :: "'u client_set"
  sv_router :: "'u router"
  sv_sockets :: "(int \<times> net) list"
  sv_world :: "'u world"

definition close_socket :: "int \<Rightarrow> 'u server \<Rightarrow> 'u server" where
  "close_socket fd sv = sv\<lparr>sv_sockets := AList.delete fd (sv_sockets sv)\<rparr>"

abbreviation on_clients :: "('u client_set \<Rightarrow> 'u client_set) \<Rightarrow> 'u server \<Rightarrow> 'u server" where
  "on_clients f sv \<equiv> sv\<lparr>sv_clients := f (sv_clients sv)\<rparr>"

subsection \<open>A new connection\<close>

text \<open>
  The blocks lie at the same offsets of the backing at every initialisation, so a buffer starts with
  the bytes its predecessor left, or with the zeros of static storage.
\<close>

definition block_bytes :: "http_buffer \<Rightarrow> nat \<Rightarrow> mem" where
  "block_bytes b n = (case hb_bytes b of None \<Rightarrow> replicate n NUL | Some m \<Rightarrow> m)"

definition buffer_alloc :: "arena \<Rightarrow> nat \<Rightarrow> http_buffer \<Rightarrow> (http_buffer \<times> arena) option" where
  "buffer_alloc a n b = do {
     (p, a) \<leftarrow> arena_alloc a (of_nat n) 1;
     require (p \<noteq> None);
     Some (\<lparr> hb_cap = n, hb_size = 0, hb_bytes = Some (block_bytes b n) \<rparr>, a)
   }"

definition connection_init :: "config \<Rightarrow> size_t \<Rightarrow> size_t \<Rightarrow> int \<Rightarrow> 'u connection \<Rightarrow> 'u connection option" where
  "connection_init cfg backing backing_cap new_fd c = do {
     a \<leftarrow> arena_init backing backing_cap;
     let c = c\<lparr>c_req := request_zero, c_st := St_Send 0, c_fd := new_fd\<rparr>;
     (req_buf, a) \<leftarrow> buffer_alloc a (max_request_len cfg) (c_req_buf c);
     (resp_buf, a) \<leftarrow> buffer_alloc a (response_buffer_size cfg) (c_resp_buf c);
     (dechunked, a) \<leftarrow> buffer_alloc a (max_dechunk_size cfg) (c_body_dechunked c);
     mark \<leftarrow> arena_mark a;
     Some (c\<lparr>c_req_buf := req_buf, c_resp_buf := resp_buf, c_body_dechunked := dechunked, c_arena := a,
       c_requests := 0, c_phase := CONN_READING_REQUEST, c_req_mark := mark\<rparr>)
   }"

definition client_set_delete :: "nat \<Rightarrow> 'u client_set \<Rightarrow> 'u client_set option" where
  "client_set_delete i cs = do {
     require (i > 0);
     require (i < length (cs_polls cs));
     Some (cs\<lparr>cs_polls := (cs_polls cs)[i := (cs_polls cs ! i)\<lparr>pf_fd := -1\<rparr>]\<rparr>)
   }"

definition connection_close :: "nat \<Rightarrow> 'u server \<Rightarrow> 'u server option" where
  "connection_close i sv = do {
     require (i < length (cs_polls (sv_clients sv)));
     let sv = close_socket (pf_fd (cs_polls (sv_clients sv) ! i)) sv;
     cs \<leftarrow> client_set_delete i (sv_clients sv);
     Some (sv\<lparr>sv_clients := cs\<rparr>)
   }"

text \<open>The first free slot takes the client; with none the descriptor is closed.\<close>

function add_to_client_set_loop :: "config \<Rightarrow> int \<Rightarrow> nat \<Rightarrow> 'u server \<Rightarrow> 'u server option" where
  "add_to_client_set_loop cfg new_fd i sv =
     (if i \<le> max_connections cfg then do {
        let cs = sv_clients sv;
        require (i < length (cs_polls cs) \<and> i < length (cs_conns cs) \<and> i - 1 < length (cs_regions cs));
        if pf_fd (cs_polls cs ! i) = -1 then do {
          c \<leftarrow> connection_init cfg (cs_regions cs ! (i - 1)) (of_nat (conn_arena_size cfg)) new_fd (cs_conns cs ! i);
          Some (sv\<lparr>sv_clients := cs\<lparr>
            cs_polls := (cs_polls cs)[i := \<lparr> pf_fd = new_fd, pf_events = POLLIN, pf_revents = 0 \<rparr>],
            cs_conns := (cs_conns cs)[i := c]\<rparr>\<rparr>)
        } else add_to_client_set_loop cfg new_fd (i + 1) sv
      } else Some (close_socket new_fd sv))"
  by pat_completeness auto
termination by (relation "measure (\<lambda>(cfg, fd, i, sv). Suc (max_connections cfg) - i)") auto

declare add_to_client_set_loop.simps [simp del]

definition add_to_client_set :: "config \<Rightarrow> int \<Rightarrow> 'u server \<Rightarrow> 'u server option" where
  "add_to_client_set cfg new_fd sv = add_to_client_set_loop cfg new_fd 1 sv"

text \<open>What \<open>accept\<close> answers, whether \<open>fcntl\<close> makes the descriptor non-blocking, and its socket.\<close>

datatype accept_event = Accept_Fails | Accepted int bool net

definition client_set_add_new :: "config \<Rightarrow> accept_event \<Rightarrow> 'u server \<Rightarrow> 'u server option" where
  "client_set_add_new cfg ev sv = (case ev of
     Accept_Fails \<Rightarrow> Some sv
   | Accepted new_fd nonblocking net \<Rightarrow>
       let sv = sv\<lparr>sv_sockets := AList.update new_fd net (sv_sockets sv)\<rparr> in
       if \<not> nonblocking then Some (close_socket new_fd sv)
       else add_to_client_set cfg new_fd sv)"

end
