(* ===== verification/Server.thy ===== *)
theory Server
  imports Networking
begin

text \<open>
  \<open>src/HttpServer.c\<close>: the check of the port, the events a connection waits for, and the loop of the
  server; the way to the loop is in \<open>Startup\<close>.  One turn of the endless loop is \<open>server_turn\<close>; what \<open>poll\<close>
  reports is its argument.
\<close>

unbundle bit_operations_syntax

subsection \<open>The port\<close>

text \<open>\<open>strtol (str, \<open>end\<close>, 10)\<close>: the value, whether it was out of range, and the rest of the string.\<close>

definition is_space :: "char \<Rightarrow> bool" where
  "is_space c \<longleftrightarrow> of_char c \<in> {9, 10, 11, 12, 13, 32 :: nat}"

definition is_digit_char :: "char \<Rightarrow> bool" where
  "is_digit_char c \<longleftrightarrow> 48 \<le> (of_char c :: nat) \<and> (of_char c :: nat) \<le> 57"

definition decimal :: "string \<Rightarrow> nat" where
  "decimal ds = foldl (\<lambda>n c. 10 * n + (of_char c - 48)) 0 ds"

definition strtol :: "string \<Rightarrow> int \<times> bool \<times> string" where
  "strtol str = (let s = dropWhile is_space str;
       neg = (s \<noteq> [] \<and> hd s = CHR ''-'');
       s = (if s \<noteq> [] \<and> (hd s = CHR ''-'' \<or> hd s = CHR ''+'') then tl s else s);
       ds = takeWhile is_digit_char s;
       v = (if neg then - int (decimal ds) else int (decimal ds)) in
     if ds = [] then (0, False, str)
     else if v < - (2 ^ 63) then (- (2 ^ 63), True, dropWhile is_digit_char s)
     else if v \<ge> 2 ^ 63 then (2 ^ 63 - 1, True, dropWhile is_digit_char s)
     else (v, False, dropWhile is_digit_char s))"

text \<open>0 for a valid port.\<close>

definition server_port_valid :: "string \<Rightarrow> int" where
  "server_port_valid str = (let (num, erange, rest) = strtol str in
     if erange \<or> rest \<noteq> [] \<or> rest = str then 1
     else if num \<le> 0 \<or> num > 65535 then 1 else 0)"

subsection \<open>The events of a phase\<close>

definition conn_phase_event :: "conn_phase \<Rightarrow> 16 word option" where
  "conn_phase_event phase = do {
     require (phase \<noteq> CONN_BUILDING);
     case phase of
       CONN_READING_REQUEST \<Rightarrow> Some POLLIN
     | CONN_READING_BODY_CL \<Rightarrow> Some POLLIN
     | CONN_READING_BODY_CHUNKED \<Rightarrow> Some POLLIN
     | CONN_SENDING_RESPONSE \<Rightarrow> Some POLLOUT
     | CONN_SENDING_RESPONSE_STREAM \<Rightarrow> Some POLLOUT
     | CONN_CLOSED \<Rightarrow> Some 0
     | _ \<Rightarrow> None
   }"

subsection \<open>The loop\<close>

text \<open>\<open>conns[i]\<close> is run on its socket; the world and the registry are shared by all of them.\<close>

definition slot_system :: "nat \<Rightarrow> net \<Rightarrow> 'u server \<Rightarrow> 'u system" where
  "slot_system i net sv = \<lparr> sy_conn = cs_conns (sv_clients sv) ! i, sy_router = sv_router sv, sy_net = net,
     sy_world = sv_world sv \<rparr>"

definition slot_store :: "nat \<Rightarrow> int \<Rightarrow> 'u system \<Rightarrow> 'u server \<Rightarrow> 'u server" where
  "slot_store i fd s sv = \<lparr> sv_clients = (sv_clients sv)\<lparr>cs_conns := (cs_conns (sv_clients sv))[i := sy_conn s]\<rparr>,
     sv_router = sy_router s, sv_sockets = AList.update fd (sy_net s) (sv_sockets sv), sv_world = sy_world s \<rparr>"

definition slot_process :: "config \<Rightarrow> nat \<Rightarrow> 'u server \<Rightarrow> 'u server option" where
  "slot_process cfg i sv = (let fd = c_fd (cs_conns (sv_clients sv) ! i) in do {
     net \<leftarrow> map_of (sv_sockets sv) fd;
     s \<leftarrow> connection_step_process cfg (slot_system i net sv);
     events \<leftarrow> conn_phase_event (c_phase (sy_conn s));
     let sv = on_clients (\<lambda>cs. cs\<lparr>cs_polls := (cs_polls cs)[i := (cs_polls cs ! i)\<lparr>pf_events := events\<rparr>]\<rparr>)
       (slot_store i fd s sv);
     if c_phase (sy_conn s) = CONN_CLOSED then connection_close i sv else Some sv
   })"

definition slot_turn :: "config \<Rightarrow> nat \<Rightarrow> 'u server \<Rightarrow> 'u server option" where
  "slot_turn cfg i sv = (let cs = sv_clients sv in do {
     require (i < length (cs_polls cs) \<and> i < length (cs_conns cs));
     if pf_fd (cs_polls cs ! i) < 0 then Some sv
     else if pf_revents (cs_polls cs ! i) AND (POLLIN OR POLLHUP OR POLLOUT) = 0 then Some sv
     else slot_process cfg i sv
   })"

fun slots_loop :: "config \<Rightarrow> nat list \<Rightarrow> 'u server \<Rightarrow> 'u server option" where
  "slots_loop cfg [] sv = Some sv"
| "slots_loop cfg (i # is) sv = do { sv \<leftarrow> slot_turn cfg i sv; slots_loop cfg is sv }"

text \<open>\<open>poll\<close> stores what it reports in \<open>revents\<close>.\<close>

definition store_revents :: "16 word list \<Rightarrow> 'u client_set \<Rightarrow> 'u client_set" where
  "store_revents rs cs = cs\<lparr>cs_polls := map2 (\<lambda>p r. p\<lparr>pf_revents := r\<rparr>) (cs_polls cs) rs\<rparr>"

definition server_admit :: "config \<Rightarrow> 16 word list \<Rightarrow> accept_event \<Rightarrow> 'u server \<Rightarrow> 'u server option" where
  "server_admit cfg rs ev sv = (let sv = on_clients (store_revents rs) sv in do {
     require (cs_polls (sv_clients sv) \<noteq> []);
     if pf_revents (hd (cs_polls (sv_clients sv))) AND POLLIN \<noteq> 0 then client_set_add_new cfg ev sv else Some sv
   })"

text \<open>
  One turn.  \<open>polled\<close> is what \<open>poll\<close> reports for each slot, \<open>None\<close> for its result \<open>-1\<close>, and then the process exits
  with status 1.
\<close>

datatype loop_exit = Poll_Failed

definition server_turn :: "config \<Rightarrow> 16 word list option \<Rightarrow> accept_event \<Rightarrow> 'u server \<Rightarrow> (loop_exit + 'u server) option" where
  "server_turn cfg polled ev sv = (case polled of
     None \<Rightarrow> Some (Inl Poll_Failed)
   | Some rs \<Rightarrow> do {
       sv \<leftarrow> server_admit cfg rs ev sv;
       sv \<leftarrow> slots_loop cfg [1..<max_connections cfg + 1] sv;
       Some (Inr sv)
     })"

fun server_turns :: "config \<Rightarrow> (16 word list option \<times> accept_event) list \<Rightarrow> 'u server \<Rightarrow> (loop_exit + 'u server) option" where
  "server_turns cfg [] sv = Some (Inr sv)"
| "server_turns cfg ((polled, ev) # evs) sv = do {
     r \<leftarrow> server_turn cfg polled ev sv;
     case r of Inl e \<Rightarrow> Some (Inl e) | Inr sv \<Rightarrow> server_turns cfg evs sv
   }"

end
