(* ===== verification/Serving.thy ===== *)
theory Serving
  imports Router Readers
begin

text \<open>
  The contracts between the connection and what it calls to get a response: the operating system
  (\<open>environment\<close>), the producer of a streamed body (\<open>byte_source\<close>), and whatever answers a request
  (\<open>responder\<close>: an entry of the registry, a handler of a route).  The file system, the file streams
  and the entries of the registry are shown to keep them; a handler is asked to (\<open>route_ok\<close>).
\<close>

subsection \<open>The operating system\<close>

text \<open>
  \<open>ok\<close> is what holds of the world at all times: the clock works and shows a year of four digits, as
  do the times of the files; a heap block has \<open>slack\<close> bytes to spare.  The calls preserve it.
\<close>

locale environment =
  fixes ok :: "'u world \<Rightarrow> bool" and slack :: nat
  assumes clock_works: "ok w \<Longrightarrow> \<exists>t. w_clock w = Some t \<and> sane_clock t"
    and stat_sane: "ok w \<Longrightarrow> stat_path w path = Some st \<Longrightarrow> sane_clock (st_mtime st) \<and> st_size st < 10 ^ 20"
    and slack_fixed: "ok w \<Longrightarrow> w_slack w = slack"
    and malloc_keeps: "ok w \<Longrightarrow> malloc_ok w = (b, w') \<Longrightarrow> ok w'"
    and open_keeps: "ok w \<Longrightarrow> open_file w path = (r, w') \<Longrightarrow> ok w'"
    and read_keeps: "ok w \<Longrightarrow> read_file w fd cap = (bs, w') \<Longrightarrow> ok w'"
    and close_keeps: "ok w \<Longrightarrow> ok (close_file w fd)"
begin

lemma clock_text: "ok w \<Longrightarrow> \<exists>t. time_now w = Some t \<and> sane_clock t"
  using clock_works by (simp add: time_now_def)

lemma file_pull_ok:
  "ok w \<Longrightarrow> file_pull ctx cap w = (r, w') \<Longrightarrow> ok w' \<and> (case r of Some bs \<Rightarrow> length bs \<le> cap | None \<Rightarrow> True)"
proof (induction ctx cap w rule: file_pull.induct)
  case (1 ctx cap w)
  obtain x w1 where x: "read_file w ctx cap = (x, w1)" by fastforce
  have ok1: "ok w1" using read_keeps [OF "1.prems"(1) x] .
  show ?case
  proof (cases x)
    case (Inl bs)
    with "1.prems"(2) x ok1 read_file_room show ?thesis by (subst (asm) file_pull.simps) auto
  next
    case (Inr e)
    show ?thesis
    proof (cases "e = EINTR")
      case True
      with "1.prems"(2) x Inr have "file_pull ctx cap w1 = (r, w')" by (subst (asm) file_pull.simps) simp
      with "1.IH" [OF x [symmetric] Inr True ok1] show ?thesis by simp
    next
      case False
      with "1.prems"(2) x Inr ok1 show ?thesis by (subst (asm) file_pull.simps) auto
    qed
  qed
qed

lemma file_read_total:
  assumes "ok w" "bytes < length dest"
  shows "\<exists>r dest'. file_read w path dest bytes = Some (r, dest') \<and> length dest' = length dest
    \<and> (case r of Some n \<Rightarrow> n \<le> bytes | None \<Rightarrow> True)"
  using assms(2) by (auto simp: file_read_def fault_simps split: option.splits)

lemma dynamic_load_total:
  assumes "ok w" "stat_path w0 path = Some st" "ok w0" "20 < slack"
  shows "\<exists>e w'. content_entry_dynamic_load w p st = Some (e, w') \<and> ok w'
    \<and> (case e of Some e \<Rightarrow> ce_mode e = SERVE_DYN_RESIDENT \<and> length (ce_headers e) = 5 \<and> ce_len e \<le> length (ce_data e)
         \<and> ce_reval e \<noteq> None | None \<Rightarrow> True)"
proof -
  note st = stat_sane [OF assms(3,2)]
  obtain b1 w1 where b1: "malloc_ok w = (b1, w1)" by fastforce
  obtain b2 w2 where b2: "malloc_ok w1 = (b2, w2)" by fastforce
  have ok1: "ok w1" and ok2: "ok w2" using malloc_keeps [OF assms(1) b1] malloc_keeps [OF _ b2] by auto
  let ?d = "replicate (st_size st + 1 + w_slack w2) NUL"
  have slack2: "w_slack w2 = slack" using slack_fixed [OF ok2] .
  obtain r d1 where d1: "file_read w2 p ?d (st_size st) = Some (r, d1)" "length d1 = length ?d"
    "case r of Some n \<Rightarrow> n \<le> st_size st | None \<Rightarrow> True"
    using file_read_total [OF ok2, of "st_size st" ?d p] by auto
  obtain rv where rv: "reval_fill st p = Some rv" using reval_fill_sane [of st p] st by blast
  show ?thesis
  proof (cases r)
    case None
    with ok1 ok2 b1 b2 d1(1) show ?thesis by (auto simp: content_entry_dynamic_load_def)
  next
    case (Some n)
    then have n: "n < 10 ^ 20" "n \<le> st_size st" using d1(3) st by simp_all
    have "length (show_nat n) \<le> 20" using length_show_nat [of n 20] n(1) by simp
    then have "n + 1 + length (show_nat n) + 1 \<le> length d1" using n(2) d1(2) slack2 assms(4) by simp
    then obtain d2 where d2: "len_header_write d1 n = Some (show_nat n, d2)" "n \<le> length d2"
      using len_header_write_spec [OF n(1), of d1] by simp
    show ?thesis
    proof (cases "b1 \<and> b2")
      case True
      with ok2 b1 b2 d1(1) Some rv d2 show ?thesis by (simp add: content_entry_dynamic_load_def)
    next
      case False
      with ok1 ok2 b1 b2 show ?thesis by (auto simp: content_entry_dynamic_load_def)
    qed
  qed
qed

end

definition world_ok :: "nat \<Rightarrow> 'u world \<Rightarrow> bool" where
  "world_ok slack w \<longleftrightarrow> (case w_clock w of Some t \<Rightarrow> sane_clock t | None \<Rightarrow> False) \<and> w_slack w = slack
     \<and> list_all (\<lambda>(p, f). sane_clock (f_mtime f) \<and> length (f_bytes f) < 10 ^ 20) (w_files w)"

interpretation posix: environment "world_ok slack" slack for slack
proof unfold_locales
  fix w w' :: "'u world" and path st b r fd cap bs
  assume ok: "world_ok slack w"
  then show "\<exists>t. w_clock w = Some t \<and> sane_clock t" "w_slack w = slack" "world_ok slack (close_file w fd)"
    by (auto simp: world_ok_def close_file_def split: option.splits)
  show "sane_clock (st_mtime st) \<and> st_size st < 10 ^ 20" if "stat_path w path = Some st"
    using that ok by (fastforce simp: world_ok_def stat_path_def list_all_iff dest: map_of_SomeD)
  show "world_ok slack w'" if "malloc_ok w = (b, w')"
    using that ok malloc_okE [OF that] by (simp add: world_ok_def malloc_ok_def split: list.splits)
  show "world_ok slack w'" if "open_file w path = (r, w')"
    using that ok by (auto simp: world_ok_def open_file_def Let_def split: option.splits if_splits)
  show "world_ok slack w'" if "read_file w fd cap = (bs, w')"
    using that ok by (auto simp: world_ok_def read_file_def split: option.splits if_splits list.splits)
qed

subsection \<open>Producers of bodies\<close>

text \<open>A producer stays in its room and leaves the world in order; so does its clean-up.\<close>

locale byte_source =
  fixes ok :: "'u world \<Rightarrow> bool" and pull :: "nat \<Rightarrow> 'u world \<Rightarrow> string option \<times> 'u world"
    and release :: "'u world \<Rightarrow> 'u world"
  assumes pull_keeps: "ok w \<Longrightarrow> pull cap w = (r, w') \<Longrightarrow> ok w'"
    and pull_room: "ok w \<Longrightarrow> pull cap w = (Some bs, w') \<Longrightarrow> length bs \<le> cap"
    and release_keeps: "ok w \<Longrightarrow> ok (release w)"

interpretation file_source: byte_source "world_ok slack" "file_pull fd" "file_close fd" for slack fd
  by unfold_locales (auto simp: file_close_def posix.close_keeps dest: posix.file_pull_ok)

definition stream_ok :: "('u world \<Rightarrow> bool) \<Rightarrow> 'u stream \<Rightarrow> bool" where
  "stream_ok ok s \<longleftrightarrow> (case st_pull s of None \<Rightarrow> False | Some pull \<Rightarrow>
     byte_source ok (pull (st_ctx s)) (case st_cleanup s of Some f \<Rightarrow> f (st_ctx s) | None \<Rightarrow> id))"

subsection \<open>What answers a request\<close>

text \<open>
  The scratch arena of a request only grows, inside its region.  A region is aligned to the four bytes
  of a \<open>FileCtx\<close>.
\<close>

definition scratch_ok :: "arena \<Rightarrow> bool" where
  "scratch_ok a \<longleftrightarrow> wf_arena a \<and> 4 dvd unat (ar_base a)"

definition arena_grows :: "arena \<Rightarrow> arena \<Rightarrow> bool" where
  "arena_grows a a' \<longleftrightarrow> ar_base a' = ar_base a \<and> ar_cap a' = ar_cap a \<and> ar_used a \<le> ar_used a' \<and> ar_used a' \<le> ar_cap a'"

lemma arena_grows_refl: "scratch_ok a \<Longrightarrow> arena_grows a a"
  by (simp add: arena_grows_def scratch_ok_def wf_arena_def)

lemma arena_grows_ok: "arena_grows a a' \<Longrightarrow> scratch_ok a \<Longrightarrow> scratch_ok a'"
  by (auto simp: arena_grows_def scratch_ok_def wf_arena_def)

definition response_ok :: "('u world \<Rightarrow> bool) \<Rightarrow> 'u response \<Rightarrow> bool" where
  "response_ok ok res \<longleftrightarrow> wf_response res \<and> (case rs_body res of BODY_STREAM s \<Rightarrow> stream_ok ok s | _ \<Rightarrow> True)"

locale responder =
  fixes ok :: "'u world \<Rightarrow> bool" and good :: "'e \<Rightarrow> bool"
    and respond :: "'e \<Rightarrow> 'q \<Rightarrow> arena \<Rightarrow> 'u world \<Rightarrow> ('u response \<times> arena \<times> 'u world) option"
  assumes responds: "good e \<Longrightarrow> ok w \<Longrightarrow> scratch_ok a \<Longrightarrow> \<exists>res a' w'. respond e req a w = Some (res, a', w')
     \<and> response_ok ok res \<and> arena_grows a a' \<and> ok w'"
begin

text \<open>Rewinding the arena after the response frees all that was allocated for it.\<close>

lemma scratch_reclaimed:
  assumes "good e" "ok w" "scratch_ok a" "mark \<le> ar_used a" "respond e req a w = Some (res, a', w')"
  shows "arena_reset_to a' mark = Some (a\<lparr>ar_used := mark\<rparr>)"
proof -
  have "arena_grows a a'" using responds [OF assms(1-3), of req] assms(5) by auto
  then have g: "ar_base a' = ar_base a" "ar_cap a' = ar_cap a" "mark \<le> ar_used a'" "mark \<le> ar_cap a'"
    using assms(4) by (auto simp: arena_grows_def)
  then show ?thesis by (simp add: arena_reset_to_def Let_def fault_simps)
qed

end

definition entry_ok :: "nat \<Rightarrow> content_entry \<Rightarrow> bool" where
  "entry_ok slack e \<longleftrightarrow> (case ce_mode e of
     SERVE_STATIC_RESIDENT \<Rightarrow> 3 \<le> length (ce_headers e) \<and> ce_len e \<le> length (ce_data e)
   | SERVE_DYN_RESIDENT \<Rightarrow> 5 \<le> length (ce_headers e) \<and> ce_len e \<le> length (ce_data e) \<and> ce_reval e \<noteq> None \<and> 20 < slack
   | _ \<Rightarrow> 4 \<le> length (ce_headers e) \<and> ce_reval e \<noteq> None)"

lemma response_error_wf: "wf_response (response_error_from_status st :: 'u response)"
  using error_from_status_canned [of st, where ?'a = 'u] by (auto intro: wf_response_literal)

lemma response_error_plain: "rs_body (response_error_from_status st) \<noteq> BODY_STREAM s"
  by (cases st) (simp_all add: response_error_from_status_def response_literal_def response_buffer_def)

lemma response_error_ok: "response_ok ok (response_error_from_status st)"
  using response_error_wf [of st] response_error_plain [of st] by (auto simp: response_ok_def split: body.splits)

lemma file_stream_open_total:
  assumes "world_ok slack w" "scratch_ok a"
  shows "\<exists>s a' w'. file_stream_open w path a = Some (s, a', w') \<and> world_ok slack w' \<and> arena_grows a a'
    \<and> (st_pull s = None \<or> stream_ok (world_ok slack) s)"
proof -
  obtain r w1 where r: "open_file w path = (r, w1)" by fastforce
  have ok1: "world_ok slack w1" using posix.open_keeps [OF assms(1) r] .
  show ?thesis
  proof (cases r)
    case None
    with r ok1 show ?thesis
      using assms(2) by (auto simp: file_stream_open_def stream_zero_def intro: arena_grows_refl)
  next
    case (Some fd)
    have a: "wf_arena a" "(2::nat) \<le> 62" "2 ^ 2 dvd unat (ar_base a)" using assms(2) by (simp_all add: scratch_ok_def)
    note alloc = arena_alloc_eq [OF a, of 4]
    show ?thesis
    proof (cases "alloc_offset a 2 + unat (4 :: size_t) \<le> unat (ar_cap a)")
      case True
      then obtain p a' where p: "arena_alloc a 4 (2 ^ 2) = Some (Some p, a')" using alloc by simp
      note d = arena_alloc_SomeD [OF a p]
      have "unat (ar_used a) \<le> unat (ar_used a')" using d(2) le_round_up [of "unat (ar_used a)" 2] by simp
      then have "arena_grows a a'" using d by (simp add: arena_grows_def word_le_nat_alt)
      with p r Some ok1 file_source.byte_source_axioms [of slack fd] show ?thesis
        by (simp add: file_stream_open_def arena_new_def stream_ok_def)
    next
      case False
      with alloc r Some ok1 assms(2) show ?thesis
        by (simp add: file_stream_open_def arena_new_def stream_zero_def posix.close_keeps arena_grows_refl)
    qed
  qed
qed

interpretation entries: responder "world_ok slack" "entry_ok slack" "\<lambda>e req. response_for_entry req e" for slack
proof unfold_locales
  fix e and w :: "'u world" and a req
  assume e: "entry_ok slack e" and w: "world_ok slack w" and a: "scratch_ok a"
  show "\<exists>res a' w'. response_for_entry req e a w = Some (res, a', w') \<and> response_ok (world_ok slack) res
    \<and> arena_grows a a' \<and> world_ok slack w'"
  proof (cases "ce_mode e = SERVE_STATIC_RESIDENT \<or> ce_mode e = SERVE_DYN_RESIDENT")
    case True
    with e w arena_grows_refl [OF a] show ?thesis
      by (auto simp: entry_ok_def response_for_entry_def response_resident_def response_ok_def wf_response_def Let_def)
  next
    case False
    then have e': "4 \<le> length (ce_headers e)" "\<exists>r. ce_reval e = Some r"
      using e by (auto simp: entry_ok_def split: serve_mode.splits)
    then obtain rv where rv: "ce_reval e = Some rv" by blast
    obtain s a' w' where s: "file_stream_open w (rv_fs_path rv) a = Some (s, a', w')" "world_ok slack w'" "arena_grows a a'"
      "st_pull s = None \<or> stream_ok (world_ok slack) s"
      using file_stream_open_total [OF w a] by blast
    show ?thesis
    proof (cases "st_pull s = None")
      case True
      with False rv s show ?thesis by (simp add: response_for_entry_def response_streamed_def response_error_ok)
    next
      case pull: False
      with False rv s e' show ?thesis
        by (auto simp: response_for_entry_def response_streamed_def response_ok_def response_stream_def wf_response_def)
    qed
  qed
qed

definition route_ok :: "('u world \<Rightarrow> bool) \<Rightarrow> 'u route \<Rightarrow> bool" where
  "route_ok ok r \<longleftrightarrow> (case call_handler r of None \<Rightarrow> False | Some f \<Rightarrow>
     \<forall>req bs a w. ok w \<and> scratch_ok a \<longrightarrow> (case f req bs a w of None \<Rightarrow> False
       | Some (res, a', w') \<Rightarrow> response_ok ok res \<and> arena_grows a a' \<and> ok w'))"

interpretation routes: responder ok "route_ok ok" "\<lambda>r q a w. Option.bind (call_handler r) (\<lambda>f. f (fst q) (snd q) a w)" for ok
proof unfold_locales
  fix r :: "'a route" and w a and q :: "request \<times> string"
  assume good: "route_ok ok r" "ok w" "scratch_ok a"
  then obtain f where f: "call_handler r = Some f" by (auto simp: route_ok_def split: option.splits)
  with good have "case f (fst q) (snd q) a w of None \<Rightarrow> False | Some (res, a', w') \<Rightarrow> response_ok ok res \<and> arena_grows a a' \<and> ok w'"
    by (simp add: route_ok_def)
  with f show "\<exists>res a' w'. Option.bind (call_handler r) (\<lambda>f. f (fst q) (snd q) a w) = Some (res, a', w') \<and> response_ok ok res
    \<and> arena_grows a a' \<and> ok w'"
    by (auto split: option.splits)
qed

subsection \<open>The registry and the routes of a server\<close>

definition registry_ok :: "config \<Rightarrow> nat \<Rightarrow> registry option \<Rightarrow> bool" where
  "registry_ok cfg slack reg \<longleftrightarrow> (case reg of None \<Rightarrow> True | Some d \<Rightarrow>
     dict_inv cfg d \<and> (\<forall>url. case dict_get cfg d url of None \<Rightarrow> True | Some e \<Rightarrow> entry_ok slack e))"

definition router_ok :: "config \<Rightarrow> nat \<Rightarrow> 'u router \<Rightarrow> bool" where
  "router_ok cfg slack r \<longleftrightarrow> registry_ok cfg slack (ro_registry r) \<and> list_all (route_ok (world_ok slack)) (ro_routes r)"

lemma registry_put: "registry_ok cfg slack (Some d) \<Longrightarrow> entry_ok slack e \<Longrightarrow> registry_ok cfg slack (Some (dict_put cfg d url e))"
  by (auto simp: registry_ok_def dict_put_inv split: option.splits)

lemma validators_total: "ce_reval e \<noteq> None \<Longrightarrow> \<exists>b. request_validators_match req e = Some b"
  by (auto simp: request_validators_match_def)

definition lookup_ok :: "nat \<Rightarrow> content_lookup_result \<Rightarrow> bool" where
  "lookup_ok slack d \<longleftrightarrow> (case cl_status d of
     CONTENT_HIT \<Rightarrow> (case cl_entry d of None \<Rightarrow> False | Some e \<Rightarrow> entry_ok slack e)
   | CONTENT_NOT_MODIFIED \<Rightarrow> (case cl_entry d of None \<Rightarrow> False | Some e \<Rightarrow> 5 \<le> length (ce_headers e))
   | _ \<Rightarrow> True)"

lemma cl_dynamic_total:
  assumes "entry_ok slack e" "ce_mode e = SERVE_DYN_RESIDENT"
  shows "\<exists>d. cl_dynamic req e = Some d \<and> lookup_ok slack d"
proof -
  have e: "ce_reval e \<noteq> None" "5 \<le> length (ce_headers e)" using assms by (simp_all add: entry_ok_def)
  obtain b where "request_validators_match req e = Some b" using validators_total [OF e(1)] by blast
  with assms(1) e(2) show ?thesis by (simp add: cl_dynamic_def lookup_ok_def)
qed

text \<open>An entry that is loaded anew on each change of its file.\<close>

lemma content_registry_lookup_dynamic:
  assumes reg: "registry_ok cfg slack (Some d)" and inv: "dict_inv cfg d" and w: "world_ok slack w"
    and find: "dict_find cfg (Some d) url = Some (Some e)" and e: "entry_ok slack e" "ce_mode e = SERVE_DYN_RESIDENT"
  shows "\<exists>r reg' w'. content_registry_lookup cfg (Some d) req url w = Some (r, reg', w') \<and> lookup_ok slack r
    \<and> registry_ok cfg slack reg' \<and> world_ok slack w'"
proof -
  obtain rv where rv: "ce_reval e = Some rv" and slack: "20 < slack" using e by (auto simp: entry_ok_def)
  obtain r where r: "cl_dynamic req e = Some r" "lookup_ok slack r" using cl_dynamic_total [OF e] by blast
  show ?thesis
  proof (cases "stat_path w (rv_fs_path rv)")
    case None
    with find e(2) rv reg w show ?thesis by (simp add: content_registry_lookup_def lookup_ok_def cl_zero_def)
  next
    case st: (Some st)
    obtain fresh w' where l: "content_entry_dynamic_load w (rv_fs_path rv) st = Some (fresh, w')" "world_ok slack w'"
      "case fresh of Some e \<Rightarrow> ce_mode e = SERVE_DYN_RESIDENT \<and> length (ce_headers e) = 5 \<and> ce_len e \<le> length (ce_data e)
         \<and> ce_reval e \<noteq> None | None \<Rightarrow> True"
      using posix.dynamic_load_total [OF w st w slack] by blast
    consider (same) "\<not> (st_mtime st \<noteq> rv_mtime rv \<or> st_size st \<noteq> rv_size rv)"
      | (gone) "st_mtime st \<noteq> rv_mtime rv \<or> st_size st \<noteq> rv_size rv" "fresh = None"
      | (loaded) e' where "st_mtime st \<noteq> rv_mtime rv \<or> st_size st \<noteq> rv_size rv" "fresh = Some e'" by fastforce
    then show ?thesis
    proof cases
      case same
      with find e(2) rv st r reg w show ?thesis by (simp add: content_registry_lookup_def)
    next
      case gone
      with find e(2) rv st l(1,2) reg show ?thesis by (simp add: content_registry_lookup_def lookup_ok_def cl_zero_def)
    next
      case loaded
      then have e': "entry_ok slack e'" "ce_mode e' = SERVE_DYN_RESIDENT" using l(3) slack by (simp_all add: entry_ok_def)
      obtain r' where r': "cl_dynamic req e' = Some r'" "lookup_ok slack r'" using cl_dynamic_total [OF e'] by blast
      have "registry_ok cfg slack (Some (dict_put cfg d url e'))" using registry_put e'(1) reg by blast
      moreover have "dict_get cfg d url = Some e" using find by (simp add: dict_find_get [OF inv])
      ultimately show ?thesis using find e(2) rv st loaded l(1,2) r'
        by (simp add: content_registry_lookup_def dict_insert_found [OF inv])
    qed
  qed
qed

lemma content_registry_lookup_total:
  assumes reg: "registry_ok cfg slack reg" and w: "world_ok slack w"
  shows "\<exists>d reg' w'. content_registry_lookup cfg reg req url w = Some (d, reg', w') \<and> lookup_ok slack d
    \<and> registry_ok cfg slack reg' \<and> world_ok slack w'"
proof (cases reg)
  case None
  then have "dict_find cfg reg url = Some None" by (simp add: dict_find_def)
  with reg w show ?thesis by (simp add: content_registry_lookup_def lookup_ok_def cl_zero_def)
next
  case (Some d)
  with reg have d: "dict_inv cfg d" "case dict_get cfg d url of None \<Rightarrow> True | Some e \<Rightarrow> entry_ok slack e"
    by (simp_all add: registry_ok_def)
  note find = dict_find_get [OF d(1), of url]
  show ?thesis
  proof (cases "dict_get cfg d url")
    case None
    with find Some reg w show ?thesis by (simp add: content_registry_lookup_def lookup_ok_def cl_zero_def)
  next
    case e: (Some e)
    show ?thesis
    proof (cases "ce_mode e = SERVE_DYN_RESIDENT")
      case True
      with content_registry_lookup_dynamic [OF reg [unfolded Some] d(1) w, of url e req] find e d(2) show ?thesis
        unfolding Some by simp
    next
      case False
      with find Some e d(2) reg w show ?thesis by (simp add: content_registry_lookup_def lookup_ok_def)
    qed
  qed
qed

end
