(* ===== verification/Connection_Safety.thy ===== *)
theory Connection_Safety
  imports Connection Serving
begin

text \<open>
  Every step of a connection keeps its invariant and never faults: no assertion fails, no buffer is
  left, no member of the union is read that was not written, no null pointer is called.  What the
  connection relies on is the contract of its environment, \<open>Serving\<close>.
\<close>

subsection \<open>The invariant\<close>

definition conn_mem_ok :: "config \<Rightarrow> int \<Rightarrow> 'u connection \<Rightarrow> bool" where
  "conn_mem_ok cfg fd c \<longleftrightarrow> fd = c_fd c \<and> 0 < c_fd c
     \<and> wf_buffer (c_req_buf c) \<and> hb_cap (c_req_buf c) = max_request_len cfg
     \<and> wf_buffer (c_resp_buf c) \<and> hb_cap (c_resp_buf c) = response_buffer_size cfg
     \<and> wf_buffer (c_body_dechunked c) \<and> hb_cap (c_body_dechunked c) = max_dechunk_size cfg
     \<and> scratch_ok (c_arena c) \<and> c_req_mark c \<le> ar_used (c_arena c)"

definition system_ok :: "config \<Rightarrow> nat \<Rightarrow> int \<Rightarrow> 'u system \<Rightarrow> bool" where
  "system_ok cfg slack fd s \<longleftrightarrow> conn_mem_ok cfg fd (sy_conn s) \<and> router_ok cfg slack (sy_router s) \<and> world_ok slack (sy_world s)"

text \<open>The body a handler is shown lies in the storage it points into, behind nothing but received bytes.\<close>

definition body_readable :: "'u connection \<Rightarrow> bool" where
  "body_readable c \<longleftrightarrow> (case rq_body (c_req c) of
     Body_NULL \<Rightarrow> rq_body_len (c_req c) = 0
   | In_Request_Buffer off \<Rightarrow> off + rq_body_len (c_req c) \<le> hb_size (c_req_buf c)
   | In_Dechunked \<Rightarrow> rq_body_len (c_req c) \<le> hb_size (c_body_dechunked c))"

lemma body_readable_arena [simp]: "body_readable (c\<lparr>c_arena := a\<rparr>) = body_readable c" "body_readable (c\<lparr>c_phase := p\<rparr>) = body_readable c"
  by (cases "rq_body (c_req c)"; simp add: body_readable_def)+

text \<open>What a phase expects of the rest of the connection.\<close>

definition phase_ok :: "config \<Rightarrow> nat \<Rightarrow> conn_phase \<Rightarrow> 'u connection \<Rightarrow> bool" where
  "phase_ok cfg slack p c \<longleftrightarrow> (case p of
     CONN_READING_REQUEST \<Rightarrow> c_req c = request_zero
   | CONN_SENDING_100 \<Rightarrow> c_body_start c \<le> hb_size (c_req_buf c)
       \<and> (case c_st c of St_Send sent \<Rightarrow> sent < length continue_100 | _ \<Rightarrow> False)
   | CONN_READING_BODY_CL \<Rightarrow>
       (case c_st c of St_Cl received \<Rightarrow> c_body_start c + received = hb_size (c_req_buf c) | _ \<Rightarrow> False)
   | CONN_READING_BODY_CHUNKED \<Rightarrow> (case c_st c of
       St_Chunked st \<Rightarrow> chunked_inv cfg (c_req_buf c) (c_body_start c) (c_body_dechunked c) st | _ \<Rightarrow> False)
   | CONN_BUILDING \<Rightarrow> c_next_req_offset c \<le> hb_size (c_req_buf c) \<and> body_readable c
   | CONN_SENDING_RESPONSE \<Rightarrow> (case c_st c of St_Send sent \<Rightarrow> sent < hb_size (c_resp_buf c) | _ \<Rightarrow> False)
   | CONN_SENDING_RESPONSE_STREAM \<Rightarrow> (case c_st c of
       St_Stream sp sent \<Rightarrow> stream_ok (world_ok slack) (c_producer c)
         \<and> (if sp = STREAM_PULL \<or> sp = STREAM_DONE then True else sent < hb_size (c_resp_buf c))
     | _ \<Rightarrow> False)
   | CONN_CLOSED \<Rightarrow> True)"

definition conn_inv :: "config \<Rightarrow> nat \<Rightarrow> int \<Rightarrow> 'u system \<Rightarrow> bool" where
  "conn_inv cfg slack fd s \<longleftrightarrow> system_ok cfg slack fd s \<and> phase_ok cfg slack (c_phase (sy_conn s)) (sy_conn s)"

text \<open>The outcome of a step: no fault, and the next phase finds what it expects.\<close>

definition step_ok :: "config \<Rightarrow> nat \<Rightarrow> int \<Rightarrow> 'u step \<Rightarrow> bool" where
  "step_ok cfg slack fd r \<longleftrightarrow> (case r of None \<Rightarrow> False
     | Some (p, s) \<Rightarrow> system_ok cfg slack fd s \<and> phase_ok cfg slack p (sy_conn s))"

lemma step_ok_Some [simp]: "step_ok cfg slack fd (Some (p, s)) \<longleftrightarrow> system_ok cfg slack fd s \<and> phase_ok cfg slack p (sy_conn s)"
  by (simp add: step_ok_def)

lemma step_okE:
  assumes "step_ok cfg slack fd r"
  obtains p s where "r = Some (p, s)" "system_ok cfg slack fd s" "phase_ok cfg slack p (sy_conn s)"
  using assms by (cases r) (auto simp: step_ok_def)

lemma phase_ok_phase [simp]: "phase_ok cfg slack p (c\<lparr>c_phase := q\<rparr>) = phase_ok cfg slack p c"
  by (cases p; cases "c_st c") (simp_all add: phase_ok_def)

lemma system_okE:
  assumes "system_ok cfg slack fd s"
  obtains "0 < c_fd (sy_conn s)" "fd = c_fd (sy_conn s)" "wf_buffer (c_req_buf (sy_conn s))" "hb_cap (c_req_buf (sy_conn s)) = max_request_len cfg"
    "wf_buffer (c_resp_buf (sy_conn s))" "hb_cap (c_resp_buf (sy_conn s)) = response_buffer_size cfg"
    "wf_buffer (c_body_dechunked (sy_conn s))" "hb_cap (c_body_dechunked (sy_conn s)) = max_dechunk_size cfg"
    "scratch_ok (c_arena (sy_conn s))" "c_req_mark (sy_conn s) \<le> ar_used (c_arena (sy_conn s))"
    "router_ok cfg slack (sy_router s)" "world_ok slack (sy_world s)"
  using assms by (simp add: system_ok_def conn_mem_ok_def)

lemma system_clock:
  assumes "system_ok cfg slack fd s"
  obtains t where "time_now (sy_world s) = Some t" "sane_clock t"
  using assms posix.clock_text by (auto simp: system_ok_def)

subsection \<open>Errors and bodies\<close>

lemma phase_send_begin_ok:
  "system_ok cfg slack fd s \<Longrightarrow> 0 < hb_size (c_resp_buf (sy_conn s)) \<Longrightarrow> step_ok cfg slack fd (Some (phase_send_begin s))"
  by (simp add: phase_send_begin_def system_ok_def conn_mem_ok_def phase_ok_def)

lemma send_error_ok:
  assumes "wf_config cfg" "system_ok cfg slack fd s"
  shows "step_ok cfg slack fd (send_error st s)"
proof -
  obtain t where t: "time_now (sy_world s) = Some t" "sane_clock t" using system_clock [OF assms(2)] .
  have buf: "wf_buffer (c_resp_buf (sy_conn s))" "256 \<le> hb_cap (c_resp_buf (sy_conn s))"
    "hb_cap (c_resp_buf (sy_conn s)) = response_buffer_size cfg"
    using assms by (auto elim!: system_okE)
  obtain b where b: "response_error_serialize (Some t) (c_resp_buf (sy_conn s)) st = Some b" "wf_buffer b"
    "hb_cap b = hb_cap (c_resp_buf (sy_conn s))" "0 < hb_size b"
    using response_error_serialize_ok [OF buf(1,2) t(2)] by metis
  have "system_ok cfg slack fd (on_conn (\<lambda>c. c\<lparr>c_resp_buf := b\<rparr>) s)"
    using assms(2) b buf by (simp add: system_ok_def conn_mem_ok_def)
  from phase_send_begin_ok [OF this] b t(1) show ?thesis by (simp add: send_error_def)
qed

lemma chunked_inv_start:
  assumes "wf_buffer req_buf" "wf_buffer dechunked" "body_start \<le> hb_size req_buf"
  shows "chunked_inv cfg req_buf body_start (dechunked\<lparr>hb_size := 0\<rparr>) chunked_st_zero"
  using assms
  by (auto simp: chunked_inv_def chunked_st_zero_def wf_decoder_zero chunked_state_def wf_buffer_def live_def
      chunked.caught_up_start)

lemma phase_body_dispatch_ok:
  assumes "system_ok cfg slack fd s" "c_body_start (sy_conn s) \<le> hb_size (c_req_buf (sy_conn s))"
  shows "step_ok cfg slack fd (phase_body_dispatch s)"
proof -
  have "chunked_inv cfg (c_req_buf (sy_conn s)) (c_body_start (sy_conn s)) ((c_body_dechunked (sy_conn s))\<lparr>hb_size := 0\<rparr>) chunked_st_zero"
    using assms by (auto intro: chunked_inv_start elim!: system_okE)
  with assms show ?thesis
    by (auto simp: phase_body_dispatch_def Let_def system_ok_def conn_mem_ok_def phase_ok_def body_readable_def fault_simps wf_buffer_def)
qed

lemma step_send_100_ok:
  assumes "system_ok cfg slack fd s" "phase_ok cfg slack CONN_SENDING_100 (sy_conn s)"
  shows "step_ok cfg slack fd (step_send_100 s)"
proof -
  obtain sent where sent: "c_st (sy_conn s) = St_Send sent" "sent < length continue_100"
    and bs: "c_body_start (sy_conn s) \<le> hb_size (c_req_buf (sy_conn s))"
    using assms(2) by (auto simp: phase_ok_def split: conn_st.splits)
  have wf: "wf_buffer (continue_100_buf\<lparr>hb_cap := length continue_100 + 1\<rparr>)"
    by (simp add: wf_buffer_def continue_100_buf_def)
  have eq: "response_send fd continue_100_buf sent net
      = response_send fd (continue_100_buf\<lparr>hb_cap := length continue_100 + 1\<rparr>) sent net" for fd net
    by (simp add: response_send_def cong: prod.case_cong sum.case_cong)
  have size: "hb_size (continue_100_buf\<lparr>hb_cap := length continue_100 + 1\<rparr>) = length continue_100"
    by (simp add: continue_100_buf_def)
  have fd: "0 \<le> c_fd (sy_conn s)" using assms(1) by (auto elim!: system_okE)
  obtain st sent' net' where r: "response_send (c_fd (sy_conn s)) continue_100_buf sent (sy_net s) = Some (st, sent', net')"
    "sent' \<le> length continue_100" "st = SEND_OK \<longleftrightarrow> sent' = length continue_100"
    using response_send_spec [OF wf _ fd, of sent "sy_net s"] sent(2) unfolding eq size by metis
  let ?s = "(on_conn (\<lambda>c. c\<lparr>c_st := St_Send sent'\<rparr>) s)\<lparr>sy_net := net'\<rparr>"
  have ok: "system_ok cfg slack fd ?s" using assms(1) by (simp add: system_ok_def conn_mem_ok_def)
  show ?thesis
  proof (cases st)
    case SEND_OK
    with phase_body_dispatch_ok [OF ok] bs r(1) sent(1) show ?thesis by (simp add: step_send_100_def st_sent_def)
  next
    case SEND_HAS_MORE
    with ok bs r sent(1) show ?thesis by (simp add: step_send_100_def st_sent_def phase_ok_def)
  qed (use ok r(1) sent(1) in \<open>simp_all add: step_send_100_def st_sent_def phase_ok_def\<close>)
qed

subsection \<open>The head\<close>

lemma transfer_coding_loop_total: "\<exists>c te. transfer_coding_loop hs coding st = Some (c, te)"
proof (induction hs coding st rule: transfer_coding_loop.induct)
  case (2 h hs coding te)
  obtain st c where "transfer_encoding_parse (h_value h) = Some (st, c)"
    by (cases "te_reference (h_value h)") (simp add: transfer_encoding_parse_eq)
  with 2 show ?case by simp
qed simp

lemma uint_reference_fails: "uint_reference b mx n s \<noteq> Inl PARSE_OK"
  by (induction b mx n s rule: uint_reference.induct) (auto simp: Let_def)

lemma content_length_total:
  assumes "wf_config cfg"
  shows "\<exists>st v. uint_parse s 0 (length s) 10 (body_limit cfg) = Some (st, v) \<and> (st = PARSE_OK \<longrightarrow> v \<noteq> None)"
proof -
  have "15 \<le> unat (body_limit cfg)" "unat (body_limit cfg) < 2 ^ 59"
    using assms by (auto simp: wf_config_def)
  from uint_parse_reference_plain [of 10, OF _ _ this, of 0 "length s" s]
  show ?thesis
    by (cases "uint_parse s 0 (length s) 10 (body_limit cfg)") (auto simp: uint_reference_fails split: if_splits sum.splits)
qed

lemma head_body_dispatch_ok:
  assumes "wf_config cfg" "system_ok cfg slack fd s" "c_body_start (sy_conn s) \<le> hb_size (c_req_buf (sy_conn s))"
  shows "step_ok cfg slack fd (head_body_dispatch http10 ct s)"
proof -
  have "step_ok cfg slack fd (Some (phase_send_100_begin s))"
    using assms(2,3)
    by (simp add: phase_send_100_begin_def system_ok_def conn_mem_ok_def phase_ok_def continue_100_def)
  with send_error_ok [OF assms(1,2)] phase_body_dispatch_ok [OF assms(2,3)] show ?thesis
    by (simp add: head_body_dispatch_def Let_def)
qed

lemma head_framing_ok:
  assumes "wf_config cfg" "system_ok cfg slack fd s" "c_body_start (sy_conn s) \<le> hb_size (c_req_buf (sy_conn s))"
  shows "step_ok cfg slack fd (head_framing cfg http10 s)"
proof -
  obtain c te where c: "transfer_coding_loop (rq_headers (c_req (sy_conn s))) TE_NONE PARSE_OK = Some (c, te)"
    using transfer_coding_loop_total by blast
  let ?s = "on_conn (\<lambda>con. con\<lparr>c_body_coding := c\<rparr>) s"
  have ok: "system_ok cfg slack fd ?s" using assms(2) by (simp add: system_ok_def conn_mem_ok_def)
  note err = send_error_ok [OF assms(1) ok]
  show ?thesis
  proof (cases "header_find (rq_headers (c_req (sy_conn ?s))) ''content-length''")
    case None
    have "step_ok cfg slack fd (head_body_dispatch http10 None ?s)"
      by (rule head_body_dispatch_ok [OF assms(1) ok]) (use assms(3) in simp)
    with None c err show ?thesis by (auto simp: head_framing_def Let_def)
  next
    case (Some h)
    obtain ps v where v: "uint_parse (h_value h) 0 (length (h_value h)) 10 (body_limit cfg) = Some (ps, v)"
      "ps = PARSE_OK \<longrightarrow> v \<noteq> None" using content_length_total [OF assms(1)] by blast
    have ok': "system_ok cfg slack fd (on_conn (\<lambda>c. c\<lparr>c_body_len := n\<rparr>) ?s)" for n
      using assms(2) by (simp add: system_ok_def conn_mem_ok_def)
    have "step_ok cfg slack fd (head_body_dispatch http10 (Some h) (on_conn (\<lambda>c. c\<lparr>c_body_len := n\<rparr>) ?s))" for n
      by (rule head_body_dispatch_ok [OF assms(1) ok']) (use assms(3) in simp)
    with Some c v err show ?thesis by (auto simp: head_framing_def Let_def)
  qed
qed

lemma head_received_ok:
  assumes "wf_config cfg" "system_ok cfg slack fd s" "rq_headers (c_req (sy_conn s)) = []"
    "memmem (live (c_req_buf (sy_conn s))) (crlf @ crlf) = Some t"
    "rh_body_start r = t + 4" "rh_total_received r = hb_size (c_req_buf (sy_conn s))"
  shows "step_ok cfg slack fd (head_received cfg r s)"
proof -
  have buf: "wf_buffer (c_req_buf (sy_conn s))" "hb_cap (c_req_buf (sy_conn s)) = max_request_len cfg"
    using assms(2) by (auto elim!: system_okE)
  obtain m where m: "hb_bytes (c_req_buf (sy_conn s)) = Some m" "length m = hb_cap (c_req_buf (sy_conn s))"
    "hb_size (c_req_buf (sy_conn s)) \<le> hb_cap (c_req_buf (sy_conn s))" "live (c_req_buf (sy_conn s)) = take (hb_size (c_req_buf (sy_conn s))) m"
    using buf(1) by (rule wf_bufferE)
  have len: "hb_size (c_req_buf (sy_conn s)) \<le> length m" "6 \<le> length m" using m buf assms(1) by (auto simp: wf_config_def)
  obtain res req where parse: "request_parse cfg m (hb_size (c_req_buf (sy_conn s))) (c_req (sy_conn s)) = Some (res, req)"
    using request_parse_decides [OF assms(1) len assms(4) [unfolded m(4)] assms(3)] by blast
  have t: "t + 4 \<le> hb_size (c_req_buf (sy_conn s))" using memmem_Some [OF assms(4)] length_live [OF buf(1)] by simp
  let ?s = "on_conn (\<lambda>c. c\<lparr>c_req := req\<rparr>) s"
  let ?b = "on_conn (\<lambda>c. c\<lparr>c_body_start := t + 4\<rparr>) ?s"
  have ok: "system_ok cfg slack fd ?s" "system_ok cfg slack fd ?b" "system_ok cfg slack fd (on_conn (\<lambda>c. c\<lparr>c_keep_alive := True\<rparr>) ?b)"
    using assms(2) by (simp_all add: system_ok_def conn_mem_ok_def)
  have "step_ok cfg slack fd (head_framing cfg h ?b)"
    "step_ok cfg slack fd (head_framing cfg h (on_conn (\<lambda>c. c\<lparr>c_keep_alive := True\<rparr>) ?b))" for h
    by (rule head_framing_ok [OF assms(1) ok(2)], use t in simp, rule head_framing_ok [OF assms(1) ok(3)], use t in simp)
  with send_error_ok [OF assms(1) ok(1)] send_error_ok [OF assms(1) ok(2)] m(1) parse assms(5,6) t
  show ?thesis by (simp add: head_received_def Let_def split: option.splits)
qed

lemma step_header_read_ok:
  assumes "wf_config cfg" "system_ok cfg slack fd s" "c_phase (sy_conn s) = CONN_READING_REQUEST"
    "phase_ok cfg slack CONN_READING_REQUEST (sy_conn s)"
  shows "step_ok cfg slack fd (step_header_read cfg s)"
proof -
  have buf: "wf_buffer (c_req_buf (sy_conn s))" "0 \<le> c_fd (sy_conn s)" using assms(2) by (auto elim!: system_okE)
  obtain res b net bs where r: "conn_recv_header (c_fd (sy_conn s)) (c_req_buf (sy_conn s)) (sy_net s) = Some (res, b, net)"
    "wf_buffer b" "hb_cap b = hb_cap (c_req_buf (sy_conn s))" "rh_total_received res = hb_size b"
    "case memmem (live b) (crlf @ crlf) of
         Some t \<Rightarrow> rh_status res = READ_HEADER_OK \<and> rh_body_start res = t + 4
       | None \<Rightarrow> rh_status res \<noteq> READ_HEADER_OK \<and> (rh_status res = READ_HEADER_TOO_LARGE \<longleftrightarrow> hb_size b = hb_cap b)"
    using conn_recv_header_spec [OF buf] by blast
  let ?s = "(on_conn (\<lambda>c. c\<lparr>c_req_buf := b\<rparr>) s)\<lparr>sy_net := net\<rparr>"
  have ok: "system_ok cfg slack fd ?s" using assms(2) r by (simp add: system_ok_def conn_mem_ok_def)
  have hs: "c_req (sy_conn s) = request_zero" using assms(4) by (simp add: phase_ok_def)
  show ?thesis
  proof (cases "rh_status res")
    case READ_HEADER_OK
    then obtain t where t: "memmem (live b) (crlf @ crlf) = Some t" "rh_body_start res = t + 4"
      using r(5) by (auto split: option.splits)
    have "step_ok cfg slack fd (head_received cfg res ?s)"
      by (rule head_received_ok [OF assms(1) ok]) (use hs t r(4) in \<open>simp_all add: request_zero_def\<close>)
    with READ_HEADER_OK assms(3) r(1) show ?thesis by (simp add: step_header_read_def)
  qed (use assms(3) r(1) ok send_error_ok [OF assms(1) ok] hs in \<open>simp_all add: step_header_read_def phase_ok_def\<close>)
qed

subsection \<open>The body\<close>

lemma step_body_cl_read_ok:
  assumes "wf_config cfg" "system_ok cfg slack fd s" "c_phase (sy_conn s) = CONN_READING_BODY_CL"
    "phase_ok cfg slack CONN_READING_BODY_CL (sy_conn s)"
  shows "step_ok cfg slack fd (step_body_cl_read s)"
proof -
  obtain n where n: "c_st (sy_conn s) = St_Cl n" "c_body_start (sy_conn s) + n = hb_size (c_req_buf (sy_conn s))"
    using assms(4) by (auto simp: phase_ok_def split: conn_st.splits)
  have buf: "wf_buffer (c_req_buf (sy_conn s))" "0 \<le> c_fd (sy_conn s)" using assms(2) by (auto elim!: system_okE)
  obtain mm where m: "hb_bytes (c_req_buf (sy_conn s)) = Some mm" using buf(1) by (rule wf_bufferE)
  obtain res b n' net bs where r: "conn_recv_body_cl (c_fd (sy_conn s)) (c_req_buf (sy_conn s)) (c_body_start (sy_conn s))
      (c_body_len (sy_conn s)) n (sy_net s) = Some (res, b, n', net)"
    "wf_buffer b" "hb_cap b = hb_cap (c_req_buf (sy_conn s))" "live b = live (c_req_buf (sy_conn s)) @ bs" "n' = n + length bs"
    "if c_body_len (sy_conn s) \<le> n' then rb_status res = READ_BODY_OK
       \<and> rb_next_req_offset res = (if c_body_len (sy_conn s) < n' then c_body_start (sy_conn s) + c_body_len (sy_conn s) else 0)
     else rb_status res \<noteq> READ_BODY_OK \<and> rb_next_req_offset res = 0"
    using conn_recv_body_cl_loop_spec [OF buf(1)] m buf(2) unfolding conn_recv_body_cl_def by fastforce
  have size: "c_body_start (sy_conn s) + n' = hb_size b"
    using arg_cong [OF r(4), of length] length_live [OF r(2)] length_live [OF buf(1)] n(2) r(5) by simp
  let ?s = "(on_conn (\<lambda>c. c\<lparr>c_req_buf := b, c_st := St_Cl n'\<rparr>) s)\<lparr>sy_net := net\<rparr>"
  have ok: "system_ok cfg slack fd ?s" using assms(2) r by (simp add: system_ok_def conn_mem_ok_def)
  have "step_ok cfg slack fd (Some (CONN_BUILDING, on_conn (\<lambda>c. c\<lparr>c_req := (c_req c)\<lparr>rq_body_len := n',
         rq_body := In_Request_Buffer (c_body_start c)\<rparr>, c_next_req_offset := rb_next_req_offset res\<rparr>) ?s))"
    using ok r(6) size by (auto simp: system_ok_def conn_mem_ok_def phase_ok_def body_readable_def split: if_splits)
  with send_error_ok [OF assms(1) ok] ok size assms(3) n(1) r(1) show ?thesis
    by (auto simp: step_body_cl_read_def st_received_def phase_ok_def Let_def)
qed

lemma step_body_chunked_read_ok:
  assumes "wf_config cfg" "system_ok cfg slack fd s" "c_phase (sy_conn s) = CONN_READING_BODY_CHUNKED"
    "phase_ok cfg slack CONN_READING_BODY_CHUNKED (sy_conn s)"
  shows "step_ok cfg slack fd (step_body_chunked_read cfg s)"
proof -
  obtain st where st: "c_st (sy_conn s) = St_Chunked st"
    "chunked_inv cfg (c_req_buf (sy_conn s)) (c_body_start (sy_conn s)) (c_body_dechunked (sy_conn s)) st"
    using assms(4) by (auto simp: phase_ok_def split: conn_st.splits)
  have fd: "0 < c_fd (sy_conn s)" using assms(2) by (auto elim!: system_okE)
  obtain res b d st' net bs where r: "conn_recv_body_chunked cfg (c_fd (sy_conn s)) (c_req_buf (sy_conn s))
      (c_body_start (sy_conn s)) (c_body_dechunked (sy_conn s)) st (sy_net s) = Some (res, b, d, st', net)"
    "wf_buffer b" "hb_cap b = hb_cap (c_req_buf (sy_conn s))" "live b = live (c_req_buf (sy_conn s)) @ bs"
    "wf_buffer d" "hb_cap d = hb_cap (c_body_dechunked (sy_conn s))" "chunked_report cfg (c_body_start (sy_conn s)) res b d st'"
    using conn_recv_body_chunked_spec [OF assms(1) st(2) fd] by blast
  let ?s = "(on_conn (\<lambda>c. c\<lparr>c_req_buf := b, c_body_dechunked := d, c_st := St_Chunked st'\<rparr>) s)\<lparr>sy_net := net\<rparr>"
  have ok: "system_ok cfg slack fd ?s" using assms(2) r by (simp add: system_ok_def conn_mem_ok_def)
  note unf = step_body_chunked_read_def assms(3) st(1) st_chunked_def r(1)
  show ?thesis
  proof (cases "rb_status res")
    case READ_BODY_OK
    then obtain n where n: "chunk_run cfg (chunk_decoder_zero, hb_cap d) (body_bytes b (c_body_start (sy_conn s))) = Finished n (live d)"
      "rb_next_req_offset res = c_body_start (sy_conn s) + n"
      using r(7) by (auto simp: chunked_report_def split: outcome.splits if_splits)
    have "n \<le> length (body_bytes b (c_body_start (sy_conn s)))"
      using n(1) chunk_run_Finished_iff [of chunk_decoder_zero cfg "hb_cap d"] by (fastforce simp: chunk_decoder_zero_def)
    moreover have "c_body_start (sy_conn s) \<le> hb_size b"
      using st(2) arg_cong [OF r(4), of length] length_live [OF r(2)] by (auto simp: chunked_inv_def length_live)
    ultimately have "rb_next_req_offset res \<le> hb_size b"
      using length_live [OF r(2)] n(2) by (simp add: body_bytes_def)
    with READ_BODY_OK ok show ?thesis by (simp add: unf system_ok_def conn_mem_ok_def phase_ok_def body_readable_def)
  next
    case READ_BODY_HAS_MORE
    then have "chunked_inv cfg b (c_body_start (sy_conn s)) d st'"
      using r(7) by (auto simp: chunked_report_def split: outcome.splits if_splits)
    with READ_BODY_HAS_MORE ok show ?thesis by (simp add: unf phase_ok_def)
  qed (use send_error_ok [OF assms(1) ok] in \<open>simp_all add: unf\<close>)
qed

subsection \<open>Building the response\<close>

lemma handler_body_total:
  assumes "system_ok cfg slack fd s" "body_readable (sy_conn s)"
  shows "\<exists>bs. handler_body (sy_conn s) = Some bs"
proof -
  obtain m d where "hb_bytes (c_req_buf (sy_conn s)) = Some m" "hb_size (c_req_buf (sy_conn s)) \<le> length m"
    "hb_bytes (c_body_dechunked (sy_conn s)) = Some d" "hb_size (c_body_dechunked (sy_conn s)) \<le> length d"
    using assms(1) by (auto simp: wf_buffer_def elim!: system_okE)
  with assms(2) show ?thesis
    by (cases "rq_body (c_req (sy_conn s))") (auto simp: body_readable_def handler_body_def rd_range_def)
qed

lemma route_response_ok:
  assumes "system_ok cfg slack fd s" "body_readable (sy_conn s)"
  shows "\<exists>res a w. route_response meth s = Some (res, (on_conn (\<lambda>c. c\<lparr>c_arena := a\<rparr>) s)\<lparr>sy_world := w\<rparr>)
    \<and> response_ok (world_ok slack) res \<and> arena_grows (c_arena (sy_conn s)) a \<and> world_ok slack w"
proof -
  have routes: "list_all (route_ok (world_ok slack)) (ro_routes (sy_router s))" and scratch: "scratch_ok (c_arena (sy_conn s))"
    and w: "world_ok slack (sy_world s)"
    using assms by (auto elim!: system_okE simp: router_ok_def)
  let ?r = "route_lookup (ro_routes (sy_router s)) (http_method_show meth) (rl_path (rq_line (c_req (sy_conn s))))"
  have same: "(on_conn (\<lambda>c. c\<lparr>c_arena := c_arena c\<rparr>) s)\<lparr>sy_world := sy_world s\<rparr> = s" by simp
  show ?thesis
  proof (cases "rlr_route ?r")
    case None
    have "response_ok (world_ok slack) (response_error_405 ms 128)" for ms
      by (simp add: response_error_405_def response_ok_def wf_response_def response_literal_def response_buffer_def)
    with None w arena_grows_refl [OF scratch] same response_error_ok show ?thesis
      unfolding route_response_def by (intro exI conjI) (auto simp: Let_def)
  next
    case (Some route)
    then have "route \<in> set (ro_routes (sy_router s))"
      by (auto simp: route_lookup_def route_lookup_loop_spec find_Some_iff)
    then have good: "route_ok (world_ok slack) route" using routes by (simp add: list_all_iff)
    obtain bs where bs: "handler_body (sy_conn s) = Some bs" using handler_body_total [OF assms] by blast
    obtain res a w where f: "Option.bind (call_handler route) (\<lambda>f. f (fst (c_req (sy_conn s), bs)) (snd (c_req (sy_conn s), bs)) (c_arena (sy_conn s)) (sy_world s))
        = Some (res, a, w)" "response_ok (world_ok slack) res" "arena_grows (c_arena (sy_conn s)) a" "world_ok slack w"
      using routes.responds [OF good w scratch] by blast
    then have "route_response meth s = Some (res, (on_conn (\<lambda>c. c\<lparr>c_arena := a\<rparr>) s)\<lparr>sy_world := w\<rparr>)"
      using Some bs by (auto simp: route_response_def Let_def Option.bind_eq_Some_conv)
    with f(2-4) show ?thesis by blast
  qed
qed

lemma system_ok_update:
  "system_ok cfg slack fd s \<Longrightarrow> arena_grows (c_arena (sy_conn s)) a \<Longrightarrow> world_ok slack w
    \<Longrightarrow> system_ok cfg slack fd ((on_conn (\<lambda>c. c\<lparr>c_arena := a\<rparr>) s)\<lparr>sy_world := w\<rparr>)"
  by (auto simp: system_ok_def conn_mem_ok_def arena_grows_def scratch_ok_def wf_arena_def)

text \<open>A response has been chosen, and of the connection only the arena has changed.\<close>

definition chosen :: "config \<Rightarrow> nat \<Rightarrow> int \<Rightarrow> 'u system \<Rightarrow> ('u response \<times> 'u system) option \<Rightarrow> bool" where
  "chosen cfg slack fd s r \<longleftrightarrow> (\<exists>res a s'. r = Some (res, s') \<and> response_ok (world_ok slack) res
    \<and> system_ok cfg slack fd s' \<and> sy_conn s' = (sy_conn s)\<lparr>c_arena := a\<rparr>)"

lemma route_response_chosen:
  assumes "system_ok cfg slack fd s" "body_readable (sy_conn s)"
  shows "chosen cfg slack fd s (route_response meth s)"
  using route_response_ok [OF assms, of meth] system_ok_update [OF assms(1)] by (fastforce simp: chosen_def)

lemma not_modified_chosen:
  assumes "system_ok cfg slack fd s" "5 \<le> length (ce_headers e)"
  shows "chosen cfg slack fd s (do { res \<leftarrow> response_dynamic_304 e; Some (res, s) })"
proof -
  let ?res = "response_none 304 ''Not Modified'' (take 3 (drop 2 (ce_headers e))) :: 'a response"
  have "response_dynamic_304 e = Some ?res" using assms(2) by (simp add: response_dynamic_304_def)
  moreover have "response_ok (world_ok slack) ?res" by (simp add: response_ok_def response_none_def wf_response_def)
  ultimately show ?thesis unfolding chosen_def using assms(1)
    by (intro exI [of _ ?res] exI [of _ "c_arena (sy_conn s)"] exI [of _ s]) simp
qed

lemma entry_chosen:
  assumes "system_ok cfg slack fd s" "entry_ok slack e"
  shows "chosen cfg slack fd s (do {
    (res, a, w) \<leftarrow> response_for_entry req e (c_arena (sy_conn s)) (sy_world s);
    Some (res, (on_conn (\<lambda>c. c\<lparr>c_arena := a\<rparr>) s)\<lparr>sy_world := w\<rparr>) })"
proof -
  have env: "world_ok slack (sy_world s)" "scratch_ok (c_arena (sy_conn s))" using assms(1) by (auto elim!: system_okE)
  obtain res a w where f: "response_for_entry req e (c_arena (sy_conn s)) (sy_world s) = Some (res, a, w)"
    "response_ok (world_ok slack) res" "arena_grows (c_arena (sy_conn s)) a" "world_ok slack w"
    using entries.responds [OF assms(2) env] by blast
  from system_ok_update [OF assms(1) f(3,4)] f(1,2) show ?thesis by (auto simp: chosen_def)
qed

lemma choose_response_ok:
  assumes "system_ok cfg slack fd s" "body_readable (sy_conn s)"
  shows "\<exists>res a s'. choose_response cfg s = Some (res, s') \<and> response_ok (world_ok slack) res
    \<and> system_ok cfg slack fd s' \<and> sy_conn s' = (sy_conn s)\<lparr>c_arena := a\<rparr>"
proof -
  let ?req = "c_req (sy_conn s)"
  have env: "router_ok cfg slack (sy_router s)" "world_ok slack (sy_world s)" using assms by (auto elim!: system_okE)
  have "chosen cfg slack fd s (choose_response cfg s)"
  proof (cases "rl_method (rq_line ?req) = HEAD \<or> rl_method (rq_line ?req) = GET")
    case False
    with route_response_chosen [OF assms] show ?thesis by (simp add: choose_response_def Let_def)
  next
    case get: True
    obtain d reg w where l: "content_registry_lookup cfg (ro_registry (sy_router s)) ?req (rl_path (rq_line ?req)) (sy_world s) = Some (d, reg, w)"
      "lookup_ok slack d" "registry_ok cfg slack reg" "world_ok slack w"
      using content_registry_lookup_total [of cfg slack "ro_registry (sy_router s)"] env unfolding router_ok_def by blast
    let ?s = "s\<lparr>sy_router := (sy_router s)\<lparr>ro_registry := reg\<rparr>, sy_world := w\<rparr>"
    have ok: "system_ok cfg slack fd ?s" using assms l(3,4) by (simp add: system_ok_def router_ok_def)
    have meth: "(if rl_method (rq_line ?req) = HEAD then GET else rl_method (rq_line ?req)) = GET" using get by auto
    have choose: "choose_response cfg s = (case cl_status d of
         CONTENT_MISS \<Rightarrow> route_response GET ?s
       | CONTENT_GONE \<Rightarrow> Some (response_error_from_status PARSE_NOT_FOUND, ?s)
       | CONTENT_NOT_MODIFIED \<Rightarrow> do {
           e \<leftarrow> cl_entry d;
           res \<leftarrow> response_dynamic_304 e;
           Some (res, ?s)
         }
       | CONTENT_HIT \<Rightarrow> do {
           e \<leftarrow> cl_entry d;
           (res, a, w) \<leftarrow> response_for_entry ?req e (c_arena (sy_conn ?s)) (sy_world ?s);
           Some (res, (on_conn (\<lambda>c. c\<lparr>c_arena := a\<rparr>) ?s)\<lparr>sy_world := w\<rparr>)
         })"
      unfolding choose_response_def Let_def meth by (cases "cl_status d") (simp_all add: l(1))
    have "chosen cfg slack fd ?s (choose_response cfg s)"
    proof (cases "cl_status d")
      case CONTENT_MISS
      with route_response_chosen [OF ok, of GET] assms(2) choose show ?thesis by simp
    next
      case CONTENT_GONE
      with choose have "choose_response cfg s = Some (response_error_from_status PARSE_NOT_FOUND, ?s)" by simp
      moreover have "sy_conn ?s = (sy_conn ?s)\<lparr>c_arena := c_arena (sy_conn s)\<rparr>" by simp
      ultimately show ?thesis unfolding chosen_def using ok response_error_ok by blast
    next
      case CONTENT_NOT_MODIFIED
      with l(2) obtain e where "cl_entry d = Some e" "5 \<le> length (ce_headers e)" by (auto simp: lookup_ok_def split: option.splits)
      with not_modified_chosen [OF ok] CONTENT_NOT_MODIFIED show ?thesis unfolding choose by simp
    next
      case CONTENT_HIT
      with l(2) obtain e where "cl_entry d = Some e" "entry_ok slack e" by (auto simp: lookup_ok_def split: option.splits)
      with entry_chosen [OF ok, of e ?req] CONTENT_HIT show ?thesis unfolding choose by simp
    qed
    then show ?thesis by (simp add: chosen_def)
  qed
  then show ?thesis by (simp add: chosen_def)
qed

lemma serialize_response_ok:
  assumes "system_ok cfg slack fd s" "wf_response res"
  shows "\<exists>r m. serialize_response res s = Some (r, on_conn (\<lambda>c. c\<lparr>c_resp_buf := (c_resp_buf c)\<lparr>hb_bytes := Some m\<rparr>\<rparr>) s)
    \<and> length m = response_buffer_size cfg \<and> (case r of Some n \<Rightarrow> 0 < n \<and> n \<le> response_buffer_size cfg | None \<Rightarrow> True)
    \<and> (wf_config cfg \<and> res = response_error_from_status PARSE_SERVER_ERROR \<longrightarrow> r \<noteq> None)"
proof -
  obtain t where t: "time_now (sy_world s) = Some t" "sane_clock t" using system_clock [OF assms(1)] .
  have buf: "wf_buffer (c_resp_buf (sy_conn s))" "hb_cap (c_resp_buf (sy_conn s)) = response_buffer_size cfg"
    using assms(1) by (auto elim!: system_okE)
  obtain m where m: "hb_bytes (c_resp_buf (sy_conn s)) = Some m" "length m = response_buffer_size cfg"
    using buf by (auto elim!: wf_bufferE)
  let ?ka = "c_keep_alive (sy_conn s)" and ?cap = "response_buffer_size cfg"
  let ?r = "if response_fits (Some t) res ?cap ?ka then Some (length (response_text t res ?ka)) else None"
  obtain m' where m': "response_serialize (Some t) res m ?cap ?ka = Some (?r, m')" "length m' = length m"
    using response_serialize_spec [OF assms(2), of ?cap m "Some t" ?ka] m(2) by auto
  have fits: "response_fits (Some t) (response_error_from_status PARSE_SERVER_ERROR :: 'a response) ?cap ?ka" if "wf_config cfg"
    using canned_fits [OF _ t(2), of _ _ ?cap ?ka, where ?'u = 'a] error_from_status_canned [of PARSE_SERVER_ERROR, where ?'a = 'a] that
    by (fastforce simp: wf_config_def)
  have "serialize_response res s = Some (?r, on_conn (\<lambda>c. c\<lparr>c_resp_buf := (c_resp_buf c)\<lparr>hb_bytes := Some m'\<rparr>\<rparr>) s)"
    using m(1) t(1) m'(1) buf(2) by (simp add: serialize_response_def)
  moreover have "case ?r of Some n \<Rightarrow> 0 < n \<and> n \<le> ?cap | None \<Rightarrow> True" by (auto simp: response_fits_def)
  moreover have "wf_config cfg \<and> res = response_error_from_status PARSE_SERVER_ERROR \<longrightarrow> ?r \<noteq> None" using fits by auto
  ultimately show ?thesis using m'(2) m(2) by (intro exI [of _ ?r] exI [of _ m'] conjI) (simp_all only:)
qed

lemma request_consume_ok:
  assumes "wf_buffer (c_req_buf c)" "c_next_req_offset c \<le> hb_size (c_req_buf c)"
  shows "\<exists>b. request_consume c = Some (c\<lparr>c_req_buf := b, c_next_req_offset := 0\<rparr>) \<and> wf_buffer b \<and> hb_cap b = hb_cap (c_req_buf c)
    \<and> live b = (if c_next_req_offset c = 0 then [] else drop (c_next_req_offset c) (live (c_req_buf c)))"
proof -
  let ?off = "c_next_req_offset c" and ?b = "c_req_buf c"
  obtain m where m: "hb_bytes ?b = Some m" "length m = hb_cap ?b" "hb_size ?b \<le> hb_cap ?b" "live ?b = take (hb_size ?b) m"
    using assms(1) by (rule wf_bufferE)
  show ?thesis
  proof (cases "?off = 0")
    case True
    then have "request_consume c = Some (c\<lparr>c_req_buf := ?b\<lparr>hb_size := 0\<rparr>, c_next_req_offset := 0\<rparr>)"
      by (simp add: request_consume_def)
    with True m show ?thesis by (intro exI [of _ "?b\<lparr>hb_size := 0\<rparr>"]) (simp add: wf_buffer_def live_def)
  next
    case False
    define bs where "bs = take (hb_size ?b - ?off) (drop ?off m)"
    have bs: "length bs = hb_size ?b - ?off" "bs = drop ?off (live ?b)"
      using m assms(2) by (simp_all add: bs_def drop_take)
    define m' where "m' = bs @ drop (length bs) m"
    have "rd_range m ?off (hb_size ?b - ?off) = Some bs" using m assms(2) by (simp add: rd_range_def bs_def)
    moreover have "blit m 0 bs = Some m'" using m assms(2) bs(1) by (simp add: blit_def m'_def)
    ultimately have "request_consume c = Some (c\<lparr>c_req_buf := ?b\<lparr>hb_bytes := Some m', hb_size := hb_size ?b - ?off\<rparr>, c_next_req_offset := 0\<rparr>)"
      using False m(1) assms(2) by (simp add: request_consume_def Let_def)
    moreover have "wf_buffer (?b\<lparr>hb_bytes := Some m', hb_size := hb_size ?b - ?off\<rparr>)"
      "live (?b\<lparr>hb_bytes := Some m', hb_size := hb_size ?b - ?off\<rparr>) = drop ?off (live ?b)"
      using m(2,3) bs by (simp_all add: wf_buffer_def live_def m'_def)
    ultimately show ?thesis using False by fastforce
  qed
qed

lemma consume_request_ok:
  assumes "system_ok cfg slack fd s" "c_next_req_offset (sy_conn s) \<le> hb_size (c_req_buf (sy_conn s))"
  shows "\<exists>b. consume_request s = Some (on_conn (\<lambda>c. c\<lparr>c_req_buf := b, c_next_req_offset := 0\<rparr>) s)
    \<and> system_ok cfg slack fd (on_conn (\<lambda>c. c\<lparr>c_req_buf := b, c_next_req_offset := 0\<rparr>) s)
    \<and> live b = (if c_next_req_offset (sy_conn s) = 0 then [] else drop (c_next_req_offset (sy_conn s)) (live (c_req_buf (sy_conn s))))"
proof -
  have "wf_buffer (c_req_buf (sy_conn s))" using assms(1) by (auto elim!: system_okE)
  from request_consume_ok [OF this assms(2)] show ?thesis
    using assms(1) by (auto simp: consume_request_def system_ok_def conn_mem_ok_def)
qed

lemma system_ok_resp:
  assumes "system_ok cfg slack fd s" "length m = response_buffer_size cfg" "n \<le> response_buffer_size cfg"
  shows "system_ok cfg slack fd (set_resp_size n (on_conn (\<lambda>c. c\<lparr>c_resp_buf := (c_resp_buf c)\<lparr>hb_bytes := Some m\<rparr>\<rparr>) s))"
  using assms by (auto simp: system_ok_def conn_mem_ok_def set_resp_size_def wf_buffer_def)

lemma system_ok_resp_bytes:
  assumes "system_ok cfg slack fd s" "length m = response_buffer_size cfg"
  shows "system_ok cfg slack fd (on_conn (\<lambda>c. c\<lparr>c_resp_buf := (c_resp_buf c)\<lparr>hb_bytes := Some m\<rparr>\<rparr>) s)"
  using assms by (auto simp: system_ok_def conn_mem_ok_def wf_buffer_def)

lemma send_plain_ok:
  assumes "wf_config cfg" "system_ok cfg slack fd s" "wf_response res"
    "c_next_req_offset (sy_conn s) \<le> hb_size (c_req_buf (sy_conn s))"
  shows "step_ok cfg slack fd (send_plain res s)"
proof -
  let ?put = "\<lambda>m. on_conn (\<lambda>c. c\<lparr>c_resp_buf := (c_resp_buf c)\<lparr>hb_bytes := Some m\<rparr>\<rparr>)"
  define res1 where "res1 = (if rl_method (rq_line (c_req (sy_conn s))) = HEAD then res\<lparr>rs_head_only := True\<rparr> else res)"
  have wf1: "wf_response res1" using assms(3) by (simp add: res1_def wf_response_def)
  obtain r1 m1 where s1: "serialize_response res1 s = Some (r1, ?put m1 s)" "length m1 = response_buffer_size cfg"
    "case r1 of Some n \<Rightarrow> 0 < n \<and> n \<le> response_buffer_size cfg | None \<Rightarrow> True"
    using serialize_response_ok [OF assms(2) wf1] by blast
  have finish: "step_ok cfg slack fd (do { s \<leftarrow> consume_request (set_resp_size n (?put m t)); Some (phase_send_begin s) })"
    if "system_ok cfg slack fd t" "length m = response_buffer_size cfg" "0 < n" "n \<le> response_buffer_size cfg"
      "c_next_req_offset (sy_conn t) \<le> hb_size (c_req_buf (sy_conn t))" for n m and t :: "'a system"
  proof -
    let ?t = "set_resp_size n (?put m t)"
    have ok: "system_ok cfg slack fd ?t" by (rule system_ok_resp [OF that(1,2,4)])
    have "c_next_req_offset (sy_conn ?t) \<le> hb_size (c_req_buf (sy_conn ?t))" using that(5) by (simp add: set_resp_size_def)
    from consume_request_ok [OF ok this] obtain b where
      b: "consume_request ?t = Some (on_conn (\<lambda>c. c\<lparr>c_req_buf := b, c_next_req_offset := 0\<rparr>) ?t)"
      "system_ok cfg slack fd (on_conn (\<lambda>c. c\<lparr>c_req_buf := b, c_next_req_offset := 0\<rparr>) ?t)" by blast
    from phase_send_begin_ok [OF b(2)] b(1) that(3) show ?thesis by (simp add: set_resp_size_def)
  qed
  show ?thesis
  proof (cases r1)
    case (Some n)
    then have n: "0 < n" "n \<le> response_buffer_size cfg" using s1(3) by simp_all
    from finish [OF assms(2) s1(2) n assms(4)] Some s1(1) show ?thesis by (simp add: send_plain_def Let_def res1_def)
  next
    case None
    let ?s1 = "?put m1 s"
    have ok1: "system_ok cfg slack fd ?s1" by (rule system_ok_resp_bytes [OF assms(2) s1(2)])
    obtain r2 m2 where s2: "serialize_response (response_error_from_status PARSE_SERVER_ERROR) ?s1 = Some (r2, ?put m2 ?s1)"
      "length m2 = response_buffer_size cfg"
      "case r2 of Some n \<Rightarrow> 0 < n \<and> n \<le> response_buffer_size cfg | None \<Rightarrow> True" "r2 \<noteq> None"
      using serialize_response_ok [OF ok1 response_error_wf] assms(1) by blast
    then obtain n where n: "r2 = Some n" "0 < n" "n \<le> response_buffer_size cfg" by auto
    have "c_next_req_offset (sy_conn ?s1) \<le> hb_size (c_req_buf (sy_conn ?s1))" using assms(4) by simp
    from finish [OF ok1 s2(2) n(2,3) this] None s1(1) s2(1) n(1) show ?thesis by (simp add: send_plain_def Let_def res1_def)
  qed
qed

lemma stream_release_ok:
  assumes "system_ok cfg slack fd s" "stream_ok (world_ok slack) (c_producer (sy_conn s))"
  shows "system_ok cfg slack fd (stream_release s)" "sy_conn (stream_release s) = (sy_conn s)\<lparr>c_producer := stream_zero\<rparr>"
proof -
  have "world_ok slack (case st_cleanup (c_producer (sy_conn s)) of Some f \<Rightarrow> f (st_ctx (c_producer (sy_conn s))) (sy_world s)
      | None \<Rightarrow> sy_world s)"
    using assms by (auto simp: stream_ok_def system_ok_def split: option.splits dest: byte_source.release_keeps)
  with assms(1) show "system_ok cfg slack fd (stream_release s)"
    by (simp add: stream_release_def Let_def system_ok_def conn_mem_ok_def)
  show "sy_conn (stream_release s) = (sy_conn s)\<lparr>c_producer := stream_zero\<rparr>" by (simp add: stream_release_def Let_def)
qed

lemma step_response_build_ok:
  assumes "wf_config cfg" "system_ok cfg slack fd s" "c_phase (sy_conn s) = CONN_BUILDING"
    "phase_ok cfg slack CONN_BUILDING (sy_conn s)"
  shows "step_ok cfg slack fd (step_response_build cfg s)"
proof -
  let ?put = "\<lambda>m. on_conn (\<lambda>c. c\<lparr>c_resp_buf := (c_resp_buf c)\<lparr>hb_bytes := Some m\<rparr>\<rparr>)"
  obtain res a s1 where c: "choose_response cfg s = Some (res, s1)" "response_ok (world_ok slack) res"
    "system_ok cfg slack fd s1" "sy_conn s1 = (sy_conn s)\<lparr>c_arena := a\<rparr>"
    using choose_response_ok [OF assms(2)] assms(4) by (auto simp: phase_ok_def)
  have off: "c_next_req_offset (sy_conn s1) \<le> hb_size (c_req_buf (sy_conn s1))" using assms(4) c(4) by (simp add: phase_ok_def)
  have wf: "wf_response res" using c(2) by (simp add: response_ok_def)
  note unf = step_response_build_def assms(3) c(1)
  show ?thesis
  proof (cases "rs_body res")
    case (BODY_STREAM stream)
    have so: "stream_ok (world_ok slack) stream" using c(2) BODY_STREAM by (simp add: response_ok_def)
    let ?s1 = "on_conn (\<lambda>c. c\<lparr>c_producer := stream\<rparr>) s1"
    have ok1: "system_ok cfg slack fd ?s1" using c(3) by (simp add: system_ok_def conn_mem_ok_def)
    obtain r m where ser: "serialize_response res ?s1 = Some (r, ?put m ?s1)" "length m = response_buffer_size cfg"
      "case r of Some n \<Rightarrow> 0 < n \<and> n \<le> response_buffer_size cfg | None \<Rightarrow> True"
      using serialize_response_ok [OF ok1 wf] by blast
    have ok2: "system_ok cfg slack fd (?put m ?s1)" by (rule system_ok_resp_bytes [OF ok1 ser(2)])
    show ?thesis
    proof (cases r)
      case None
      have so': "stream_ok (world_ok slack) (c_producer (sy_conn (?put m ?s1)))" using so by simp
      note rel = stream_release_ok [OF ok2 so']
      have "step_ok cfg slack fd (send_plain (response_error_from_status PARSE_SERVER_ERROR) (stream_release (?put m ?s1)))"
        by (rule send_plain_ok [OF assms(1) rel(1) response_error_wf]) (use off rel(2) in simp)
      with None BODY_STREAM ser(1) show ?thesis by (simp add: unf)
    next
      case (Some n)
      let ?s2 = "on_conn (\<lambda>c. c\<lparr>c_st := St_Stream STREAM_HEADER 0\<rparr>) (set_resp_size n (?put m ?s1))"
      have n: "0 < n" "n \<le> response_buffer_size cfg" using Some ser(3) by simp_all
      have ok3: "system_ok cfg slack fd ?s2"
        using system_ok_resp [OF ok1 ser(2) n(2)] by (simp add: system_ok_def conn_mem_ok_def)
      have "c_next_req_offset (sy_conn ?s2) \<le> hb_size (c_req_buf (sy_conn ?s2))" using off by (simp add: set_resp_size_def)
      from consume_request_ok [OF ok3 this] obtain b where
        b: "consume_request ?s2 = Some (on_conn (\<lambda>c. c\<lparr>c_req_buf := b, c_next_req_offset := 0\<rparr>) ?s2)"
        "system_ok cfg slack fd (on_conn (\<lambda>c. c\<lparr>c_req_buf := b, c_next_req_offset := 0\<rparr>) ?s2)" by blast
      with Some BODY_STREAM ser(1) so n(1) show ?thesis by (simp add: unf phase_ok_def set_resp_size_def)
    qed
  qed (use send_plain_ok [OF assms(1) c(3) wf off] in \<open>simp_all add: unf\<close>)
qed

subsection \<open>Sending\<close>

lemma request_done_ok:
  assumes "system_ok cfg slack fd s"
  shows "step_ok cfg slack fd (request_done cfg s)"
proof -
  have c: "conn_mem_ok cfg fd (sy_conn s)" using assms by (simp add: system_ok_def)
  then have mark: "c_req_mark (sy_conn s) \<le> ar_used (c_arena (sy_conn s))" "ar_used (c_arena (sy_conn s)) \<le> ar_cap (c_arena (sy_conn s))"
    by (auto simp: conn_mem_ok_def scratch_ok_def wf_arena_def)
  then have reset: "arena_reset_to (c_arena (sy_conn s)) (c_req_mark (sy_conn s))
      = Some ((c_arena (sy_conn s))\<lparr>ar_used := c_req_mark (sy_conn s)\<rparr>)"
    by (auto simp: arena_reset_to_def Let_def fault_simps)
  have "scratch_ok ((c_arena (sy_conn s))\<lparr>ar_used := c_req_mark (sy_conn s)\<rparr>)"
    using c mark by (auto simp: conn_mem_ok_def scratch_ok_def wf_arena_def)
  with assms reset show ?thesis
    by (auto simp: request_done_def Let_def connection_reset_def system_ok_def conn_mem_ok_def phase_ok_def request_zero_def
        wf_buffer_def)
qed

lemma system_ok_sent: "system_ok cfg slack fd s \<Longrightarrow> system_ok cfg slack fd ((on_conn (\<lambda>c. c\<lparr>c_st := st\<rparr>) s)\<lparr>sy_net := net\<rparr>)"
  by (simp add: system_ok_def conn_mem_ok_def)

lemma step_response_send_ok:
  assumes "system_ok cfg slack fd s" "phase_ok cfg slack CONN_SENDING_RESPONSE (sy_conn s)"
  shows "step_ok cfg slack fd (step_response_send cfg s)"
proof -
  obtain n where n: "c_st (sy_conn s) = St_Send n" "n < hb_size (c_resp_buf (sy_conn s))"
    using assms(2) by (auto simp: phase_ok_def split: conn_st.splits)
  have buf: "wf_buffer (c_resp_buf (sy_conn s))" "0 \<le> c_fd (sy_conn s)" using assms(1) by (auto elim!: system_okE)
  obtain st n' net where r: "response_send (c_fd (sy_conn s)) (c_resp_buf (sy_conn s)) n (sy_net s) = Some (st, n', net)"
    using response_send_spec [OF buf(1) n(2) buf(2), of "sy_net s"] by blast
  let ?s = "(on_conn (\<lambda>c. c\<lparr>c_st := St_Send n'\<rparr>) s)\<lparr>sy_net := net\<rparr>"
  have ok: "system_ok cfg slack fd ?s" by (rule system_ok_sent [OF assms(1)])
  have "0 < hb_size (c_resp_buf (sy_conn ?s))" using n(2) by simp
  from phase_send_begin_ok [OF ok this] request_done_ok [OF ok] ok n(1) r show ?thesis
    by (cases st) (simp_all add: step_response_send_def st_sent_def phase_ok_def)
qed

definition turn_ok :: "config \<Rightarrow> nat \<Rightarrow> int \<Rightarrow> ((conn_phase \<times> 'u system) + 'u system) option \<Rightarrow> bool" where
  "turn_ok cfg slack fd r \<longleftrightarrow> (case r of None \<Rightarrow> False
     | Some (Inl out) \<Rightarrow> step_ok cfg slack fd (Some out)
     | Some (Inr s) \<Rightarrow> system_ok cfg slack fd s \<and> phase_ok cfg slack CONN_SENDING_RESPONSE_STREAM (sy_conn s))"

lemma stream_abort_ok:
  assumes "system_ok cfg slack fd s" "stream_ok (world_ok slack) (c_producer (sy_conn s))" "c_st (sy_conn s) = St_Stream p n"
  shows "turn_ok cfg slack fd (map_option Inl (stream_abort s))"
  using stream_release_ok [OF assms(1,2)] assms(3)
  by (simp add: stream_abort_def st_stream_def turn_ok_def system_ok_def conn_mem_ok_def phase_ok_def)

lemma stream_send_ok:
  assumes "system_ok cfg slack fd s" "stream_ok (world_ok slack) (c_producer (sy_conn s))" "n < hb_size (c_resp_buf (sy_conn s))"
    "b = STREAM_PULL \<or> b = STREAM_DONE"
  shows "turn_ok cfg slack fd (stream_send a b n s)"
proof -
  have buf: "wf_buffer (c_resp_buf (sy_conn s))" "0 \<le> c_fd (sy_conn s)" using assms(1) by (auto elim!: system_okE)
  obtain st n' net where r: "response_send (c_fd (sy_conn s)) (c_resp_buf (sy_conn s)) n (sy_net s) = Some (st, n', net)"
    "n' \<le> hb_size (c_resp_buf (sy_conn s))" "st = SEND_OK \<longleftrightarrow> n' = hb_size (c_resp_buf (sy_conn s))"
    using response_send_spec [OF buf(1) assms(3) buf(2), of "sy_net s"] by blast
  let ?s = "(on_conn (\<lambda>c. c\<lparr>c_st := St_Stream a n'\<rparr>) s)\<lparr>sy_net := net\<rparr>"
  have ok: "system_ok cfg slack fd ?s" by (rule system_ok_sent [OF assms(1)])
  have "system_ok cfg slack fd (on_conn (\<lambda>c. c\<lparr>c_st := St_Stream b 0\<rparr>) ?s)" using ok by (simp add: system_ok_def conn_mem_ok_def)
  moreover have "turn_ok cfg slack fd (map_option Inl (stream_abort ?s))"
    by (rule stream_abort_ok [OF ok]) (use assms(2) in simp_all)
  ultimately show ?thesis using ok r assms(2,4)
    by (cases st) (auto simp: stream_send_def stream_handle_response_def turn_ok_def phase_ok_def)
qed

lemma stage_frame_ok:
  assumes "system_ok cfg slack fd s" "stream_ok (world_ok slack) (c_producer (sy_conn s))" "c_st (sy_conn s) = St_Stream p n"
    "length m = response_buffer_size cfg" "case f of Some k \<Rightarrow> 0 < k \<and> k \<le> response_buffer_size cfg | None \<Rightarrow> True"
  shows "turn_ok cfg slack fd (stage_frame f m q s)"
proof -
  let ?s = "on_conn (\<lambda>c. c\<lparr>c_resp_buf := (c_resp_buf c)\<lparr>hb_bytes := Some m\<rparr>\<rparr>) s"
  show ?thesis
  proof (cases f)
    case None
    have "turn_ok cfg slack fd (map_option Inl (stream_abort ?s))"
      by (rule stream_abort_ok [OF system_ok_resp_bytes [OF assms(1,4)]]) (use assms(2,3) in simp_all)
    with None show ?thesis by (simp add: stage_frame_def)
  next
    case (Some k)
    then have k: "0 < k" "k \<le> response_buffer_size cfg" using assms(5) by simp_all
    have "system_ok cfg slack fd (on_conn (\<lambda>c. c\<lparr>c_st := St_Stream q 0\<rparr>) (set_resp_size k ?s))"
      using system_ok_resp [OF assms(1,4) k(2)] by (simp add: system_ok_def conn_mem_ok_def)
    with Some k(1) assms(2) show ?thesis by (simp add: stage_frame_def turn_ok_def phase_ok_def set_resp_size_def)
  qed
qed

lemma stream_pull_ok:
  assumes "system_ok cfg slack fd s" "stream_ok (world_ok slack) (c_producer (sy_conn s))" "c_st (sy_conn s) = St_Stream p n"
  shows "turn_ok cfg slack fd (stream_pull cfg s)"
proof -
  let ?p = "c_producer (sy_conn s)"
  obtain pull where pull: "st_pull ?p = Some pull"
    and src: "byte_source (world_ok slack) (pull (st_ctx ?p)) (case st_cleanup ?p of Some f \<Rightarrow> f (st_ctx ?p) | None \<Rightarrow> id)"
    using assms(2) by (auto simp: stream_ok_def split: option.splits)
  obtain pulled w where w: "pull (st_ctx ?p) (stream_chunk_size cfg) (sy_world s) = (pulled, w)" by fastforce
  let ?s = "s\<lparr>sy_world := w\<rparr>"
  have "world_ok slack w" using byte_source.pull_keeps [OF src _ w] assms(1) by (simp add: system_ok_def)
  then have ok: "system_ok cfg slack fd ?s" using assms(1) by (simp add: system_ok_def)
  have so: "stream_ok (world_ok slack) (c_producer (sy_conn ?s))" and st: "c_st (sy_conn ?s) = St_Stream p n" using assms by simp_all
  note abort = stream_abort_ok [OF ok so st]
  obtain m where m: "hb_bytes (c_resp_buf (sy_conn s)) = Some m" "length m = response_buffer_size cfg"
    "hb_cap (c_resp_buf (sy_conn s)) = response_buffer_size cfg"
    using assms(1) by (auto elim!: system_okE wf_bufferE)
  show ?thesis
  proof (cases pulled)
    case None
    with pull w abort show ?thesis by (simp add: stream_pull_def Let_def)
  next
    case (Some bs)
    have room: "length bs \<le> stream_chunk_size cfg"
      using byte_source.pull_room [OF src _ w [unfolded Some]] assms(1) by (simp add: system_ok_def)
    let ?cap = "response_buffer_size cfg"
    show ?thesis
    proof (cases "bs = []")
      case True
      obtain m' where m': "chunk_frame_last m ?cap = Some (if 5 \<le> ?cap then Some 5 else None, m')" "length m' = length m"
        using chunk_frame_last_spec [of ?cap m] m(2) by (auto simp: writes_def)
      have "turn_ok cfg slack fd (stage_frame (if 5 \<le> ?cap then Some 5 else None) m' STREAM_TRAILER ?s)"
        by (rule stage_frame_ok [OF ok so st]) (use m' m(2) in simp_all)
      with pull w Some True m m'(1) show ?thesis by (simp add: stream_pull_def Let_def)
    next
      case False
      let ?f = "chunk_text (show_hex (length bs), take (length bs) bs)"
      obtain m' where m': "chunk_frame bs (length bs) m ?cap = Some (if length ?f \<le> ?cap then Some (length ?f) else None, m')"
        "length m' = length m"
        using chunk_frame_spec [of ?cap m "length bs" bs] m(2) by (auto simp: writes_def)
      have "0 < length ?f" by (simp add: chunk_text_def)
      then have "turn_ok cfg slack fd (stage_frame (if length ?f \<le> ?cap then Some (length ?f) else None) m' STREAM_DRAIN ?s)"
        by (intro stage_frame_ok [OF ok so st]) (use m' m(2) in simp_all)
      with pull w Some False room m m'(1) show ?thesis by (simp add: stream_pull_def Let_def fault_simps)
    qed
  qed
qed

lemma stream_turn_ok:
  assumes "system_ok cfg slack fd s" "phase_ok cfg slack CONN_SENDING_RESPONSE_STREAM (sy_conn s)"
  shows "turn_ok cfg slack fd (stream_turn cfg s)"
proof -
  obtain sp n where st: "c_st (sy_conn s) = St_Stream sp n" and so: "stream_ok (world_ok slack) (c_producer (sy_conn s))"
    and n: "if sp = STREAM_PULL \<or> sp = STREAM_DONE then True else n < hb_size (c_resp_buf (sy_conn s))"
    using assms(2) by (auto simp: phase_ok_def split: conn_st.splits)
  have turn: "stream_turn cfg s = (case sp of
       STREAM_HEADER \<Rightarrow> stream_send STREAM_HEADER
         (if rl_method (rq_line (c_req (sy_conn s))) = HEAD then STREAM_DONE else STREAM_PULL) n s
     | STREAM_PULL \<Rightarrow> stream_pull cfg s
     | STREAM_DRAIN \<Rightarrow> stream_send STREAM_DRAIN STREAM_PULL n s
     | STREAM_TRAILER \<Rightarrow> stream_send STREAM_TRAILER STREAM_DONE n s
     | STREAM_DONE \<Rightarrow> map_option Inl (request_done cfg (stream_release s)))"
    by (simp add: stream_turn_def st_stream_def st)
  have "turn_ok cfg slack fd (map_option Inl (request_done cfg (stream_release s)))"
    using request_done_ok [OF stream_release_ok(1) [OF assms(1) so]] by (auto simp: turn_ok_def elim!: step_okE)
  with n stream_send_ok [OF assms(1) so] stream_pull_ok [OF assms(1) so st] show ?thesis
    unfolding turn by (cases sp) simp_all
qed

lemma step_response_send_stream_ok:
  "system_ok cfg slack fd s \<Longrightarrow> phase_ok cfg slack CONN_SENDING_RESPONSE_STREAM (sy_conn s)
    \<Longrightarrow> step_ok cfg slack fd (step_response_send_stream cfg s)"
proof (induction cfg s rule: step_response_send_stream.induct)
  case (1 cfg s)
  obtain r where r: "stream_turn cfg s = Some r" and ok: "turn_ok cfg slack fd (Some r)"
    using stream_turn_ok [OF "1.prems"] by (cases "stream_turn cfg s") (auto simp: turn_ok_def)
  show ?case
  proof (cases r)
    case (Inl out)
    with r ok show ?thesis by (subst step_response_send_stream.simps) (simp add: turn_ok_def)
  next
    case (Inr s')
    with r ok "1.IH" [OF r Inr] show ?thesis by (subst step_response_send_stream.simps) (simp add: turn_ok_def)
  qed
qed

subsection \<open>The state machine\<close>

lemma conn_step_ok:
  assumes "wf_config cfg" "conn_inv cfg slack fd s"
  shows "\<exists>s'. conn_step cfg s = Some s' \<and> conn_inv cfg slack fd s'"
proof -
  note inv = assms(2) [unfolded conn_inv_def]
  let ?p = "c_phase (sy_conn s)"
  have "step_ok cfg slack fd (case ?p of
        CONN_READING_REQUEST \<Rightarrow> step_header_read cfg s
      | CONN_SENDING_100 \<Rightarrow> step_send_100 s
      | CONN_READING_BODY_CL \<Rightarrow> step_body_cl_read s
      | CONN_READING_BODY_CHUNKED \<Rightarrow> step_body_chunked_read cfg s
      | CONN_BUILDING \<Rightarrow> step_response_build cfg s
      | CONN_SENDING_RESPONSE \<Rightarrow> step_response_send cfg s
      | CONN_SENDING_RESPONSE_STREAM \<Rightarrow> step_response_send_stream cfg s
      | CONN_CLOSED \<Rightarrow> Some (CONN_CLOSED, s))"
    using inv assms(1)
    by (cases ?p) (simp_all add: step_header_read_ok step_send_100_ok step_body_cl_read_ok step_body_chunked_read_ok
        step_response_build_ok step_response_send_ok step_response_send_stream_ok)
  then obtain p s1 where s1: "(case ?p of
        CONN_READING_REQUEST \<Rightarrow> step_header_read cfg s
      | CONN_SENDING_100 \<Rightarrow> step_send_100 s
      | CONN_READING_BODY_CL \<Rightarrow> step_body_cl_read s
      | CONN_READING_BODY_CHUNKED \<Rightarrow> step_body_chunked_read cfg s
      | CONN_BUILDING \<Rightarrow> step_response_build cfg s
      | CONN_SENDING_RESPONSE \<Rightarrow> step_response_send cfg s
      | CONN_SENDING_RESPONSE_STREAM \<Rightarrow> step_response_send_stream cfg s
      | CONN_CLOSED \<Rightarrow> Some (CONN_CLOSED, s)) = Some (p, s1)"
    "system_ok cfg slack fd s1" "phase_ok cfg slack p (sy_conn s1)" by (rule step_okE)
  have "conn_step cfg s = Some (on_conn (\<lambda>c. c\<lparr>c_phase := p\<rparr>) s1)" by (simp only: conn_step_def s1(1)) simp
  moreover have "conn_inv cfg slack fd (on_conn (\<lambda>c. c\<lparr>c_phase := p\<rparr>) s1)"
    using s1(2,3) by (simp add: conn_inv_def system_ok_def conn_mem_ok_def)
  ultimately show ?thesis by blast
qed

lemma connection_step_process_ok:
  "wf_config cfg \<Longrightarrow> conn_inv cfg slack fd s \<Longrightarrow> \<exists>s'. connection_step_process cfg s = Some s' \<and> conn_inv cfg slack fd s'"
proof (induction cfg s rule: connection_step_process.induct)
  case (1 cfg s)
  obtain s1 where s1: "conn_step cfg s = Some s1" "conn_inv cfg slack fd s1" using conn_step_ok [OF "1.prems"] by blast
  show ?case
  proof (cases "c_phase (sy_conn s1) \<noteq> c_phase (sy_conn s) \<and> c_phase (sy_conn s1) \<noteq> CONN_CLOSED")
    case True
    with "1.IH" [OF s1(1) True "1.prems"(1) s1(2)] s1(1) show ?thesis by (subst connection_step_process.simps) simp
  next
    case False
    with s1 show ?thesis by (subst connection_step_process.simps) auto
  qed
qed

text \<open>Where the loop rests: a step has kept the phase or closed the connection.\<close>

lemma connection_step_process_rests:
  "connection_step_process cfg s = Some s' \<Longrightarrow>
     c_phase (sy_conn s') = CONN_CLOSED \<or> (\<exists>t. conn_step cfg t = Some s' \<and> c_phase (sy_conn t) = c_phase (sy_conn s'))"
proof (induction cfg s rule: connection_step_process.induct)
  case (1 cfg s)
  obtain s1 where s1: "conn_step cfg s = Some s1"
    and rest: "(if c_phase (sy_conn s1) \<noteq> c_phase (sy_conn s) \<and> c_phase (sy_conn s1) \<noteq> CONN_CLOSED
      then connection_step_process cfg s1 else Some s1) = Some s'"
    using "1.prems" by (subst (asm) connection_step_process.simps) (auto simp: Option.bind_eq_Some_conv)
  show ?case
  proof (cases "c_phase (sy_conn s1) \<noteq> c_phase (sy_conn s) \<and> c_phase (sy_conn s1) \<noteq> CONN_CLOSED")
    case True
    with "1.IH" [OF s1 True] rest show ?thesis by simp
  next
    case False
    with rest s1 show ?thesis by auto
  qed
qed

lemma conn_step_leaves_building:
  assumes "conn_step cfg s = Some s'" "c_phase (sy_conn s) = CONN_BUILDING"
  shows "c_phase (sy_conn s') \<noteq> CONN_BUILDING"
proof -
  obtain p s1 where "step_response_build cfg s = Some (p, s1)" "s' = on_conn (\<lambda>c. c\<lparr>c_phase := p\<rparr>) s1"
    using assms by (auto simp: conn_step_def Option.bind_eq_Some_conv)
  with step_response_build_next show ?thesis by fastforce
qed

text \<open>
  C1: the connection is memory safe and total.  From any state that satisfies the invariant, whatever
  the socket delivers and takes, in whatever pieces, with errors, interrupted calls and the end of
  the stream at any point, \<open>connection_step_process\<close> returns without a fault: no assertion fails, no
  access leaves a buffer, no member of the union is read that was not written, no null pointer is
  called; the invariant holds again, for the same descriptor, and the connection is not left in the middle of building.
\<close>

theorem connection_never_faults:
  assumes "wf_config cfg" "conn_inv cfg slack fd s"
  shows "\<exists>s'. connection_step_process cfg s = Some s' \<and> conn_inv cfg slack fd s' \<and> c_phase (sy_conn s') \<noteq> CONN_BUILDING"
  using connection_step_process_ok [OF assms] connection_step_process_rests conn_step_leaves_building by fastforce

text \<open>A connection of the small profile that has just been accepted.\<close>

definition demo_conn :: "unit connection" where
  "demo_conn = \<lparr> c_fd = 5, c_phase = CONN_READING_REQUEST, c_keep_alive = False,
     c_arena = \<lparr> ar_base = 4096, ar_cap = 14336, ar_used = 10240 \<rparr>, c_req_mark = 10240,
     c_req_buf = demo_buffer 4096 [], c_resp_buf = demo_buffer 4096 [], c_body_dechunked = demo_buffer 2048 [],
     c_req = request_zero, c_body_start = 0, c_body_len = 0, c_body_coding = TE_NONE, c_producer = stream_zero,
     c_next_req_offset = 0, c_requests = 0, c_st = St_Send 0 \<rparr>"

definition demo_system :: "recv_event list \<Rightarrow> send_event list \<Rightarrow> unit system" where
  "demo_system ins outs = \<lparr> sy_conn = demo_conn, sy_router = \<lparr> ro_routes = demo_routes, ro_registry = None \<rparr>,
     sy_net = \<lparr> inbox = ins, outbox = outs, wire = [] \<rparr>, sy_world = demo_world \<rparr>"

lemma demo_routes_ok: "list_all (route_ok ok) demo_routes"
  by (simp add: demo_routes_def route_ok_def call_handler_def response_ok_def response_none_def wf_response_def arena_grows_refl)

lemma demo_system_inv: "conn_inv esp32_config 0 5 (demo_system ins outs)"
  by (simp add: conn_inv_def system_ok_def conn_mem_ok_def phase_ok_def demo_system_def demo_conn_def wf_demo_buffer
      demo_buffer_def [THEN arg_cong, of hb_cap] esp32_config_def scratch_ok_def wf_arena_def router_ok_def registry_ok_def demo_routes_ok
      world_ok_def demo_world_def sane_clock_def request_zero_def)

theorem connection_never_faults_witness:
  "\<exists>s'. connection_step_process esp32_config (demo_system [Recv_Data ''PUT /submit HTTP/1.1'', Recv_Error EINTR, Recv_Eof] [Send_Room 9]) = Some s'
     \<and> conn_inv esp32_config 0 5 s' \<and> c_phase (sy_conn s') \<noteq> CONN_BUILDING"
  by (rule connection_never_faults [OF wf_esp32_config demo_system_inv])

end
