(* ===== verification/Server_Safety.thy ===== *)
theory Server_Safety
  imports Server Connection_Safety
begin

text \<open>
  The slots of the server keep their invariant over every turn of its loop: a slot is free, or holds a
  connection that satisfies \<open>conn_inv\<close> on an open socket of its own.  The one fault that is left is the
  assertion of \<open>conn_phase_event\<close> for a connection that rests while it sends \<open>100 Continue\<close>.
\<close>

subsection \<open>A new connection\<close>

definition block_ok :: "http_buffer \<Rightarrow> nat \<Rightarrow> bool" where
  "block_ok b n \<longleftrightarrow> (case hb_bytes b of None \<Rightarrow> True | Some m \<Rightarrow> length m = n)"

definition region_ok :: "config \<Rightarrow> size_t \<Rightarrow> bool" where
  "region_ok cfg r \<longleftrightarrow> 0 < unat r \<and> 4 dvd unat r \<and> unat r + conn_arena_size cfg \<le> 2 ^ 63"

definition slot_blocks_ok :: "config \<Rightarrow> 'u connection \<Rightarrow> bool" where
  "slot_blocks_ok cfg c \<longleftrightarrow> block_ok (c_req_buf c) (max_request_len cfg) \<and> block_ok (c_resp_buf c) (response_buffer_size cfg)
     \<and> block_ok (c_body_dechunked c) (max_dechunk_size cfg)"

lemma conn_mem_blocks: "conn_mem_ok cfg fd c \<Longrightarrow> slot_blocks_ok cfg c"
  by (auto simp: conn_mem_ok_def slot_blocks_ok_def block_ok_def wf_buffer_def)

lemma buffer_alloc_ok:
  assumes "scratch_ok a" "unat (ar_used a) + n \<le> unat (ar_cap a)" "block_ok b n"
  obtains b' a' where "buffer_alloc a n b = Some (b', a')" "wf_buffer b'" "hb_cap b' = n" "hb_size b' = 0"
    "scratch_ok a'" "ar_base a' = ar_base a" "ar_cap a' = ar_cap a" "unat (ar_used a') = unat (ar_used a) + n"
proof -
  have wf: "wf_arena a" using assms(1) by (simp add: scratch_ok_def)
  have n: "unat (of_nat n :: size_t) = n"
    using assms(2) unat_lt_64 [of "ar_cap a"] by (simp add: unat_of_nat)
  have off: "alloc_offset a 0 = unat (ar_used a)" by (simp add: round_up_def)
  have "\<exists>p a'. arena_alloc a (of_nat n) (2 ^ 0) = Some (Some p, a')"
    using arena_alloc_eq [OF wf, of 0 "of_nat n"] assms(2) n off by simp
  then obtain p a' where p: "arena_alloc a (of_nat n) (2 ^ 0) = Some (Some p, a')" by blast
  note d = arena_alloc_SomeD [OF wf _ _ p]
  show thesis
  proof (rule that)
    show "buffer_alloc a n b = Some (\<lparr> hb_cap = n, hb_size = 0, hb_bytes = Some (block_bytes b n) \<rparr>, a')"
      using p by (simp add: buffer_alloc_def)
    show "wf_buffer \<lparr> hb_cap = n, hb_size = 0, hb_bytes = Some (block_bytes b n) \<rparr>"
      using assms(3) by (auto simp: wf_buffer_def block_bytes_def block_ok_def split: option.splits)
    show "scratch_ok a'" "ar_base a' = ar_base a" "ar_cap a' = ar_cap a" "unat (ar_used a') = unat (ar_used a) + n"
      using d assms(1) n off by (simp_all add: scratch_ok_def)
  qed simp_all
qed

lemma connection_init_ok:
  assumes "wf_config cfg" "region_ok cfg r" "0 < fd" "slot_blocks_ok cfg c"
  obtains c' where "connection_init cfg r (of_nat (conn_arena_size cfg)) fd c = Some c'" "conn_mem_ok cfg fd c'"
    "phase_ok cfg slack CONN_READING_REQUEST c'" "c_phase c' = CONN_READING_REQUEST" "c_fd c' = fd" "c_requests c' = 0"
    "live (c_req_buf c') = []" "c_keep_alive c' = c_keep_alive c" "c_body_len c' = c_body_len c"
    "c_next_req_offset c' = c_next_req_offset c"
proof -
  let ?cap = "of_nat (conn_arena_size cfg) :: size_t"
  let ?a = "\<lparr> ar_base = r, ar_cap = ?cap, ar_used = 0 \<rparr>"
  have size: "conn_arena_size cfg < 2 ^ 32" "0 < conn_arena_size cfg" using assms(1) by (auto simp: wf_config_def conn_arena_size_def)
  then have cap: "unat ?cap = conn_arena_size cfg" by (simp add: unat_of_nat)
  have "r \<noteq> 0" using assms(2) by (auto simp: region_ok_def)
  then have init: "arena_init r ?cap = Some ?a"
    using assms(2) cap size(2) by (auto simp: arena_init_def region_ok_def word_less_nat_alt fault_simps)
  have a: "scratch_ok ?a" using assms(2) cap by (simp add: scratch_ok_def wf_arena_def region_ok_def)
  have blocks: "block_ok (c_req_buf c) (max_request_len cfg)" "block_ok (c_resp_buf c) (response_buffer_size cfg)"
    "block_ok (c_body_dechunked c) (max_dechunk_size cfg)"
    using assms(4) by (simp_all add: slot_blocks_ok_def)
  note total = conn_arena_size_def [of cfg]
  have "unat (ar_used ?a) + max_request_len cfg \<le> unat (ar_cap ?a)" using cap total by simp
  then obtain b1 a1 where
    b1: "buffer_alloc ?a (max_request_len cfg) (c_req_buf c) = Some (b1, a1)" "wf_buffer b1" "hb_cap b1 = max_request_len cfg"
      "hb_size b1 = 0" and a1: "scratch_ok a1" "ar_cap a1 = ar_cap ?a" "unat (ar_used a1) = unat (ar_used ?a) + max_request_len cfg"
    by (rule buffer_alloc_ok [OF a _ blocks(1)])
  have "unat (ar_used a1) + response_buffer_size cfg \<le> unat (ar_cap a1)" using a1 cap total by simp
  then obtain b2 a2 where
    b2: "buffer_alloc a1 (response_buffer_size cfg) (c_resp_buf c) = Some (b2, a2)" "wf_buffer b2"
      "hb_cap b2 = response_buffer_size cfg" "hb_size b2 = 0"
    and a2: "scratch_ok a2" "ar_cap a2 = ar_cap a1" "unat (ar_used a2) = unat (ar_used a1) + response_buffer_size cfg"
    by (rule buffer_alloc_ok [OF a1(1) _ blocks(2)])
  have "unat (ar_used a2) + max_dechunk_size cfg \<le> unat (ar_cap a2)" using a1 a2 cap total by simp
  then obtain b3 a3 where
    b3: "buffer_alloc a2 (max_dechunk_size cfg) (c_body_dechunked c) = Some (b3, a3)" "wf_buffer b3"
      "hb_cap b3 = max_dechunk_size cfg" "hb_size b3 = 0"
    and a3: "scratch_ok a3" by (rule buffer_alloc_ok [OF a2(1) _ blocks(3)])
  have mark: "arena_mark a3 = Some (ar_used a3)" using a3 by (simp add: arena_mark_def scratch_ok_def wf_arena_def fault_simps)
  let ?c = "c\<lparr>c_req := request_zero, c_st := St_Send 0, c_fd := fd, c_req_buf := b1, c_resp_buf := b2, c_body_dechunked := b3,
      c_arena := a3, c_requests := 0, c_phase := CONN_READING_REQUEST, c_req_mark := ar_used a3\<rparr>"
  show thesis
  proof (rule that)
    show "connection_init cfg r ?cap fd c = Some ?c" using init b1 b2 b3 mark by (simp add: connection_init_def Let_def)
    show "conn_mem_ok cfg fd ?c" using assms(3) a3 b1 b2 b3 by (simp add: conn_mem_ok_def)
    show "live (c_req_buf ?c) = []" using b1(4) by (simp add: live_def split: option.splits)
  qed (simp_all add: phase_ok_def request_zero_def)
qed

subsection \<open>The slots\<close>

definition slot_fd :: "'u server \<Rightarrow> nat \<Rightarrow> int" where
  "slot_fd sv i = pf_fd (cs_polls (sv_clients sv) ! i)"

definition slot_ok :: "config \<Rightarrow> nat \<Rightarrow> 'u server \<Rightarrow> nat \<Rightarrow> bool" where
  "slot_ok cfg slack sv i \<longleftrightarrow> (let c = cs_conns (sv_clients sv) ! i in
     slot_blocks_ok cfg c \<and> region_ok cfg (cs_regions (sv_clients sv) ! (i - 1))
   \<and> (slot_fd sv i = -1 \<or> slot_fd sv i = c_fd c \<and> conn_mem_ok cfg (c_fd c) c \<and> phase_ok cfg slack (c_phase c) c
        \<and> map_of (sv_sockets sv) (c_fd c) \<noteq> None))"

text \<open>Two clients never share a descriptor.\<close>

definition server_inv :: "config \<Rightarrow> nat \<Rightarrow> 'u server \<Rightarrow> bool" where
  "server_inv cfg slack sv \<longleftrightarrow> (let cs = sv_clients sv; n = max_connections cfg in
     length (cs_polls cs) = n + 1 \<and> length (cs_conns cs) = n + 1 \<and> length (cs_regions cs) = n
   \<and> router_ok cfg slack (sv_router sv) \<and> world_ok slack (sv_world sv)
   \<and> (\<forall>i \<in> {1..n}. slot_ok cfg slack sv i)
   \<and> (\<forall>i \<in> {1..n}. \<forall>j \<in> {1..n}. slot_fd sv i = slot_fd sv j \<and> slot_fd sv i \<noteq> -1 \<longrightarrow> i = j))"

lemma server_invD:
  assumes "server_inv cfg slack sv"
  shows "length (cs_polls (sv_clients sv)) = max_connections cfg + 1" "length (cs_conns (sv_clients sv)) = max_connections cfg + 1"
    "length (cs_regions (sv_clients sv)) = max_connections cfg"
    "router_ok cfg slack (sv_router sv)" "world_ok slack (sv_world sv)"
    "i \<in> {1..max_connections cfg} \<Longrightarrow> slot_ok cfg slack sv i"
    "i \<in> {1..max_connections cfg} \<Longrightarrow> j \<in> {1..max_connections cfg} \<Longrightarrow> slot_fd sv i = slot_fd sv j \<Longrightarrow> slot_fd sv i \<noteq> -1 \<Longrightarrow> i = j"
proof -
  note inv = assms [unfolded server_inv_def Let_def]
  from inv show "length (cs_polls (sv_clients sv)) = max_connections cfg + 1" "length (cs_conns (sv_clients sv)) = max_connections cfg + 1"
    "length (cs_regions (sv_clients sv)) = max_connections cfg" "router_ok cfg slack (sv_router sv)" "world_ok slack (sv_world sv)"
    "i \<in> {1..max_connections cfg} \<Longrightarrow> slot_ok cfg slack sv i"
    "i \<in> {1..max_connections cfg} \<Longrightarrow> j \<in> {1..max_connections cfg} \<Longrightarrow> slot_fd sv i = slot_fd sv j \<Longrightarrow> slot_fd sv i \<noteq> -1 \<Longrightarrow> i = j"
    by blast+
qed

lemma slot_system_inv:
  assumes "server_inv cfg slack sv" "i \<in> {1..max_connections cfg}" "slot_fd sv i \<noteq> -1"
  obtains net where "map_of (sv_sockets sv) (c_fd (cs_conns (sv_clients sv) ! i)) = Some net"
    "conn_inv cfg slack (slot_fd sv i) (slot_system i net sv)" "slot_fd sv i = c_fd (cs_conns (sv_clients sv) ! i)" "0 < slot_fd sv i"
proof -
  note inv = server_invD [OF assms(1)]
  from inv(6) [OF assms(2)] assms(3) obtain net where net: "map_of (sv_sockets sv) (c_fd (cs_conns (sv_clients sv) ! i)) = Some net"
    and c: "slot_fd sv i = c_fd (cs_conns (sv_clients sv) ! i)" "conn_mem_ok cfg (slot_fd sv i) (cs_conns (sv_clients sv) ! i)"
      "phase_ok cfg slack (c_phase (cs_conns (sv_clients sv) ! i)) (cs_conns (sv_clients sv) ! i)"
    by (auto simp: slot_ok_def Let_def)
  from inv(4,5) c have "conn_inv cfg slack (slot_fd sv i) (slot_system i net sv)"
    by (simp add: conn_inv_def system_ok_def slot_system_def)
  with net c show thesis by (intro that) (simp_all add: conn_mem_ok_def)
qed

text \<open>What one slot does leaves the others alone.\<close>

lemma server_inv_update:
  assumes "server_inv cfg slack sv" "i \<in> {1..max_connections cfg}"
    and len: "length (cs_polls (sv_clients sv')) = length (cs_polls (sv_clients sv))"
      "length (cs_conns (sv_clients sv')) = length (cs_conns (sv_clients sv))"
      "cs_regions (sv_clients sv') = cs_regions (sv_clients sv)"
    and env: "router_ok cfg slack (sv_router sv')" "world_ok slack (sv_world sv')"
    and others: "\<And>j. j \<noteq> i \<Longrightarrow> slot_fd sv' j = slot_fd sv j \<and> cs_conns (sv_clients sv') ! j = cs_conns (sv_clients sv) ! j"
    and socks: "\<And>j. j \<in> {1..max_connections cfg} \<Longrightarrow> j \<noteq> i \<Longrightarrow> slot_fd sv j \<noteq> -1 \<Longrightarrow> map_of (sv_sockets sv) (slot_fd sv j) \<noteq> None
      \<Longrightarrow> map_of (sv_sockets sv') (slot_fd sv j) \<noteq> None"
    and here: "slot_ok cfg slack sv' i"
    and fresh: "slot_fd sv' i = -1 \<or> slot_fd sv' i = slot_fd sv i
      \<or> (\<forall>j \<in> {1..max_connections cfg}. j \<noteq> i \<longrightarrow> slot_fd sv j \<noteq> slot_fd sv' i)"
  shows "server_inv cfg slack sv'"
proof -
  note inv = server_invD [OF assms(1)]
  have ok: "slot_ok cfg slack sv' j" if j: "j \<in> {1..max_connections cfg}" for j
  proof (cases "j = i")
    case True
    with here show ?thesis by simp
  next
    case False
    note old = inv(6) [OF j, unfolded slot_ok_def Let_def] and o = others [OF False]
    show ?thesis
    proof (cases "slot_fd sv j = -1")
      case True
      with old o len(3) show ?thesis by (simp add: slot_ok_def)
    next
      case open_fd: False
      then have "map_of (sv_sockets sv) (slot_fd sv j) \<noteq> None" using old by auto
      from socks [OF j False open_fd this] open_fd old o len(3) show ?thesis by (simp add: slot_ok_def)
    qed
  qed
  have uniq: "a = b" if "a \<in> {1..max_connections cfg}" "b \<in> {1..max_connections cfg}"
    "slot_fd sv' a = slot_fd sv' b" "slot_fd sv' a \<noteq> -1" for a b
  proof (rule ccontr)
    assume ne: "a \<noteq> b"
    consider "a \<noteq> i" "b \<noteq> i" | "a = i" | "b = i" by blast
    then show False
    proof cases
      case 1
      with others [of a] others [of b] inv(7) [OF that(1,2)] that(3,4) ne show False by simp
    next
      case 2
      with ne others [of b] have "slot_fd sv b = slot_fd sv' i" "b \<noteq> i" using that(3) by auto
      with fresh inv(7) [of i b] assms(2) that(2,4) 2 ne show False by auto
    next
      case 3
      with ne others [of a] have "slot_fd sv a = slot_fd sv' i" "a \<noteq> i" using that(3) by auto
      with fresh inv(7) [of a i] assms(2) that 3 ne show False by auto
    qed
  qed
  show ?thesis
    unfolding server_inv_def Let_def
    by (intro conjI ballI impI; (simp only: len inv(1-3) env | blast intro: ok uniq))
qed

subsection \<open>One slot\<close>

lemma conn_phase_event_total:
  "p \<noteq> CONN_BUILDING \<Longrightarrow> (\<exists>ev. conn_phase_event p = Some ev) \<longleftrightarrow> p \<noteq> CONN_SENDING_100"
  by (cases p) (simp_all add: conn_phase_event_def)

lemma map_of_delete_other: "k \<noteq> k' \<Longrightarrow> map_of (AList.delete k al) k' = map_of al k'"
  by (simp add: delete_conv')

text \<open>A slot that is given back.\<close>

lemma connection_close_inv:
  assumes "server_inv cfg slack sv" "i \<in> {1..max_connections cfg}" "slot_fd sv i = fd" "fd \<noteq> -1"
  shows "\<exists>sv'. connection_close i sv = Some sv' \<and> server_inv cfg slack sv'"
proof -
  note inv = server_invD [OF assms(1)]
  have len: "i < length (cs_polls (sv_clients sv))" "i < length (cs_conns (sv_clients sv))" using inv(1,2) assms(2) by auto
  let ?sv = "on_clients (\<lambda>cs. cs\<lparr>cs_polls := (cs_polls cs)[i := (cs_polls cs ! i)\<lparr>pf_fd := -1\<rparr>]\<rparr>) (close_socket fd sv)"
  have "connection_close i sv = Some ?sv"
    using len assms(2,3) by (simp add: connection_close_def client_set_delete_def slot_fd_def close_socket_def fault_simps)
  moreover have "server_inv cfg slack ?sv"
  proof (rule server_inv_update [OF assms(1,2)])
    show "slot_ok cfg slack ?sv i"
      using len inv(6) [OF assms(2)] by (simp add: slot_ok_def slot_fd_def close_socket_def Let_def)
    show "slot_fd ?sv i = -1 \<or> slot_fd ?sv i = slot_fd sv i
      \<or> (\<forall>j \<in> {1..max_connections cfg}. j \<noteq> i \<longrightarrow> slot_fd sv j \<noteq> slot_fd ?sv i)"
      using len(1) by (simp add: slot_fd_def close_socket_def)
    show "map_of (sv_sockets ?sv) (slot_fd sv j) \<noteq> None"
      if "j \<in> {1..max_connections cfg}" "j \<noteq> i" "slot_fd sv j \<noteq> -1" "map_of (sv_sockets sv) (slot_fd sv j) \<noteq> None" for j
    proof -
      have "slot_fd sv j \<noteq> fd" using inv(7) [OF that(1) assms(2)] that(2,3) assms(3) by metis
      with that(4) show ?thesis by (simp add: close_socket_def map_of_delete_other)
    qed
  qed (use inv in \<open>simp_all add: close_socket_def slot_fd_def\<close>)
  ultimately show ?thesis by blast
qed

lemma slot_process_cases:
  assumes "wf_config cfg" "server_inv cfg slack sv" "i \<in> {1..max_connections cfg}" "slot_fd sv i \<noteq> -1"
    "map_of (sv_sockets sv) (slot_fd sv i) = Some net"
  shows "\<exists>s. connection_step_process cfg (slot_system i net sv) = Some s
    \<and> (if c_phase (sy_conn s) = CONN_SENDING_100 then slot_process cfg i sv = None
       else \<exists>sv'. slot_process cfg i sv = Some sv' \<and> server_inv cfg slack sv')"
proof -
  note inv = server_invD [OF assms(2)]
  obtain net' where n: "map_of (sv_sockets sv) (c_fd (cs_conns (sv_clients sv) ! i)) = Some net'"
    "conn_inv cfg slack (slot_fd sv i) (slot_system i net' sv)" "slot_fd sv i = c_fd (cs_conns (sv_clients sv) ! i)" "0 < slot_fd sv i"
    by (rule slot_system_inv [OF assms(2-4)])
  have net: "net' = net" using n(1,3) assms(5) by simp
  let ?fd = "slot_fd sv i"
  obtain s where s: "connection_step_process cfg (slot_system i net sv) = Some s" "conn_inv cfg slack ?fd s"
    using connection_step_process_ok [OF assms(1) n(2)] net by blast
  have building: "c_phase (sy_conn s) \<noteq> CONN_BUILDING"
    using connection_step_process_rests [OF s(1)] conn_step_leaves_building by fastforce
  have c: "conn_mem_ok cfg ?fd (sy_conn s)" "phase_ok cfg slack (c_phase (sy_conn s)) (sy_conn s)"
    "router_ok cfg slack (sy_router s)" "world_ok slack (sy_world s)"
    using s(2) by (simp_all add: conn_inv_def system_ok_def)
  then have fd: "c_fd (sy_conn s) = ?fd" by (simp add: conn_mem_ok_def)
  have len: "i < length (cs_polls (sv_clients sv))" "i < length (cs_conns (sv_clients sv))" using inv(1,2) assms(3) by auto
  have region: "region_ok cfg (cs_regions (sv_clients sv) ! (i - 1))" using inv(6) [OF assms(3)] by (simp add: slot_ok_def Let_def)
  show ?thesis
  proof (cases "c_phase (sy_conn s) = CONN_SENDING_100")
    case True
    then have "conn_phase_event (c_phase (sy_conn s)) = None" by (simp add: conn_phase_event_def)
    then have "slot_process cfg i sv = None" using s(1) n(1) net by (simp add: slot_process_def Let_def)
    with True s(1) show ?thesis by simp
  next
    case False
    then obtain ev where ev: "conn_phase_event (c_phase (sy_conn s)) = Some ev"
      using conn_phase_event_total [OF building] by blast
    let ?sv1 = "on_clients (\<lambda>cs. cs\<lparr>cs_polls := (cs_polls cs)[i := (cs_polls cs ! i)\<lparr>pf_events := ev\<rparr>]\<rparr>) (slot_store i ?fd s sv)"
    have proc: "slot_process cfg i sv = (if c_phase (sy_conn s) = CONN_CLOSED then connection_close i ?sv1 else Some ?sv1)"
      using s(1) n(1,3) net ev by (simp add: slot_process_def Let_def)
    have fds: "slot_fd ?sv1 j = slot_fd sv j" for j
      using len(1) by (cases "j = i") (simp_all add: slot_fd_def slot_store_def)
    have conns: "cs_conns (sv_clients ?sv1) ! i = sy_conn s" using len(2) by (simp add: slot_store_def)
    have socks: "map_of (sv_sockets ?sv1) k = (if k = ?fd then Some (sy_net s) else map_of (sv_sockets sv) k)" for k
      by (simp add: slot_store_def update_conv')
    have slot1: "slot_ok cfg slack ?sv1 i"
      using c fd region conns fds socks conn_mem_blocks by (auto simp: slot_ok_def Let_def slot_store_def)
    have inv1: "server_inv cfg slack ?sv1"
      by (rule server_inv_update [OF assms(2,3)]) (use c(3,4) slot1 fds socks in \<open>simp_all add: slot_store_def\<close>)
    show ?thesis
    proof (cases "c_phase (sy_conn s) = CONN_CLOSED")
      case open_slot: False
      with proc inv1 s(1) False show ?thesis by simp
    next
      case True
      obtain sv2 where "connection_close i ?sv1 = Some sv2" "server_inv cfg slack sv2"
        using connection_close_inv [OF inv1 assms(3) fds assms(4)] by blast
      with True proc s(1) False show ?thesis by simp
    qed
  qed
qed

subsection \<open>New clients\<close>

lemma server_inv_same:
  assumes "server_inv cfg slack sv" "length (cs_polls (sv_clients sv')) = length (cs_polls (sv_clients sv))"
    "cs_conns (sv_clients sv') = cs_conns (sv_clients sv)" "cs_regions (sv_clients sv') = cs_regions (sv_clients sv)"
    "sv_router sv' = sv_router sv" "sv_world sv' = sv_world sv"
    and fds: "\<And>i. i \<in> {1..max_connections cfg} \<Longrightarrow> slot_fd sv' i = slot_fd sv i"
    and socks: "\<And>i. i \<in> {1..max_connections cfg} \<Longrightarrow> slot_fd sv i \<noteq> -1 \<Longrightarrow> map_of (sv_sockets sv) (slot_fd sv i) \<noteq> None
      \<Longrightarrow> map_of (sv_sockets sv') (slot_fd sv i) \<noteq> None"
  shows "server_inv cfg slack sv'"
proof -
  note inv = server_invD [OF assms(1)]
  have ok: "slot_ok cfg slack sv' i" if i: "i \<in> {1..max_connections cfg}" for i
    using inv(6) [OF i] socks [OF i] fds [OF i] assms(3,4) by (auto simp: slot_ok_def Let_def)
  have uniq: "a = b" if "a \<in> {1..max_connections cfg}" "b \<in> {1..max_connections cfg}"
    "slot_fd sv' a = slot_fd sv' b" "slot_fd sv' a \<noteq> -1" for a b
    using inv(7) [OF that(1,2)] that(3,4) fds [OF that(1)] fds [OF that(2)] by simp
  show ?thesis
    unfolding server_inv_def Let_def
    by (intro conjI ballI impI; (simp only: assms(2-6) inv(1-5) | blast intro: ok uniq))
qed

definition accept_ok :: "'u server \<Rightarrow> accept_event \<Rightarrow> bool" where
  "accept_ok sv ev \<longleftrightarrow> (case ev of Accept_Fails \<Rightarrow> True
     | Accepted fd nonblocking net \<Rightarrow> 0 < fd \<and> map_of (sv_sockets sv) fd = None)"

lemma close_socket_inv:
  assumes "server_inv cfg slack sv" "\<And>i. i \<in> {1..max_connections cfg} \<Longrightarrow> slot_fd sv i \<noteq> fd"
  shows "server_inv cfg slack (close_socket fd sv)"
proof (rule server_inv_same [OF assms(1)])
  fix i assume i: "i \<in> {1..max_connections cfg}" and "map_of (sv_sockets sv) (slot_fd sv i) \<noteq> None"
  then show "map_of (sv_sockets (close_socket fd sv)) (slot_fd sv i) \<noteq> None"
    using assms(2) [OF i] by (simp add: close_socket_def map_of_delete_other)
qed (simp_all add: close_socket_def slot_fd_def)

lemma add_to_client_set_loop_ok:
  assumes "wf_config cfg" "server_inv cfg slack sv" "0 < fd" "map_of (sv_sockets sv) fd \<noteq> None"
    "\<And>i. i \<in> {1..max_connections cfg} \<Longrightarrow> slot_fd sv i \<noteq> fd" "1 \<le> i"
  shows "\<exists>sv'. add_to_client_set_loop cfg fd i sv = Some sv' \<and> server_inv cfg slack sv'"
  using assms
proof (induction cfg fd i sv rule: add_to_client_set_loop.induct)
  case (1 cfg fd i sv)
  note inv = server_invD [OF "1.prems"(2)]
  show ?case
  proof (cases "i \<le> max_connections cfg")
    case False
    with close_socket_inv [OF "1.prems"(2,5)] show ?thesis by (subst add_to_client_set_loop.simps) simp
  next
    case le: True
    then have i: "i \<in> {1..max_connections cfg}" using "1.prems"(6) by simp
    have len: "i < length (cs_polls (sv_clients sv)) \<and> i < length (cs_conns (sv_clients sv)) \<and> i - 1 < length (cs_regions (sv_clients sv))"
      using inv(1-3) i by auto
    show ?thesis
    proof (cases "slot_fd sv i = -1")
      case False
      then have taken: "pf_fd (cs_polls (sv_clients sv) ! i) \<noteq> -1" by (simp add: slot_fd_def)
      have "\<exists>sv'. add_to_client_set_loop cfg fd (i + 1) sv = Some sv' \<and> server_inv cfg slack sv'"
        using "1.IH" [OF le refl require_eq [OF len] taken "1.prems"(1-5)] by simp
      with le len taken show ?thesis by (subst add_to_client_set_loop.simps) (simp add: Let_def)
    next
      case free: True
      have s: "slot_blocks_ok cfg (cs_conns (sv_clients sv) ! i)" "region_ok cfg (cs_regions (sv_clients sv) ! (i - 1))"
        using inv(6) [OF i] by (simp_all add: slot_ok_def Let_def)
      obtain c where c: "connection_init cfg (cs_regions (sv_clients sv) ! (i - 1)) (of_nat (conn_arena_size cfg)) fd (cs_conns (sv_clients sv) ! i) = Some c"
        "conn_mem_ok cfg fd c" "phase_ok cfg slack CONN_READING_REQUEST c" "c_phase c = CONN_READING_REQUEST" "c_fd c = fd"
        by (rule connection_init_ok [OF "1.prems"(1) s(2) "1.prems"(3) s(1)])
      let ?sv = "sv\<lparr>sv_clients := (sv_clients sv)\<lparr>
            cs_polls := (cs_polls (sv_clients sv))[i := \<lparr> pf_fd = fd, pf_events = POLLIN, pf_revents = 0 \<rparr>],
            cs_conns := (cs_conns (sv_clients sv))[i := c]\<rparr>\<rparr>"
      have "add_to_client_set_loop cfg fd i sv = Some ?sv"
        using le len free c(1) by (subst add_to_client_set_loop.simps) (simp add: Let_def slot_fd_def)
      moreover have "server_inv cfg slack ?sv"
      proof (rule server_inv_update [OF "1.prems"(2) i])
        show "slot_ok cfg slack ?sv i"
          using c(2-5) len s(2) "1.prems"(4) conn_mem_blocks [OF c(2)] by (simp add: slot_ok_def slot_fd_def)
        show "slot_fd ?sv i = -1 \<or> slot_fd ?sv i = slot_fd sv i
          \<or> (\<forall>j \<in> {1..max_connections cfg}. j \<noteq> i \<longrightarrow> slot_fd sv j \<noteq> slot_fd ?sv i)"
          using len "1.prems"(5) by (simp add: slot_fd_def)
      qed (use inv(4,5) in \<open>simp_all add: slot_fd_def\<close>)
      ultimately show ?thesis by blast
    qed
  qed
qed

lemma client_set_add_new_ok:
  assumes "wf_config cfg" "server_inv cfg slack sv" "accept_ok sv ev"
  shows "\<exists>sv'. client_set_add_new cfg ev sv = Some sv' \<and> server_inv cfg slack sv'"
proof (cases ev)
  case Accept_Fails
  with assms(2) show ?thesis by (simp add: client_set_add_new_def)
next
  case (Accepted fd nonblocking net)
  with assms(3) have fd: "0 < fd" "map_of (sv_sockets sv) fd = None" by (simp_all add: accept_ok_def)
  let ?sv = "sv\<lparr>sv_sockets := AList.update fd net (sv_sockets sv)\<rparr>"
  have inv: "server_inv cfg slack ?sv"
    by (rule server_inv_same [OF assms(2)]) (simp_all add: slot_fd_def update_conv')
  have fresh: "slot_fd ?sv i \<noteq> fd" if i: "i \<in> {1..max_connections cfg}" for i
  proof
    assume "slot_fd ?sv i = fd"
    then have eq: "slot_fd sv i = fd" by (simp add: slot_fd_def)
    with server_invD(6) [OF assms(2) i] fd show False by (auto simp: slot_ok_def Let_def)
  qed
  have open_socket: "map_of (sv_sockets ?sv) fd \<noteq> None" by (simp add: update_conv')
  from add_to_client_set_loop_ok [OF assms(1) inv fd(1) open_socket fresh, of 1] close_socket_inv [OF inv fresh]
  show ?thesis using Accepted by (auto simp: client_set_add_new_def add_to_client_set_def Let_def)
qed

lemma store_revents_inv:
  assumes "server_inv cfg slack sv" "length rs = max_connections cfg + 1"
  shows "server_inv cfg slack (on_clients (store_revents rs) sv)"
  by (rule server_inv_same [OF assms(1)]) (use server_invD(1) [OF assms(1)] assms(2) in \<open>simp_all add: store_revents_def slot_fd_def\<close>)

lemma server_admit_ok:
  assumes "wf_config cfg" "server_inv cfg slack sv" "length rs = max_connections cfg + 1" "accept_ok sv ev"
  shows "\<exists>sv'. server_admit cfg rs ev sv = Some sv' \<and> server_inv cfg slack sv'"
proof -
  let ?sv = "on_clients (store_revents rs) sv"
  have inv: "server_inv cfg slack ?sv" by (rule store_revents_inv [OF assms(2,3)])
  have "accept_ok ?sv ev" using assms(4) by (simp add: accept_ok_def split: accept_event.splits)
  moreover have "cs_polls (sv_clients ?sv) \<noteq> []" using server_invD(1) [OF inv] by auto
  ultimately show ?thesis using client_set_add_new_ok [OF assms(1) inv] inv
    by (simp add: server_admit_def Let_def fault_simps)
qed

lemma slot_turn_cases:
  assumes "wf_config cfg" "server_inv cfg slack sv" "i \<in> {1..max_connections cfg}"
  shows "(\<exists>sv'. slot_turn cfg i sv = Some sv' \<and> server_inv cfg slack sv')
    \<or> (slot_turn cfg i sv = None \<and> (\<exists>net s. map_of (sv_sockets sv) (slot_fd sv i) = Some net
         \<and> connection_step_process cfg (slot_system i net sv) = Some s \<and> c_phase (sy_conn s) = CONN_SENDING_100))"
proof -
  note inv = server_invD [OF assms(2)]
  have len: "i < length (cs_polls (sv_clients sv)) \<and> i < length (cs_conns (sv_clients sv))" using inv(1,2) assms(3) by auto
  have turn: "slot_turn cfg i sv = (if slot_fd sv i < 0 then Some sv
     else if pf_revents (cs_polls (sv_clients sv) ! i) AND (POLLIN OR POLLHUP OR POLLOUT) = 0 then Some sv
     else slot_process cfg i sv)"
    using len by (simp add: slot_turn_def Let_def slot_fd_def)
  show ?thesis
  proof (cases "slot_fd sv i < 0")
    case True
    with turn assms(2) show ?thesis by simp
  next
    case False
    then have "slot_fd sv i \<noteq> -1" by simp
    from slot_system_inv [OF assms(2,3) this] obtain net where "map_of (sv_sockets sv) (slot_fd sv i) = Some net" by metis
    from slot_process_cases [OF assms(1-3) \<open>slot_fd sv i \<noteq> -1\<close> this] this turn False assms(2) show ?thesis
      by (auto split: if_splits)
  qed
qed

lemma slots_loop_cases:
  assumes "wf_config cfg" "server_inv cfg slack sv" "1 \<le> a"
  shows "(\<exists>sv'. slots_loop cfg [a..<max_connections cfg + 1] sv = Some sv' \<and> server_inv cfg slack sv')
    \<or> (slots_loop cfg [a..<max_connections cfg + 1] sv = None
       \<and> (\<exists>j sv1 net s. a \<le> j \<and> j \<le> max_connections cfg \<and> slots_loop cfg [a..<j] sv = Some sv1
         \<and> map_of (sv_sockets sv1) (slot_fd sv1 j) = Some net
         \<and> connection_step_process cfg (slot_system j net sv1) = Some s \<and> c_phase (sy_conn s) = CONN_SENDING_100))"
  using assms(2,3)
proof (induction "max_connections cfg + 1 - a" arbitrary: a sv)
  case 0
  then show ?case by simp
next
  case (Suc n)
  have "a < max_connections cfg + 1" using Suc.hyps(2) by simp
  then have a: "a \<in> {1..max_connections cfg}" "[a..<max_connections cfg + 1] = a # [a + 1..<max_connections cfg + 1]"
    using Suc.prems(2) by (simp, simp only: upt_conv_Cons Suc_eq_plus1)
  from slot_turn_cases [OF assms(1) Suc.prems(1) a(1)] show ?case
  proof (elim disjE exE conjE)
    fix sv' assume turn: "slot_turn cfg a sv = Some sv'" and inv: "server_inv cfg slack sv'"
    have more: "slots_loop cfg [a..<j] sv = slots_loop cfg [a + 1..<j] sv'" if "a + 1 \<le> j" for j
      using that turn by (simp add: upt_conv_Cons)
    have rest: "slots_loop cfg [a..<max_connections cfg + 1] sv = slots_loop cfg [a + 1..<max_connections cfg + 1] sv'"
      using a(1) by (intro more) simp
    have "n = max_connections cfg + 1 - (a + 1)" "1 \<le> a + 1" using Suc.hyps(2) by simp_all
    from Suc.hyps(1) [OF this(1) inv this(2)] show ?thesis
      unfolding rest by (elim disjE exE conjE) (blast, metis more le_trans le_add1)
  next
    fix net s assume "slot_turn cfg a sv = None" "map_of (sv_sockets sv) (slot_fd sv a) = Some net"
      "connection_step_process cfg (slot_system a net sv) = Some s" "c_phase (sy_conn s) = CONN_SENDING_100"
    then have "slots_loop cfg [a..<max_connections cfg + 1] sv = None \<and> a \<le> a \<and> a \<le> max_connections cfg
      \<and> slots_loop cfg [a..<a] sv = Some sv \<and> map_of (sv_sockets sv) (slot_fd sv a) = Some net
      \<and> connection_step_process cfg (slot_system a net sv) = Some s \<and> c_phase (sy_conn s) = CONN_SENDING_100"
      using a by (simp only: a(2)) simp
    then show ?thesis by blast
  qed
qed

text \<open>
  A turn of the server keeps the invariant of its slots.  Whatever \<open>poll\<close> reports and \<open>accept\<close> delivers,
  a turn that \<open>poll\<close> does not end either leaves a state where again every slot is free or holds a sound
  connection on an open socket of its own, or it stops at an assertion, and that happens only at a slot whose
  connection rests while it sends \<open>100 Continue\<close>.
\<close>

lemma server_turn_cases:
  assumes "wf_config cfg" "server_inv cfg slack sv" "length rs = max_connections cfg + 1" "accept_ok sv ev"
  shows "case server_turn cfg (Some rs) ev sv of Some (Inr sv') \<Rightarrow> server_inv cfg slack sv' | Some (Inl _) \<Rightarrow> False
    | None \<Rightarrow> \<exists>sv0 j sv1 net s. server_admit cfg rs ev sv = Some sv0 \<and> 1 \<le> j \<and> j \<le> max_connections cfg
        \<and> slots_loop cfg [1..<j] sv0 = Some sv1 \<and> map_of (sv_sockets sv1) (slot_fd sv1 j) = Some net
        \<and> connection_step_process cfg (slot_system j net sv1) = Some s \<and> c_phase (sy_conn s) = CONN_SENDING_100"
proof -
  obtain sv0 where sv0: "server_admit cfg rs ev sv = Some sv0" "server_inv cfg slack sv0"
    using server_admit_ok [OF assms] by blast
  have turn: "server_turn cfg (Some rs) ev sv = map_option Inr (slots_loop cfg [1..<max_connections cfg + 1] sv0)"
    by (simp add: server_turn_def sv0(1) map_conv_bind_option comp_def)
  note cases = slots_loop_cases [OF assms(1) sv0(2), of 1]
  show ?thesis
  proof (cases "slots_loop cfg [1..<max_connections cfg + 1] sv0")
    case None
    with cases obtain j sv1 net s where "1 \<le> j" "j \<le> max_connections cfg" "slots_loop cfg [1..<j] sv0 = Some sv1"
      "map_of (sv_sockets sv1) (slot_fd sv1 j) = Some net"
      "connection_step_process cfg (slot_system j net sv1) = Some s" "c_phase (sy_conn s) = CONN_SENDING_100" by fastforce
    with None sv0(1) show ?thesis unfolding turn by (simp only: option.case option.map) blast
  next
    case (Some sv')
    with cases show ?thesis unfolding turn by simp
  qed
qed

subsection \<open>A server for examples\<close>

definition demo_slot :: "pollfd" where
  "demo_slot = \<lparr> pf_fd = -1, pf_events = 0, pf_revents = 0 \<rparr>"

text \<open>One client in the first slot, the others free.\<close>

definition demo_server :: "recv_event list \<Rightarrow> send_event list \<Rightarrow> unit server" where
  "demo_server ins outs = \<lparr> sv_clients = \<lparr>
       cs_polls = [demo_slot\<lparr>pf_fd := 3\<rparr>, demo_slot\<lparr>pf_fd := 5\<rparr>, demo_slot, demo_slot, demo_slot],
       cs_conns = replicate 5 demo_conn, cs_regions = [4096, 20480, 36864, 53248] \<rparr>,
     sv_router = \<lparr> ro_routes = demo_routes, ro_registry = None \<rparr>,
     sv_sockets = [(5, \<lparr> inbox = ins, outbox = outs, wire = [] \<rparr>)], sv_world = demo_world \<rparr>"

lemma demo_conn_ok: "conn_mem_ok esp32_config 5 demo_conn" "phase_ok esp32_config 0 (c_phase demo_conn) demo_conn"
    "router_ok esp32_config 0 \<lparr> ro_routes = demo_routes, ro_registry = None \<rparr>" "world_ok 0 demo_world" "c_fd demo_conn = 5"
  using demo_system_inv [of "[]" "[]"] by (simp_all add: conn_inv_def system_ok_def demo_system_def) (simp add: demo_conn_def)

end
