(* ===== verification/Streaming.thy ===== *)
theory Streaming
  imports Server_Safety
begin

text \<open>
  The bytes of a streamed response.  \<open>pulls\<close> is what the producer hands out, \<open>framed\<close> the text the
  pieces become, \<open>unsent\<close> the part of the staged bytes still to send: whatever the socket takes at each
  wake-up, the wire and the unsent bytes together are the head followed by the frames of the pieces,
  in order and without a gap.  A stream that yields is resumed by a later turn of the server, and until then the
  other connections may change everything but the connection and what its wire holds.
\<close>

subsection \<open>What a producer hands out\<close>

text \<open>The pieces of successive pulls with room for \<open>cap\<close> bytes, and whether the last one found the end.\<close>

inductive pulls :: "'u stream \<Rightarrow> nat \<Rightarrow> 'u world \<Rightarrow> string list \<Rightarrow> bool \<Rightarrow> 'u world \<Rightarrow> bool" for p cap where
  no_pull: "pulls p cap w [] False w"
| pull_piece: "st_pull p = Some f \<Longrightarrow> f (st_ctx p) cap w = (Some bs, w1) \<Longrightarrow> bs \<noteq> [] \<Longrightarrow> pulls p cap w1 bss e w2
    \<Longrightarrow> pulls p cap w (bs # bss) e w2"
| pull_end: "st_pull p = Some f \<Longrightarrow> f (st_ctx p) cap w = (Some [], w1) \<Longrightarrow> pulls p cap w [] True w1"

inductive_cases pulls_ConsE: "pulls p cap w (bs # bss) e w2"

text \<open>
  The pieces over several calls of the stream loop, given the world at the start and at the end of each: the
  calls before the last have not found the end, or nothing is pulled in those that follow.
\<close>

inductive handed_out :: "'u stream \<Rightarrow> nat \<Rightarrow> ('u world \<times> 'u world) list \<Rightarrow> string list \<Rightarrow> bool \<Rightarrow> bool" for p cap where
  no_call: "handed_out p cap [] [] False"
| next_call: "handed_out p cap ws pieces False \<Longrightarrow> pulls p cap w next_pieces fin w'
    \<Longrightarrow> handed_out p cap (ws @ [(w, w')]) (pieces @ next_pieces) fin"
| after_end: "handed_out p cap ws pieces True \<Longrightarrow> handed_out p cap (ws @ [(w, w)]) pieces True"

definition frames :: "string list \<Rightarrow> chunk list" where
  "frames pieces = map (\<lambda>bs. (show_hex (length bs), bs)) pieces"

definition framed :: "string list \<Rightarrow> bool \<Rightarrow> string" where
  "framed pieces fin = concat (map chunk_text (frames pieces)) @ (if fin then ''0'' @ crlf @ crlf else [])"

lemma framed_Nil [simp]: "framed [] False = []"
  by (simp add: framed_def frames_def)

lemma framed_Cons: "framed (bs # bss) fin = chunk_text (show_hex (length bs), bs) @ framed bss fin"
  by (simp add: framed_def frames_def)

lemma framed_append: "framed (pieces @ ps) fin = framed pieces False @ framed ps fin"
  by (simp add: framed_def frames_def)

lemma payload_frames: "payload (frames pieces) = concat pieces"
  by (simp add: payload_def frames_def comp_def)

lemma framed_text: "framed pieces True = chunked_text (frames pieces) ''0''"
  by (simp add: framed_def chunked_text_def)

lemma frames_wf: "list_all (\<lambda>bs. bs \<noteq> [] \<and> length bs \<le> max_body_len cfg) pieces \<Longrightarrow> list_all (chunk_wf cfg) (frames pieces)"
  by (auto simp: frames_def list_all_iff intro: chunk_wf_frame)

definition unsent :: "'u connection \<Rightarrow> string" where
  "unsent c = (case c_st c of
     St_Stream sp n \<Rightarrow> if sp = STREAM_PULL \<or> sp = STREAM_DONE then [] else drop n (live (c_resp_buf c))
   | _ \<Rightarrow> [])"

subsection \<open>One turn\<close>

lemma stream_send_bytes:
  assumes "system_ok cfg slack fd s" "n < hb_size (c_resp_buf (sy_conn s))" "stream_send a b n s = Some r"
  shows "case r of
     Inr s' \<Rightarrow> sy_world s' = sy_world s \<and> c_producer (sy_conn s') = c_producer (sy_conn s) \<and> c_st (sy_conn s') = St_Stream b 0
       \<and> c_req (sy_conn s') = c_req (sy_conn s) \<and> c_requests (sy_conn s') = c_requests (sy_conn s)
       \<and> wire (sy_net s') = wire (sy_net s) @ drop n (live (c_resp_buf (sy_conn s)))
   | Inl (p, s') \<Rightarrow> c_requests (sy_conn s') = c_requests (sy_conn s)
       \<and> (\<exists>k. wire (sy_net s') = wire (sy_net s) @ take k (drop n (live (c_resp_buf (sy_conn s))))
            \<and> (p = CONN_CLOSED \<or> p = CONN_SENDING_RESPONSE_STREAM \<and> sy_world s' = sy_world s
                 \<and> c_producer (sy_conn s') = c_producer (sy_conn s) \<and> c_st (sy_conn s') = St_Stream a (n + k)
                 \<and> c_resp_buf (sy_conn s') = c_resp_buf (sy_conn s) \<and> c_req (sy_conn s') = c_req (sy_conn s)))"
proof -
  have buf: "wf_buffer (c_resp_buf (sy_conn s))" "0 \<le> c_fd (sy_conn s)" using assms(1) by (auto elim!: system_okE)
  obtain st n' net where r: "response_send (c_fd (sy_conn s)) (c_resp_buf (sy_conn s)) n (sy_net s) = Some (st, n', net)"
    "n \<le> n'" "wire net = wire (sy_net s) @ take (n' - n) (drop n (live (c_resp_buf (sy_conn s))))"
    "st = SEND_OK \<longleftrightarrow> n' = hb_size (c_resp_buf (sy_conn s))"
    using response_send_spec [OF buf(1) assms(2) buf(2), of "sy_net s"] by metis
  let ?s = "(on_conn (\<lambda>c. c\<lparr>c_st := St_Stream a n'\<rparr>) s)\<lparr>sy_net := net\<rparr>"
  have abort: "wire (sy_net s') = wire net \<and> c_requests (sy_conn s') = c_requests (sy_conn s) \<and> p = CONN_CLOSED"
    if "stream_abort ?s = Some (p, s')" for p s'
    using that by (auto simp: stream_abort_def Option.bind_eq_Some_conv stream_release_def Let_def)
  show ?thesis
  proof (cases st)
    case SEND_OK
    then have "wire net = wire (sy_net s) @ drop n (live (c_resp_buf (sy_conn s)))" using r(3,4) length_live [OF buf(1)] by simp
    with SEND_OK r(1) assms(3) show ?thesis by (auto simp: stream_send_def stream_handle_response_def)
  next
    case SEND_HAS_MORE
    with r assms(3) show ?thesis by (auto simp: stream_send_def stream_handle_response_def intro!: exI [of _ "n' - n"])
  qed (use r(1,3) assms(3) abort in \<open>auto simp: stream_send_def stream_handle_response_def intro!: exI [of _ "n' - n"]\<close>)
qed

lemma stage_frame_bytes:
  assumes "stage_frame f m q s = Some r" "case f of Some k \<Rightarrow> starts m t \<and> k = length t | None \<Rightarrow> True"
  shows "case r of
     Inr s' \<Rightarrow> sy_net s' = sy_net s \<and> sy_world s' = sy_world s \<and> c_producer (sy_conn s') = c_producer (sy_conn s)
       \<and> c_st (sy_conn s') = St_Stream q 0 \<and> live (c_resp_buf (sy_conn s')) = t
       \<and> c_req (sy_conn s') = c_req (sy_conn s) \<and> c_requests (sy_conn s') = c_requests (sy_conn s)
   | Inl (p, s') \<Rightarrow> sy_net s' = sy_net s \<and> p = CONN_CLOSED \<and> c_requests (sy_conn s') = c_requests (sy_conn s)"
proof (cases f)
  case None
  with assms(1) show ?thesis
    by (auto simp: stage_frame_def Let_def stream_abort_def Option.bind_eq_Some_conv stream_release_def)
next
  case (Some k)
  with assms show ?thesis by (auto simp: stage_frame_def Let_def set_resp_size_def live_def starts_def)
qed

lemma stream_pull_bytes:
  assumes "system_ok cfg slack fd s" "stream_pull cfg s = Some r"
  shows "case r of
     Inr s' \<Rightarrow> (\<exists>f bs. st_pull (c_producer (sy_conn s)) = Some f
       \<and> f (st_ctx (c_producer (sy_conn s))) (stream_chunk_size cfg) (sy_world s) = (Some bs, sy_world s')
       \<and> sy_net s' = sy_net s \<and> c_producer (sy_conn s') = c_producer (sy_conn s)
       \<and> c_req (sy_conn s') = c_req (sy_conn s) \<and> c_requests (sy_conn s') = c_requests (sy_conn s)
       \<and> (if bs = [] then c_st (sy_conn s') = St_Stream STREAM_TRAILER 0 \<and> live (c_resp_buf (sy_conn s')) = ''0'' @ crlf @ crlf
          else c_st (sy_conn s') = St_Stream STREAM_DRAIN 0
            \<and> live (c_resp_buf (sy_conn s')) = chunk_text (show_hex (length bs), bs)))
   | Inl (p, s') \<Rightarrow> sy_net s' = sy_net s \<and> p = CONN_CLOSED \<and> c_requests (sy_conn s') = c_requests (sy_conn s)"
proof -
  let ?p = "c_producer (sy_conn s)"
  obtain pull where pull: "st_pull ?p = Some pull"
    using assms(2) by (auto simp: stream_pull_def Let_def Option.bind_eq_Some_conv)
  obtain pulled w where w: "pull (st_ctx ?p) (stream_chunk_size cfg) (sy_world s) = (pulled, w)" by fastforce
  let ?s = "s\<lparr>sy_world := w\<rparr>"
  obtain m where m: "hb_bytes (c_resp_buf (sy_conn s)) = Some m" "length m = response_buffer_size cfg"
    "hb_cap (c_resp_buf (sy_conn s)) = response_buffer_size cfg"
    using assms(1) by (auto elim!: system_okE wf_bufferE)
  let ?cap = "response_buffer_size cfg"
  show ?thesis
  proof (cases pulled)
    case None
    with assms(2) pull w show ?thesis
      by (auto simp: stream_pull_def Let_def stream_abort_def Option.bind_eq_Some_conv stream_release_def)
  next
    case (Some bs)
    show ?thesis
    proof (cases "bs = []")
      case True
      obtain m' where m': "chunk_frame_last m ?cap = Some (if 5 \<le> ?cap then Some 5 else None, m')"
        "5 \<le> ?cap \<longrightarrow> starts m' (''0'' @ crlf @ crlf)"
        using chunk_frame_last_spec [of ?cap m] m(2) by (auto simp: writes_def)
      have "stage_frame (if 5 \<le> ?cap then Some 5 else None) m' STREAM_TRAILER ?s = Some r"
        using assms(2) pull w Some True m m'(1) by (auto simp: stream_pull_def Let_def Option.bind_eq_Some_conv)
      from stage_frame_bytes [OF this, of "''0'' @ crlf @ crlf"] m'(2) pull w Some True show ?thesis
        by (cases r) (auto split: if_splits)
    next
      case False
      let ?t = "chunk_text (show_hex (length bs), bs)"
      obtain m' where m': "chunk_frame bs (length bs) m ?cap = Some (if length ?t \<le> ?cap then Some (length ?t) else None, m')"
        "length ?t \<le> ?cap \<longrightarrow> starts m' ?t"
        using chunk_frame_spec [of ?cap m "length bs" bs] m(2) by (auto simp: writes_def)
      have "stage_frame (if length ?t \<le> ?cap then Some (length ?t) else None) m' STREAM_DRAIN ?s = Some r"
        using assms(2) pull w Some False m m'(1) by (auto simp: stream_pull_def Let_def Option.bind_eq_Some_conv)
      from stage_frame_bytes [OF this, of ?t] m'(2) pull w Some False show ?thesis
        by (cases r) (auto split: if_splits)
    qed
  qed
qed

subsection \<open>The loop\<close>

text \<open>The end of the producer has been found.\<close>

definition past_end :: "stream_phase \<Rightarrow> bool" where
  "past_end sp \<longleftrightarrow> sp = STREAM_TRAILER \<or> sp = STREAM_DONE"

lemma past_end_simps [simp]:
  "past_end STREAM_TRAILER" "past_end STREAM_DONE" "\<not> past_end STREAM_HEADER" "\<not> past_end STREAM_PULL" "\<not> past_end STREAM_DRAIN"
  by (simp_all add: past_end_def)

text \<open>What a run of the stream loop from \<open>s\<close> has put on the wire when it leaves with phase \<open>p\<close> at \<open>s'\<close>.\<close>

definition stream_outcome :: "stream_phase \<Rightarrow> 'u system \<Rightarrow> string list \<Rightarrow> bool \<Rightarrow> 'u world \<Rightarrow> conn_phase \<Rightarrow> 'u system \<Rightarrow> bool" where
  "stream_outcome sp s pieces fin w p s' \<longleftrightarrow>
     (let text = wire (sy_net s) @ unsent (sy_conn s) @ framed pieces fin in
      if p = CONN_SENDING_RESPONSE_STREAM then
        wire (sy_net s') @ unsent (sy_conn s') = text \<and> sy_world s' = w
        \<and> c_producer (sy_conn s') = c_producer (sy_conn s) \<and> c_requests (sy_conn s') = c_requests (sy_conn s)
        \<and> c_req (sy_conn s') = c_req (sy_conn s)
        \<and> (\<exists>sp' n'. c_st (sy_conn s') = St_Stream sp' n' \<and> (past_end sp' \<longleftrightarrow> fin \<or> past_end sp))
      else if c_requests (sy_conn s') = c_requests (sy_conn s) + 1 then
        (fin \<or> past_end sp) \<and> wire (sy_net s') = text
      else p = CONN_CLOSED \<and> c_requests (sy_conn s') = c_requests (sy_conn s) \<and> (\<exists>rest. wire (sy_net s') @ rest = text))"

lemma request_done_bytes:
  assumes "request_done cfg s = Some (p, s')"
  shows "c_requests (sy_conn s') = c_requests (sy_conn s) + 1" "sy_net s' = sy_net s" "p \<noteq> CONN_SENDING_RESPONSE_STREAM"
  using assms by (auto simp: request_done_def Let_def connection_reset_def Option.bind_eq_Some_conv split: if_splits)

lemma stream_turn_by_phase:
  assumes "rl_method (rq_line (c_req (sy_conn s))) \<noteq> HEAD" "c_st (sy_conn s) = St_Stream sp n"
  shows "stream_turn cfg s = (case sp of
     STREAM_HEADER \<Rightarrow> stream_send STREAM_HEADER STREAM_PULL n s
   | STREAM_PULL \<Rightarrow> stream_pull cfg s
   | STREAM_DRAIN \<Rightarrow> stream_send STREAM_DRAIN STREAM_PULL n s
   | STREAM_TRAILER \<Rightarrow> stream_send STREAM_TRAILER STREAM_DONE n s
   | STREAM_DONE \<Rightarrow> map_option Inl (request_done cfg (stream_release s)))"
  using assms(1) by (simp add: stream_turn_def st_stream_def assms(2))

text \<open>A turn that leaves the loop, one that pulls, and one that has sent what was staged.\<close>

lemma stream_leaves:
  assumes "system_ok cfg slack fd s" "rl_method (rq_line (c_req (sy_conn s))) \<noteq> HEAD" "c_st (sy_conn s) = St_Stream sp n"
    and n: "sp \<noteq> STREAM_PULL \<Longrightarrow> sp \<noteq> STREAM_DONE \<Longrightarrow> n < hb_size (c_resp_buf (sy_conn s))"
    and r: "stream_turn cfg s = Some (Inl (p, s'))"
  shows "stream_outcome sp s [] False (sy_world s) p s'"
proof -
  note turn = stream_turn_by_phase [OF assms(2,3), of cfg]
  show ?thesis
  proof (cases "sp = STREAM_PULL \<or> sp = STREAM_DONE")
    case True
    then show ?thesis
    proof
      assume sp: "sp = STREAM_PULL"
      with turn r have "stream_pull cfg s = Some (Inl (p, s'))" by simp
      from stream_pull_bytes [OF assms(1) this] show ?thesis by (simp add: stream_outcome_def unsent_def assms(3) sp)
    next
      assume sp: "sp = STREAM_DONE"
      with turn r have "request_done cfg (stream_release s) = Some (p, s')"
        by (cases "request_done cfg (stream_release s)") simp_all
      from request_done_bytes [OF this] show ?thesis
        by (simp add: stream_outcome_def unsent_def assms(3) sp stream_release_def Let_def)
    qed
  next
    case False
    then obtain a b where "stream_send a b n s = Some (Inl (p, s'))" and a: "a = sp"
      using turn r by (cases sp) auto
    from stream_send_bytes [OF assms(1) n this(1)] False obtain k where
      k: "c_requests (sy_conn s') = c_requests (sy_conn s)"
      "wire (sy_net s') = wire (sy_net s) @ take k (drop n (live (c_resp_buf (sy_conn s))))"
      "p = CONN_CLOSED \<or> p = CONN_SENDING_RESPONSE_STREAM \<and> sy_world s' = sy_world s
         \<and> c_producer (sy_conn s') = c_producer (sy_conn s) \<and> c_st (sy_conn s') = St_Stream sp (n + k)
         \<and> c_resp_buf (sy_conn s') = c_resp_buf (sy_conn s) \<and> c_req (sy_conn s') = c_req (sy_conn s)"
      by (auto simp: a)
    let ?u = "drop n (live (c_resp_buf (sy_conn s)))"
    have u: "unsent (sy_conn s) = ?u" using False by (simp add: unsent_def assms(3))
    have split: "take k ?u @ drop k ?u = ?u" by (rule append_take_drop_id)
    from k(3) show ?thesis
    proof
      assume "p = CONN_CLOSED"
      with k(1,2) u split show ?thesis by (auto simp: stream_outcome_def intro!: exI [of _ "drop k ?u"])
    next
      assume p: "p = CONN_SENDING_RESPONSE_STREAM \<and> sy_world s' = sy_world s
         \<and> c_producer (sy_conn s') = c_producer (sy_conn s) \<and> c_st (sy_conn s') = St_Stream sp (n + k)
         \<and> c_resp_buf (sy_conn s') = c_resp_buf (sy_conn s) \<and> c_req (sy_conn s') = c_req (sy_conn s)"
      then have "unsent (sy_conn s') = drop k ?u" using False by (simp add: unsent_def add.commute)
      with p k(1,2) u split show ?thesis by (simp add: stream_outcome_def)
    qed
  qed
qed

lemma stream_pull_goes_on:
  assumes "system_ok cfg slack fd s" "rl_method (rq_line (c_req (sy_conn s))) \<noteq> HEAD" "c_st (sy_conn s) = St_Stream STREAM_PULL n"
    and pulled: "stream_pull cfg s = Some (Inr t)"
    and ih: "\<And>sp n. rl_method (rq_line (c_req (sy_conn t))) \<noteq> HEAD \<Longrightarrow> c_st (sy_conn t) = St_Stream sp n \<Longrightarrow> \<exists>pieces fin w. pulls (c_producer (sy_conn t)) (stream_chunk_size cfg) (sy_world t) pieces fin w
    \<and> (past_end sp \<longrightarrow> pieces = [] \<and> \<not> fin) \<and> stream_outcome sp t pieces fin w p s'"
  shows "\<exists>pieces fin w. pulls (c_producer (sy_conn s)) (stream_chunk_size cfg) (sy_world s) pieces fin w
    \<and> (past_end STREAM_PULL \<longrightarrow> pieces = [] \<and> \<not> fin) \<and> stream_outcome STREAM_PULL s pieces fin w p s'"
proof -
  from stream_pull_bytes [OF assms(1) pulled] obtain f bs where
    f: "st_pull (c_producer (sy_conn s)) = Some f"
      "f (st_ctx (c_producer (sy_conn s))) (stream_chunk_size cfg) (sy_world s) = (Some bs, sy_world t)"
    and t: "sy_net t = sy_net s" "c_producer (sy_conn t) = c_producer (sy_conn s)" "c_req (sy_conn t) = c_req (sy_conn s)"
      "c_requests (sy_conn t) = c_requests (sy_conn s)"
    and st: "if bs = [] then c_st (sy_conn t) = St_Stream STREAM_TRAILER 0 \<and> live (c_resp_buf (sy_conn t)) = ''0'' @ crlf @ crlf
      else c_st (sy_conn t) = St_Stream STREAM_DRAIN 0
        \<and> live (c_resp_buf (sy_conn t)) = chunk_text (show_hex (length bs), bs)" by auto
  have none: "unsent (sy_conn s) = []" by (simp add: unsent_def assms(3))
  have meth: "rl_method (rq_line (c_req (sy_conn t))) \<noteq> HEAD" using assms(2) t(3) by simp
  show ?thesis
  proof (cases "bs = []")
    case True
    with st have tr: "c_st (sy_conn t) = St_Stream STREAM_TRAILER 0" "unsent (sy_conn t) = ''0'' @ crlf @ crlf"
      by (simp_all add: unsent_def)
    obtain pieces fin w where p: "pulls (c_producer (sy_conn t)) (stream_chunk_size cfg) (sy_world t) pieces fin w"
      "pieces = [] \<and> \<not> fin" "stream_outcome STREAM_TRAILER t pieces fin w p s'"
      using ih [OF meth tr(1)] past_end_simps(1) by blast
    have "w = sy_world t" using p(1,2) by (auto elim: pulls.cases)
    with f True have "pulls (c_producer (sy_conn s)) (stream_chunk_size cfg) (sy_world s) [] True w" by (auto intro: pulls.pull_end)
    moreover have "stream_outcome STREAM_PULL s [] True w p s'"
      using p(2,3) tr(2) none t by (auto simp: stream_outcome_def framed_def frames_def Let_def split: if_splits)
    ultimately show ?thesis using past_end_simps(4) by blast
  next
    case False
    with st have tr: "c_st (sy_conn t) = St_Stream STREAM_DRAIN 0" "unsent (sy_conn t) = chunk_text (show_hex (length bs), bs)"
      by (simp_all add: unsent_def)
    obtain pieces fin w where p: "pulls (c_producer (sy_conn t)) (stream_chunk_size cfg) (sy_world t) pieces fin w"
      "stream_outcome STREAM_DRAIN t pieces fin w p s'"
      using ih [OF meth tr(1)] by blast
    have "pulls (c_producer (sy_conn s)) (stream_chunk_size cfg) (sy_world s) (bs # pieces) fin w" using pulls.pull_piece [OF f False] p(1) t(2) by simp
    moreover have "stream_outcome STREAM_PULL s (bs # pieces) fin w p s'"
      using p(2) tr(2) none t by (auto simp: stream_outcome_def framed_Cons Let_def split: if_splits)
    ultimately show ?thesis using past_end_simps(4) by blast
  qed
qed

lemma stream_send_goes_on:
  assumes "system_ok cfg slack fd s" "rl_method (rq_line (c_req (sy_conn s))) \<noteq> HEAD" "c_st (sy_conn s) = St_Stream sp n" "sp \<noteq> STREAM_PULL"
    and n: "sp \<noteq> STREAM_PULL \<Longrightarrow> sp \<noteq> STREAM_DONE \<Longrightarrow> n < hb_size (c_resp_buf (sy_conn s))"
    and r: "stream_turn cfg s = Some (Inr t)"
    and ih: "\<And>sp n. rl_method (rq_line (c_req (sy_conn t))) \<noteq> HEAD \<Longrightarrow> c_st (sy_conn t) = St_Stream sp n \<Longrightarrow> \<exists>pieces fin w. pulls (c_producer (sy_conn t)) (stream_chunk_size cfg) (sy_world t) pieces fin w
    \<and> (past_end sp \<longrightarrow> pieces = [] \<and> \<not> fin) \<and> stream_outcome sp t pieces fin w p s'"
  shows "\<exists>pieces fin w. pulls (c_producer (sy_conn s)) (stream_chunk_size cfg) (sy_world s) pieces fin w
    \<and> (past_end sp \<longrightarrow> pieces = [] \<and> \<not> fin) \<and> stream_outcome sp s pieces fin w p s'"
proof -
  note turn = stream_turn_by_phase [OF assms(2,3), of cfg]
  from assms(4) have sp: "sp = STREAM_HEADER \<or> sp = STREAM_DRAIN \<or> sp = STREAM_TRAILER"
    using turn r by (cases sp; cases "request_done cfg (stream_release s)") simp_all
  then obtain a b where send: "stream_send a b n s = Some (Inr t)"
    and b: "b = (if sp = STREAM_TRAILER then STREAM_DONE else STREAM_PULL)"
    using turn r by auto
  from stream_send_bytes [OF assms(1) n send] sp have
    t: "sy_world t = sy_world s" "c_producer (sy_conn t) = c_producer (sy_conn s)" "c_st (sy_conn t) = St_Stream b 0"
      "c_req (sy_conn t) = c_req (sy_conn s)" "c_requests (sy_conn t) = c_requests (sy_conn s)"
      "wire (sy_net t) = wire (sy_net s) @ drop n (live (c_resp_buf (sy_conn s)))" by auto
  have u: "unsent (sy_conn s) = drop n (live (c_resp_buf (sy_conn s)))" "unsent (sy_conn t) = []"
    using sp b t(3) assms(3) by (auto simp: unsent_def)
  have meth: "rl_method (rq_line (c_req (sy_conn t))) \<noteq> HEAD" using assms(2) t(4) by simp
  obtain pieces fin w where p: "pulls (c_producer (sy_conn t)) (stream_chunk_size cfg) (sy_world t) pieces fin w"
    "past_end b \<longrightarrow> pieces = [] \<and> \<not> fin" "stream_outcome b t pieces fin w p s'"
    using ih [OF meth t(3)] by blast
  have pe: "past_end b \<longleftrightarrow> past_end sp" using sp b by auto
  have "stream_outcome sp s pieces fin w p s'"
    using p(3) t u pe by (auto simp: stream_outcome_def Let_def split: if_splits)
  with p(1,2) t(1,2) pe show ?thesis by auto
qed

lemma step_response_send_stream_bytes:
  assumes "system_ok cfg slack fd s" "phase_ok cfg slack CONN_SENDING_RESPONSE_STREAM (sy_conn s)"
    "rl_method (rq_line (c_req (sy_conn s))) \<noteq> HEAD" "c_st (sy_conn s) = St_Stream sp n"
    "step_response_send_stream cfg s = Some (p, s')"
  shows "\<exists>pieces fin w. pulls (c_producer (sy_conn s)) (stream_chunk_size cfg) (sy_world s) pieces fin w
    \<and> (past_end sp \<longrightarrow> pieces = [] \<and> \<not> fin) \<and> stream_outcome sp s pieces fin w p s'"
  using assms
proof (induction cfg s arbitrary: sp n rule: step_response_send_stream.induct)
  case (1 cfg s)
  obtain r where r: "stream_turn cfg s = Some r" and ok: "turn_ok cfg slack fd (Some r)"
    using stream_turn_ok [OF "1.prems"(1,2)] by (cases "stream_turn cfg s") (auto simp: turn_ok_def)
  have n: "n < hb_size (c_resp_buf (sy_conn s))" if "sp \<noteq> STREAM_PULL" "sp \<noteq> STREAM_DONE"
    using "1.prems"(2,4) that by (auto simp: phase_ok_def split: if_splits)
  have go: "step_response_send_stream cfg s = (case r of Inl out \<Rightarrow> Some out | Inr t \<Rightarrow> step_response_send_stream cfg t)"
    by (subst step_response_send_stream.simps) (simp add: r)
  show ?case
  proof (cases r)
    case (Inl out)
    with go "1.prems"(5) r have out: "stream_turn cfg s = Some (Inl (p, s'))" by simp
    from stream_leaves [OF "1.prems"(1,3,4) n out] pulls.no_pull show ?thesis by blast
  next
    case (Inr t)
    have ok': "system_ok cfg slack fd t" "phase_ok cfg slack CONN_SENDING_RESPONSE_STREAM (sy_conn t)"
      using ok by (simp_all add: turn_ok_def Inr)
    have step: "step_response_send_stream cfg t = Some (p, s')" using go "1.prems"(5) by (simp add: Inr)
    note ih = "1.IH" [OF r Inr ok' _ _ step]
    show ?thesis
    proof (cases "sp = STREAM_PULL")
      case True
      then have "stream_pull cfg s = Some (Inr t)"
        using r Inr stream_turn_by_phase [OF "1.prems"(3,4), of cfg] by simp
      from stream_pull_goes_on [OF "1.prems"(1,3) _ this ih] "1.prems"(4) True show ?thesis by simp
    next
      case False
      from stream_send_goes_on [OF "1.prems"(1,3,4) False n r [unfolded Inr] ih] show ?thesis .
    qed
  qed
qed

text \<open>The pieces of a producer that keeps its contract are chunks the server's own decoder accepts.\<close>

lemma pulls_pieces:
  assumes "pulls p cap w pieces fin w'" "stream_ok ok p" "ok w"
  shows "list_all (\<lambda>bs. bs \<noteq> [] \<and> length bs \<le> cap) pieces \<and> ok w'"
  using assms
proof (induction rule: pulls.induct)
  case (pull_piece f w bs w1 bss e w2)
  have src: "byte_source ok (f (st_ctx p)) (case st_cleanup p of Some f \<Rightarrow> f (st_ctx p) | None \<Rightarrow> id)"
    using pull_piece.prems(1) pull_piece.hyps(1) by (simp add: stream_ok_def)
  have "ok w1" "length bs \<le> cap"
    using byte_source.pull_keeps [OF src pull_piece.prems(2) pull_piece.hyps(2)]
      byte_source.pull_room [OF src pull_piece.prems(2) pull_piece.hyps(2)] .
  with pull_piece.IH pull_piece.prems(1) pull_piece.hyps(3) show ?case by simp
next
  case (pull_end f w w1)
  have src: "byte_source ok (f (st_ctx p)) (case st_cleanup p of Some f \<Rightarrow> f (st_ctx p) | None \<Rightarrow> id)"
    using pull_end.prems(1) pull_end.hyps(1) by (simp add: stream_ok_def)
  from byte_source.pull_keeps [OF src pull_end.prems(2) pull_end.hyps(2)] show ?case by simp
qed simp

text \<open>
  A stream that yields and is resumed, any number of times.  \<open>ws\<close> are the worlds at the start and at the end of
  each call; in between the other connections run, so that world, router and the events of the socket are
  other ones, in the contract of the environment.
\<close>

inductive stream_run :: "config \<Rightarrow> nat \<Rightarrow> 'u system \<Rightarrow> ('u world \<times> 'u world) list \<Rightarrow> 'u system \<Rightarrow> bool" for cfg slack s0 where
  stream_begun: "stream_run cfg slack s0 [] s0"
| stream_resumed: "stream_run cfg slack s0 ws s
    \<Longrightarrow> step_response_send_stream cfg s = Some (CONN_SENDING_RESPONSE_STREAM, s1)
    \<Longrightarrow> sy_conn s2 = sy_conn s1 \<Longrightarrow> wire (sy_net s2) = wire (sy_net s1)
    \<Longrightarrow> router_ok cfg slack (sy_router s2) \<Longrightarrow> world_ok slack (sy_world s2)
    \<Longrightarrow> stream_run cfg slack s0 (ws @ [(sy_world s, sy_world s1)]) s2"

text \<open>What holds between the calls of such a run.\<close>

definition stream_so_far :: "config \<Rightarrow> nat \<Rightarrow> int \<Rightarrow> 'u system \<Rightarrow> ('u world \<times> 'u world) list \<Rightarrow> 'u system \<Rightarrow> bool" where
  "stream_so_far cfg slack fd s0 ws s \<longleftrightarrow>
     system_ok cfg slack fd s \<and> phase_ok cfg slack CONN_SENDING_RESPONSE_STREAM (sy_conn s)
     \<and> c_producer (sy_conn s) = c_producer (sy_conn s0) \<and> c_req (sy_conn s) = c_req (sy_conn s0)
     \<and> c_requests (sy_conn s) = c_requests (sy_conn s0)
     \<and> (\<exists>pieces fin sp n. handed_out (c_producer (sy_conn s0)) (stream_chunk_size cfg) ws pieces fin
          \<and> list_all (\<lambda>bs. bs \<noteq> [] \<and> length bs \<le> stream_chunk_size cfg) pieces
          \<and> c_st (sy_conn s) = St_Stream sp n \<and> (past_end sp \<longleftrightarrow> fin)
          \<and> wire (sy_net s) @ unsent (sy_conn s) = wire (sy_net s0) @ unsent (sy_conn s0) @ framed pieces fin)"

text \<open>One more call of the loop.\<close>

lemma stream_call:
  assumes "stream_so_far cfg slack fd s0 ws s" "rl_method (rq_line (c_req (sy_conn s0))) \<noteq> HEAD"
  obtains p s' pieces fin w where "step_response_send_stream cfg s = Some (p, s')"
    "handed_out (c_producer (sy_conn s0)) (stream_chunk_size cfg) (ws @ [(sy_world s, w)]) pieces fin"
    "list_all (\<lambda>bs. bs \<noteq> [] \<and> length bs \<le> stream_chunk_size cfg) pieces"
    "system_ok cfg slack fd s'" "phase_ok cfg slack p (sy_conn s')"
    "if p = CONN_SENDING_RESPONSE_STREAM then
        wire (sy_net s') @ unsent (sy_conn s') = wire (sy_net s0) @ unsent (sy_conn s0) @ framed pieces fin
        \<and> sy_world s' = w \<and> c_producer (sy_conn s') = c_producer (sy_conn s0)
        \<and> c_requests (sy_conn s') = c_requests (sy_conn s0) \<and> c_req (sy_conn s') = c_req (sy_conn s0)
        \<and> (\<exists>sp n. c_st (sy_conn s') = St_Stream sp n \<and> (past_end sp \<longleftrightarrow> fin))
      else if c_requests (sy_conn s') = c_requests (sy_conn s0) + 1 then
        fin \<and> wire (sy_net s') = wire (sy_net s0) @ unsent (sy_conn s0) @ framed pieces fin
      else p = CONN_CLOSED \<and> (\<exists>rest. wire (sy_net s') @ rest = wire (sy_net s0) @ unsent (sy_conn s0) @ framed pieces fin)"
proof -
  let ?p = "c_producer (sy_conn s0)" and ?cap = "stream_chunk_size cfg"
  from assms(1) obtain pieces fin sp n where
    ok: "system_ok cfg slack fd s" "phase_ok cfg slack CONN_SENDING_RESPONSE_STREAM (sy_conn s)" and
    same: "c_producer (sy_conn s) = ?p" "c_req (sy_conn s) = c_req (sy_conn s0)" "c_requests (sy_conn s) = c_requests (sy_conn s0)" and
    out: "handed_out ?p ?cap ws pieces fin" and small: "list_all (\<lambda>bs. bs \<noteq> [] \<and> length bs \<le> ?cap) pieces" and
    st: "c_st (sy_conn s) = St_Stream sp n" "past_end sp \<longleftrightarrow> fin" and
    so_far: "wire (sy_net s) @ unsent (sy_conn s) = wire (sy_net s0) @ unsent (sy_conn s0) @ framed pieces fin"
    unfolding stream_so_far_def by blast
  obtain p s' where step: "step_response_send_stream cfg s = Some (p, s')" "system_ok cfg slack fd s'" "phase_ok cfg slack p (sy_conn s')"
    using step_response_send_stream_ok [OF ok] by (auto elim: step_okE)
  have meth: "rl_method (rq_line (c_req (sy_conn s))) \<noteq> HEAD" using assms(2) same(2) by simp
  obtain ps e w where r: "pulls ?p ?cap (sy_world s) ps e w" "past_end sp \<longrightarrow> ps = [] \<and> \<not> e" "stream_outcome sp s ps e w p s'"
    using step_response_send_stream_bytes [OF ok meth st(1) step(1)] same(1) by auto
  have so: "stream_ok (world_ok slack) ?p" "world_ok slack (sy_world s)"
    using ok st(1) same(1) by (auto simp: phase_ok_def elim!: system_okE)
  have small': "list_all (\<lambda>bs. bs \<noteq> [] \<and> length bs \<le> ?cap) (pieces @ ps)" using small pulls_pieces [OF r(1) so] by simp
  have out': "handed_out ?p ?cap (ws @ [(sy_world s, w)]) (pieces @ ps) (fin \<or> e)"
  proof (cases fin)
    case True
    with r(1,2) st(2) have "ps = []" "w = sy_world s" by (auto elim: pulls.cases)
    with handed_out.after_end out True show ?thesis by simp
  next
    case False
    with handed_out.next_call [OF _ r(1)] out show ?thesis by simp
  qed
  have all: "wire (sy_net s) @ unsent (sy_conn s) @ framed ps e = wire (sy_net s0) @ unsent (sy_conn s0) @ framed (pieces @ ps) (fin \<or> e)"
  proof (cases fin)
    case True
    with r(2) st(2) have "ps = []" "\<not> e" by simp_all
    with so_far True show ?thesis by simp
  next
    case False
    with so_far have "(wire (sy_net s) @ unsent (sy_conn s)) @ framed ps e
        = wire (sy_net s0) @ unsent (sy_conn s0) @ framed pieces False @ framed ps e" by simp
    with False show ?thesis by (simp add: framed_append [of pieces ps])
  qed
  show thesis
    by (rule that [OF step(1) out' small' step(2,3)])
      (use r(3) in \<open>simp add: stream_outcome_def Let_def all same st(2) split: if_splits; blast\<close>)
qed

lemma stream_run_so_far:
  assumes "stream_run cfg slack s0 ws s" "conn_inv cfg slack fd s0" "c_phase (sy_conn s0) = CONN_SENDING_RESPONSE_STREAM"
    "c_st (sy_conn s0) = St_Stream STREAM_HEADER 0" "rl_method (rq_line (c_req (sy_conn s0))) \<noteq> HEAD"
  shows "stream_so_far cfg slack fd s0 ws s"
  using assms(1)
proof induction
  case stream_begun
  have "handed_out (c_producer (sy_conn s0)) (stream_chunk_size cfg) [] [] False" by (rule handed_out.no_call)
  with assms(2-4) show ?case
    unfolding stream_so_far_def by (intro conjI exI [of _ "[]"] exI [of _ False]) (simp_all add: conn_inv_def)
next
  case (stream_resumed ws s s1 s2)
  obtain p s' pieces fin w where c: "step_response_send_stream cfg s = Some (p, s')"
    "handed_out (c_producer (sy_conn s0)) (stream_chunk_size cfg) (ws @ [(sy_world s, w)]) pieces fin"
    "list_all (\<lambda>bs. bs \<noteq> [] \<and> length bs \<le> stream_chunk_size cfg) pieces"
    "system_ok cfg slack fd s'" "phase_ok cfg slack p (sy_conn s')"
    "p = CONN_SENDING_RESPONSE_STREAM \<longrightarrow>
        wire (sy_net s') @ unsent (sy_conn s') = wire (sy_net s0) @ unsent (sy_conn s0) @ framed pieces fin
        \<and> sy_world s' = w \<and> c_producer (sy_conn s') = c_producer (sy_conn s0)
        \<and> c_requests (sy_conn s') = c_requests (sy_conn s0) \<and> c_req (sy_conn s') = c_req (sy_conn s0)
        \<and> (\<exists>sp n. c_st (sy_conn s') = St_Stream sp n \<and> (past_end sp \<longleftrightarrow> fin))"
    by (rule stream_call [OF stream_resumed.IH assms(5)]) (simp split: if_splits)
  with stream_resumed.hyps(2) have "p = CONN_SENDING_RESPONSE_STREAM" "s' = s1" by simp_all
  with c stream_resumed.hyps(3-6) show ?case unfolding stream_so_far_def by (auto simp: system_ok_def)
qed

text \<open>
  C14: a streamed response to a request other than \<open>HEAD\<close> reaches the client as one chunked body, given that a piece is no
  longer than the bodies the server accepts.  However often the stream yields and
  is resumed, however much the socket takes at each call and whatever the other connections do in between,
  what has been sent since the header is, in order and without a gap or a repetition, the head and
  the frames of the pieces the producer handed out: while the connection yields, wire and unsent bytes
  together are exactly that text; when the response counts as answered, the wire holds the head and
  a chunked body of the grammar the server's own decoder accepts, whose payload is the concatenation
  of all the pieces up to the end of the producer; and when it is aborted, the wire is a prefix.
\<close>

theorem streamed_response_is_chunked_body:
  assumes "conn_inv cfg slack fd s0" "c_phase (sy_conn s0) = CONN_SENDING_RESPONSE_STREAM"
    "c_st (sy_conn s0) = St_Stream STREAM_HEADER 0" "rl_method (rq_line (c_req (sy_conn s0))) \<noteq> HEAD"
    "stream_chunk_size cfg \<le> max_body_len cfg" "stream_run cfg slack s0 ws s"
  shows "\<exists>p s' pieces fin w. step_response_send_stream cfg s = Some (p, s')
    \<and> handed_out (c_producer (sy_conn s0)) (stream_chunk_size cfg) (ws @ [(sy_world s, w)]) pieces fin
    \<and> list_all (chunk_wf cfg) (frames pieces) \<and> payload (frames pieces) = concat pieces
    \<and> (if p = CONN_SENDING_RESPONSE_STREAM then
         wire (sy_net s') @ unsent (sy_conn s') = wire (sy_net s0) @ live (c_resp_buf (sy_conn s0)) @ framed pieces fin
         \<and> c_producer (sy_conn s') = c_producer (sy_conn s0) \<and> sy_world s' = w
       else if c_requests (sy_conn s') = c_requests (sy_conn s0) + 1 then
         fin \<and> wire (sy_net s') = wire (sy_net s0) @ live (c_resp_buf (sy_conn s0)) @ chunked_text (frames pieces) ''0''
         \<and> size_line_ok cfg ''0'' 0
       else p = CONN_CLOSED
         \<and> (\<exists>rest. wire (sy_net s') @ rest = wire (sy_net s0) @ live (c_resp_buf (sy_conn s0)) @ framed pieces fin))"
proof -
  have u: "unsent (sy_conn s0) = live (c_resp_buf (sy_conn s0))" by (simp add: unsent_def assms(3))
  show ?thesis
  proof (rule stream_call [OF stream_run_so_far [OF assms(6,1-4)] assms(4)])
    fix p s' pieces fin w
    assume c: "step_response_send_stream cfg s = Some (p, s')"
      "handed_out (c_producer (sy_conn s0)) (stream_chunk_size cfg) (ws @ [(sy_world s, w)]) pieces fin"
      "list_all (\<lambda>bs. bs \<noteq> [] \<and> length bs \<le> stream_chunk_size cfg) pieces"
    assume r: "if p = CONN_SENDING_RESPONSE_STREAM then
        wire (sy_net s') @ unsent (sy_conn s') = wire (sy_net s0) @ unsent (sy_conn s0) @ framed pieces fin
        \<and> sy_world s' = w \<and> c_producer (sy_conn s') = c_producer (sy_conn s0)
        \<and> c_requests (sy_conn s') = c_requests (sy_conn s0) \<and> c_req (sy_conn s') = c_req (sy_conn s0)
        \<and> (\<exists>sp n. c_st (sy_conn s') = St_Stream sp n \<and> (past_end sp \<longleftrightarrow> fin))
      else if c_requests (sy_conn s') = c_requests (sy_conn s0) + 1 then
        fin \<and> wire (sy_net s') = wire (sy_net s0) @ unsent (sy_conn s0) @ framed pieces fin
      else p = CONN_CLOSED \<and> (\<exists>rest. wire (sy_net s') @ rest = wire (sy_net s0) @ unsent (sy_conn s0) @ framed pieces fin)"
    from c(3) assms(5) have "list_all (\<lambda>bs. bs \<noteq> [] \<and> length bs \<le> max_body_len cfg) pieces" by (auto simp: list_all_iff)
    then have wf: "list_all (chunk_wf cfg) (frames pieces)" by (rule frames_wf)
    from r have "if p = CONN_SENDING_RESPONSE_STREAM then
         wire (sy_net s') @ unsent (sy_conn s') = wire (sy_net s0) @ live (c_resp_buf (sy_conn s0)) @ framed pieces fin
         \<and> c_producer (sy_conn s') = c_producer (sy_conn s0) \<and> sy_world s' = w
       else if c_requests (sy_conn s') = c_requests (sy_conn s0) + 1 then
         fin \<and> wire (sy_net s') = wire (sy_net s0) @ live (c_resp_buf (sy_conn s0)) @ chunked_text (frames pieces) ''0''
         \<and> size_line_ok cfg ''0'' 0
       else p = CONN_CLOSED
         \<and> (\<exists>rest. wire (sy_net s') @ rest = wire (sy_net s0) @ live (c_resp_buf (sy_conn s0)) @ framed pieces fin)"
      unfolding u using size_line_last by (auto simp: framed_text split: if_splits)
    with c(1,2) wf payload_frames show ?thesis by blast
  qed
qed

text \<open>A connection that is about to stream a file of five bytes.\<close>

definition demo_streaming :: "send_event list \<Rightarrow> unit system" where
  "demo_streaming outs = (demo_system [] outs)\<lparr>
     sy_conn := demo_conn\<lparr>c_phase := CONN_SENDING_RESPONSE_STREAM, c_st := St_Stream STREAM_HEADER 0,
       c_resp_buf := demo_buffer 4096 ''head'',
       c_producer := \<lparr> st_ctx = 3, st_pull = Some file_pull, st_cleanup = Some file_close \<rparr>\<rparr>,
     sy_world := demo_world\<lparr>w_fds := [(3, demo_file)]\<rparr>\<rparr>"

lemma demo_streaming_inv: "conn_inv esp32_config 0 5 (demo_streaming outs)"
proof -
  have "stream_ok (world_ok 0) (\<lparr> st_ctx = 3, st_pull = Some file_pull, st_cleanup = Some file_close \<rparr> :: unit stream)"
    using file_source.byte_source_axioms [of 0 3] by (simp add: stream_ok_def)
  with demo_conn_ok wf_demo_buffer [of "''head''" 4096] show ?thesis
    by (simp add: conn_inv_def system_ok_def conn_mem_ok_def phase_ok_def demo_streaming_def demo_system_def esp32_config_def)
      (simp add: demo_buffer_def world_ok_def demo_world_def sane_clock_def)
qed

text \<open>The socket takes two bytes of the head; later, in another world, it takes the rest and a part of the first chunk.\<close>

definition demo_yielded :: "send_event list \<Rightarrow> unit system" where
  "demo_yielded outs = (demo_streaming outs)\<lparr>
     sy_conn := (sy_conn (demo_streaming outs))\<lparr>c_st := St_Stream STREAM_HEADER 2\<rparr>,
     sy_net := \<lparr> inbox = [], outbox = outs, wire = ''he'' \<rparr>\<rparr>"

lemma demo_yields:
  "step_response_send_stream esp32_config (demo_streaming [Send_Room 2]) = Some (CONN_SENDING_RESPONSE_STREAM, demo_yielded [])"
proof -
  have "rd_range (''head'' @ replicate 4092 NUL) 0 4 = Some ''head''" by (simp add: rd_range_def)
  then have "response_send 5 (demo_buffer 4096 ''head'') 0 \<lparr> inbox = [], outbox = [Send_Room 2], wire = [] \<rparr>
      = Some (SEND_HAS_MORE, 2, \<lparr> inbox = [], outbox = [], wire = ''he'' \<rparr>)"
    by (simp add: response_send_def demo_buffer_def send_def numeral_eq_Suc)
  then have "stream_turn esp32_config (demo_streaming [Send_Room 2]) = Some (Inl (CONN_SENDING_RESPONSE_STREAM, demo_yielded []))"
    by (simp add: stream_turn_def st_stream_def stream_send_def stream_handle_response_def demo_streaming_def demo_yielded_def demo_system_def)
      (simp add: demo_conn_def)
  then show ?thesis by (subst step_response_send_stream.simps) simp
qed

lemma demo_resumed:
  "stream_run esp32_config 0 (demo_streaming [Send_Room 2]) [(sy_world (demo_streaming []), sy_world (demo_streaming []))]
     ((demo_yielded [Send_Room 2, Send_Room 3])\<lparr>sy_world := demo_world\<lparr>w_fds := [(3, demo_file), (4, demo_file)]\<rparr>\<rparr>)"
proof -
  have "world_ok 0 (demo_world\<lparr>w_fds := [(3, demo_file), (4, demo_file)]\<rparr>)" using demo_conn_ok(4) by (simp add: world_ok_def)
  moreover have "router_ok esp32_config 0 (sy_router (demo_streaming []))"
    using demo_conn_ok(3) by (simp add: demo_streaming_def demo_system_def)
  ultimately show ?thesis
    using stream_resumed [OF stream_begun demo_yields, of "(demo_yielded [Send_Room 2, Send_Room 3])\<lparr>sy_world := demo_world\<lparr>w_fds := [(3, demo_file), (4, demo_file)]\<rparr>\<rparr>" 0]
    by (simp add: demo_yielded_def demo_streaming_def demo_system_def)
qed

theorem streamed_response_is_chunked_body_witness:
  "\<exists>s. stream_run esp32_config 0 (demo_streaming [Send_Room 2]) [(sy_world (demo_streaming []), sy_world (demo_streaming []))] s
    \<and> wire (sy_net s) = ''he'' \<and> (\<exists>p s' pieces fin w. step_response_send_stream esp32_config s = Some (p, s')
    \<and> handed_out (c_producer (sy_conn (demo_streaming [Send_Room 2]))) (stream_chunk_size esp32_config)
        ([(sy_world (demo_streaming []), sy_world (demo_streaming []))] @ [(sy_world s, w)]) pieces fin
    \<and> list_all (chunk_wf esp32_config) (frames pieces) \<and> payload (frames pieces) = concat pieces
    \<and> (if p = CONN_SENDING_RESPONSE_STREAM then wire (sy_net s') @ unsent (sy_conn s') = ''head'' @ framed pieces fin
         \<and> c_producer (sy_conn s') = c_producer (sy_conn (demo_streaming [Send_Room 2])) \<and> sy_world s' = w
       else if c_requests (sy_conn s') = c_requests (sy_conn (demo_streaming [Send_Room 2])) + 1 then
         fin \<and> wire (sy_net s') = ''head'' @ chunked_text (frames pieces) ''0'' \<and> size_line_ok esp32_config ''0'' 0
       else p = CONN_CLOSED \<and> (\<exists>rest. wire (sy_net s') @ rest = ''head'' @ framed pieces fin)))"
proof -
  have start: "c_phase (sy_conn (demo_streaming [Send_Room 2])) = CONN_SENDING_RESPONSE_STREAM"
    "c_st (sy_conn (demo_streaming [Send_Room 2])) = St_Stream STREAM_HEADER 0"
    "rl_method (rq_line (c_req (sy_conn (demo_streaming [Send_Room 2])))) \<noteq> HEAD" "stream_chunk_size esp32_config \<le> max_body_len esp32_config"
    by (simp_all add: demo_streaming_def demo_conn_def request_zero_def request_line_zero_def esp32_config_def)
  have wire: "wire (sy_net (demo_streaming [Send_Room 2])) = []" "live (c_resp_buf (sy_conn (demo_streaming [Send_Room 2]))) = ''head''"
    by (simp_all add: demo_streaming_def demo_system_def demo_buffer_def live_def)
  show ?thesis
    by (rule exI, rule conjI [OF demo_resumed], rule conjI)
      (simp add: demo_yielded_def,
       rule streamed_response_is_chunked_body [OF demo_streaming_inv start demo_resumed, unfolded wire append_Nil])
qed

end
