(* ===== verification/Head_Decision.thy ===== *)
theory Head_Decision
  imports Server_Safety
begin

text \<open>
  What \<open>step_header_read\<close> decides about a request head: \<open>head_error\<close> is the rule book (the \<open>Host\<close> header,
  the transfer codings, the one framing of the body, bodies of \<open>HEAD\<close>), and the code is shown to follow
  it, on every branch.
\<close>

subsection \<open>The rules\<close>

definition te_headers :: "header list \<Rightarrow> header list" where
  "te_headers hs = filter (\<lambda>h. ascii_ieq (h_key h) ''transfer-encoding'') hs"

definition only_chunked_value :: "string \<Rightarrow> bool" where
  "only_chunked_value v \<longleftrightarrow> (case codings v of [n] \<Rightarrow> is_chunked n | _ \<Rightarrow> False)"

text \<open>The length a \<open>Content-Length\<close> header announces, if there is one, or the error it causes.\<close>

definition announced_length :: "config \<Rightarrow> header option \<Rightarrow> parse_status + nat option" where
  "announced_length cfg h = (case h of None \<Rightarrow> Inr None
     | Some h \<Rightarrow> if h_value h = [] then Inl PARSE_BAD_REQUEST
         else map_sum id Some (uint_reference 10 (max_body_len cfg) 0 (h_value h)))"

definition is_old_http :: "request \<Rightarrow> bool" where
  "is_old_http req \<longleftrightarrow> ascii_ieq (rl_version (rq_line req)) ''http/1.0''"

text \<open>The status a head is rejected with, \<open>None\<close> when it is accepted.\<close>

definition head_error :: "config \<Rightarrow> request \<Rightarrow> parse_status option" where
  "head_error cfg req = (let hs = rq_headers req; te = te_headers hs; cl = header_find hs ''content-length'' in
     if \<not> is_old_http req \<and> header_find hs ''host'' = None then Some PARSE_BAD_REQUEST
     else case find (\<lambda>h. \<not> only_chunked_value (h_value h)) te of
       Some h \<Rightarrow> Some (fst (te_reference (h_value h)))
     | None \<Rightarrow>
         if te \<noteq> [] \<and> (is_old_http req \<or> cl \<noteq> None) then Some PARSE_BAD_REQUEST
         else case announced_length cfg cl of
           Inl st \<Rightarrow> Some st
         | Inr len \<Rightarrow>
             if rl_method (rq_line req) = HEAD \<and> (te \<noteq> [] \<or> (case len of Some n \<Rightarrow> 0 < n | None \<Rightarrow> False))
             then Some PARSE_BAD_REQUEST else None)"

subsection \<open>The code follows them\<close>

lemma te_reference_chunked:
  "only_chunked_value v \<longleftrightarrow> te_reference v = (PARSE_OK, TE_CHUNKED)"
  "\<not> only_chunked_value v \<longleftrightarrow> te_reference v = (PARSE_BAD_REQUEST, TE_NONE) \<or> te_reference v = (PARSE_NOT_IMPLEMENTED, TE_UNSUPPORTED)"
proof -
  have "only_chunked_value v \<longleftrightarrow> (\<exists>n. codings v = [n] \<and> is_chunked n)"
    by (auto simp: only_chunked_value_def split: list.splits)
  also have "\<dots> \<longleftrightarrow> te_reference v = (PARSE_OK, TE_CHUNKED)"
    unfolding only_chunked [symmetric] te_reference_def Let_def by auto
  finally show a: "only_chunked_value v \<longleftrightarrow> te_reference v = (PARSE_OK, TE_CHUNKED)" .
  have "te_reference v = (PARSE_OK, TE_CHUNKED) \<or> te_reference v = (PARSE_BAD_REQUEST, TE_NONE)
      \<or> te_reference v = (PARSE_NOT_IMPLEMENTED, TE_UNSUPPORTED)"
    by (simp add: te_reference_def Let_def)
  then show "\<not> only_chunked_value v \<longleftrightarrow> te_reference v = (PARSE_BAD_REQUEST, TE_NONE) \<or> te_reference v = (PARSE_NOT_IMPLEMENTED, TE_UNSUPPORTED)"
    using a by auto
qed

lemma transfer_coding_loop_stop: "st \<noteq> PARSE_OK \<or> c = TE_UNSUPPORTED \<Longrightarrow> transfer_coding_loop hs c st = Some (c, st)"
  by (cases hs) auto

lemma transfer_coding_loop_spec:
  "c \<noteq> TE_UNSUPPORTED \<Longrightarrow> transfer_coding_loop hs c PARSE_OK =
     (case find (\<lambda>h. \<not> only_chunked_value (h_value h)) (te_headers hs) of
        Some h \<Rightarrow> Some (snd (te_reference (h_value h)), fst (te_reference (h_value h)))
      | None \<Rightarrow> Some (if te_headers hs = [] then c else TE_CHUNKED, PARSE_OK))"
proof (induction hs arbitrary: c)
  case Nil
  then show ?case by (simp add: te_headers_def)
next
  case (Cons h hs)
  show ?case
  proof (cases "ascii_ieq (h_key h) ''transfer-encoding''")
    case False
    with Cons show ?thesis by (simp add: te_headers_def)
  next
    case te: True
    show ?thesis
    proof (cases "only_chunked_value (h_value h)")
      case True
      then have ref: "te_reference (h_value h) = (PARSE_OK, TE_CHUNKED)" by (simp add: te_reference_chunked)
      from Cons.IH [of TE_CHUNKED] Cons.prems te True show ?thesis
        by (simp add: te_headers_def transfer_encoding_parse_eq ref)
    next
      case False
      then have ref: "te_reference (h_value h) = (PARSE_BAD_REQUEST, TE_NONE)
          \<or> te_reference (h_value h) = (PARSE_NOT_IMPLEMENTED, TE_UNSUPPORTED)"
        using te_reference_chunked(2) by blast
      with Cons.prems te False show ?thesis
        by (auto simp: te_headers_def transfer_encoding_parse_eq transfer_coding_loop_stop)
    qed
  qed
qed

lemma announced_length_parse:
  assumes "wf_config cfg"
  shows "\<exists>st v. uint_parse (h_value h) 0 (length (h_value h)) 10 (body_limit cfg) = Some (st, v)
    \<and> announced_length cfg (Some h) = (if st = PARSE_OK then Inr (Some (unat (the v))) else Inl st)
    \<and> (st = PARSE_OK \<longrightarrow> v \<noteq> None)"
proof -
  have lim: "15 \<le> unat (body_limit cfg)" "unat (body_limit cfg) < 2 ^ 59" using assms by (auto simp: wf_config_def)
  obtain st v where v: "uint_parse (h_value h) 0 (length (h_value h)) 10 (body_limit cfg) = Some (st, v)"
    "st = PARSE_OK \<longrightarrow> v \<noteq> None" using content_length_total [OF assms] by blast
  have "(st, map_option unat v) = (if h_value h = [] then (PARSE_BAD_REQUEST, None)
      else case uint_reference 10 (max_body_len cfg) 0 (h_value h) of Inl e \<Rightarrow> (e, None) | Inr n \<Rightarrow> (PARSE_OK, Some n))"
    using uint_parse_reference_plain [of 10, OF _ _ lim, of 0 "length (h_value h)" "h_value h"] assms v(1) by simp
  with v uint_reference_fails [of 10 "max_body_len cfg" 0 "h_value h"] show ?thesis
    by (intro exI [of _ st] exI [of _ v])
      (cases "uint_reference 10 (max_body_len cfg) 0 (h_value h)"; auto simp: announced_length_def split: if_splits)
qed

text \<open>The fields of the connection that deciding about a head may change.\<close>

definition head_update :: "request \<Rightarrow> nat \<Rightarrow> bool \<Rightarrow> transfer_coding \<Rightarrow> nat \<Rightarrow> 'u system \<Rightarrow> 'u system" where
  "head_update req start ka coding len s = on_conn (\<lambda>c. c\<lparr>c_req := req, c_body_start := start, c_keep_alive := ka,
     c_body_coding := coding, c_body_len := len\<rparr>) s"

lemma head_update_fields [simp]:
  "c_req (sy_conn (head_update req n ka coding len s)) = req" "c_keep_alive (sy_conn (head_update req n ka coding len s)) = ka"
  "c_body_start (sy_conn (head_update req n ka coding len s)) = n" "c_body_coding (sy_conn (head_update req n ka coding len s)) = coding"
  "c_body_len (sy_conn (head_update req n ka coding len s)) = len" "c_req_buf (sy_conn (head_update req n ka coding len s)) = c_req_buf (sy_conn s)"
  "c_requests (sy_conn (head_update req n ka coding len s)) = c_requests (sy_conn s)"
  "sy_net (head_update req n ka coding len s) = sy_net s" "sy_world (head_update req n ka coding len s) = sy_world s"
  "sy_router (head_update req n ka coding len s) = sy_router s"
  by (simp_all add: head_update_def)

text \<open>Whether the client waits for \<open>100 Continue\<close>: a body was announced and nothing of it has come yet.\<close>

definition awaits_continue :: "'u system \<Rightarrow> bool" where
  "awaits_continue s \<longleftrightarrow> (let c = sy_conn s; hs = rq_headers (c_req c) in
     \<not> is_old_http (c_req c) \<and> hb_size (c_req_buf c) \<le> c_body_start c
     \<and> (case header_find hs ''expect'' of None \<Rightarrow> False | Some h \<Rightarrow> ascii_ieq ''100-continue'' (h_value h))
     \<and> (c_body_coding c = TE_CHUNKED \<or> header_find hs ''content-length'' \<noteq> None \<and> 0 < c_body_len c))"

definition accepted_as :: "'u step \<Rightarrow> 'u system \<Rightarrow> bool" where
  "accepted_as r s \<longleftrightarrow> r = (if awaits_continue s then Some (phase_send_100_begin s) else phase_body_dispatch s)"

lemma head_body_dispatch_decides:
  assumes "cl = None \<longrightarrow> n = None" "cl \<noteq> None \<longrightarrow> n = Some (c_body_len (sy_conn s))"
    "cl = header_find (rq_headers (c_req (sy_conn s))) ''content-length''" "h10 = is_old_http (c_req (sy_conn s))"
  defines "reject \<equiv> rl_method (rq_line (c_req (sy_conn s))) = HEAD
      \<and> (c_body_coding (sy_conn s) = TE_CHUNKED \<or> (case n of Some k \<Rightarrow> 0 < k | None \<Rightarrow> False))"
  shows "if reject then head_body_dispatch h10 cl s = send_error PARSE_BAD_REQUEST s
    else accepted_as (head_body_dispatch h10 cl s) s"
  using assms by (cases cl) (auto simp: head_body_dispatch_def Let_def accepted_as_def awaits_continue_def split: option.splits)

text \<open>The coding and the length of the body that a head announces; without \<open>Content-Length\<close> the length stays \<open>old\<close>.\<close>

definition told_by_head :: "config \<Rightarrow> nat \<Rightarrow> request \<Rightarrow> transfer_coding \<Rightarrow> nat \<Rightarrow> bool" where
  "told_by_head cfg old req coding len \<longleftrightarrow> coding = (if te_headers (rq_headers req) \<noteq> [] then TE_CHUNKED else TE_NONE)
     \<and> (case header_find (rq_headers req) ''content-length'' of
          None \<Rightarrow> len = old
        | Some h \<Rightarrow> announced_length cfg (Some h) = Inr (Some len))"

definition head_follows :: "config \<Rightarrow> nat \<Rightarrow> 'u step \<Rightarrow> 'u system \<Rightarrow> bool" where
  "head_follows cfg old r s' \<longleftrightarrow> (let c = sy_conn s' in case head_error cfg (c_req c) of
       Some st \<Rightarrow> r = send_error st s'
     | None \<Rightarrow> accepted_as r s' \<and> told_by_head cfg old (c_req c) (c_body_coding c) (c_body_len c))"

text \<open>The state in which \<open>head_framing\<close> leaves a head: it sets the coding and the length.\<close>

abbreviation framed :: "transfer_coding \<Rightarrow> nat \<Rightarrow> 'u system \<Rightarrow> 'u system" where
  "framed coding len s \<equiv> head_update (c_req (sy_conn s)) (c_body_start (sy_conn s)) (c_keep_alive (sy_conn s)) coding len s"

lemma framed_eq:
  "on_conn (\<lambda>c. c\<lparr>c_body_coding := coding\<rparr>) s = framed coding (c_body_len (sy_conn s)) s"
  "on_conn (\<lambda>c. c\<lparr>c_body_len := n\<rparr>) (framed coding k s) = framed coding n s"
  by (simp_all add: head_update_def)

lemma head_error_framing:
  assumes "is_old_http req \<or> header_find (rq_headers req) ''host'' \<noteq> None"
  shows "head_error cfg req = (let te = te_headers (rq_headers req); cl = header_find (rq_headers req) ''content-length'' in
     case find (\<lambda>h. \<not> only_chunked_value (h_value h)) te of
       Some h \<Rightarrow> Some (fst (te_reference (h_value h)))
     | None \<Rightarrow>
         if te \<noteq> [] \<and> (is_old_http req \<or> cl \<noteq> None) then Some PARSE_BAD_REQUEST
         else case announced_length cfg cl of
           Inl st \<Rightarrow> Some st
         | Inr len \<Rightarrow>
             if rl_method (rq_line req) = HEAD \<and> (te \<noteq> [] \<or> (case len of Some n \<Rightarrow> 0 < n | None \<Rightarrow> False))
             then Some PARSE_BAD_REQUEST else None)"
proof -
  have "(\<not> is_old_http req \<and> header_find (rq_headers req) ''host'' = None) = False" using assms by auto
  then show ?thesis by (simp only: head_error_def Let_def if_False)
qed

lemma head_framing_bad_coding:
  assumes "is_old_http (c_req (sy_conn s)) \<or> header_find (rq_headers (c_req (sy_conn s))) ''host'' \<noteq> None"
    "find (\<lambda>h. \<not> only_chunked_value (h_value h)) (te_headers (rq_headers (c_req (sy_conn s)))) = Some h"
  shows "head_follows cfg old (head_framing cfg h10 s) (framed (snd (te_reference (h_value h))) (c_body_len (sy_conn s)) s)"
proof -
  have "\<not> only_chunked_value (h_value h)" using assms(2) by (auto simp: find_Some_iff)
  then have ref: "te_reference (h_value h) = (PARSE_BAD_REQUEST, TE_NONE)
      \<or> te_reference (h_value h) = (PARSE_NOT_IMPLEMENTED, TE_UNSUPPORTED)" using te_reference_chunked(2) by blast
  have "transfer_coding_loop (rq_headers (c_req (sy_conn s))) TE_NONE PARSE_OK
      = Some (snd (te_reference (h_value h)), fst (te_reference (h_value h)))"
    by (simp add: transfer_coding_loop_spec assms(2))
  then have "head_framing cfg h10 s
      = send_error (fst (te_reference (h_value h))) (framed (snd (te_reference (h_value h))) (c_body_len (sy_conn s)) s)"
    using ref by (auto simp: head_framing_def Let_def framed_eq(1))
  then show ?thesis by (simp add: head_follows_def head_error_framing [OF assms(1)] assms(2) Let_def)
qed

text \<open>The codings are plain, and the length is announced.\<close>

lemma head_framing_length:
  assumes "wf_config cfg" "h10 = is_old_http (c_req (sy_conn s))"
    "is_old_http (c_req (sy_conn s)) \<or> header_find (rq_headers (c_req (sy_conn s))) ''host'' \<noteq> None"
    "find (\<lambda>h. \<not> only_chunked_value (h_value h)) (te_headers (rq_headers (c_req (sy_conn s)))) = None"
    "header_find (rq_headers (c_req (sy_conn s))) ''content-length'' = Some h"
  shows "\<exists>coding len. head_follows cfg old (head_framing cfg h10 s) (framed coding len s)"
proof -
  let ?req = "c_req (sy_conn s)" and ?te = "te_headers (rq_headers (c_req (sy_conn s)))"
  let ?coding = "if ?te \<noteq> [] then TE_CHUNKED else TE_NONE"
  have loop: "transfer_coding_loop (rq_headers ?req) TE_NONE PARSE_OK = Some (?coding, PARSE_OK)"
    by (simp add: transfer_coding_loop_spec assms(4))
  note err = head_error_framing [OF assms(3), of cfg, unfolded Let_def assms(4,5) option.case]
  obtain st v where v: "uint_parse (h_value h) 0 (length (h_value h)) 10 (body_limit cfg) = Some (st, v)"
    "announced_length cfg (Some h) = (if st = PARSE_OK then Inr (Some (unat (the v))) else Inl st)"
    "st = PARSE_OK \<longrightarrow> v \<noteq> None" using announced_length_parse [OF assms(1)] by blast
  show ?thesis
  proof (cases "?te \<noteq> [] \<or> st \<noteq> PARSE_OK")
    case True
    then have "head_framing cfg h10 s = send_error (if ?te \<noteq> [] then PARSE_BAD_REQUEST else st) (framed ?coding (c_body_len (sy_conn s)) s)"
      by (auto simp: head_framing_def loop Let_def framed_eq(1) assms(5) v(1))
    moreover have "head_error cfg ?req = Some (if ?te \<noteq> [] then PARSE_BAD_REQUEST else st)"
      using True by (auto simp: err v(2))
    ultimately show ?thesis by (intro exI) (simp add: head_follows_def)
  next
    case False
    define s1 where "s1 = framed TE_NONE (unat (the v)) s"
    have s1: "c_req (sy_conn s1) = ?req" "c_body_coding (sy_conn s1) = TE_NONE" "c_body_len (sy_conn s1) = unat (the v)"
      by (simp_all add: s1_def)
    have plain: "?te = []" "announced_length cfg (Some h) = Inr (Some (unat (the v)))" using False v(2) by simp_all
    have "head_framing cfg h10 s = head_body_dispatch h10 (Some h) s1"
      using False v(3) by (auto simp: head_framing_def loop Let_def framed_eq assms(5) v(1) s1_def)
    moreover have "head_error cfg ?req = (if rl_method (rq_line ?req) = HEAD \<and> 0 < unat (the v) then Some PARSE_BAD_REQUEST else None)"
      by (simp add: err plain)
    moreover have "if rl_method (rq_line ?req) = HEAD \<and> 0 < unat (the v)
      then head_body_dispatch h10 (Some h) s1 = send_error PARSE_BAD_REQUEST s1
      else accepted_as (head_body_dispatch h10 (Some h) s1) s1"
    proof -
      have "Some h = None \<longrightarrow> Some (c_body_len (sy_conn s1)) = None"
        "Some h \<noteq> None \<longrightarrow> Some (c_body_len (sy_conn s1)) = Some (c_body_len (sy_conn s1))"
        "Some h = header_find (rq_headers (c_req (sy_conn s1))) ''content-length''" "h10 = is_old_http (c_req (sy_conn s1))"
        using assms(2,5) s1(1) by simp_all
      from head_body_dispatch_decides [OF this] s1 show ?thesis
        by (simp only: option.case simp_thms transfer_coding.distinct)
    qed
    ultimately have "head_follows cfg old (head_framing cfg h10 s) s1"
      using plain assms(5) s1 by (auto simp: head_follows_def told_by_head_def Let_def split: if_splits)
    then show ?thesis unfolding s1_def by blast
  qed
qed

lemma head_framing_decides:
  assumes "wf_config cfg" "h10 = is_old_http (c_req (sy_conn s))"
    "is_old_http (c_req (sy_conn s)) \<or> header_find (rq_headers (c_req (sy_conn s))) ''host'' \<noteq> None"
  shows "\<exists>coding len. head_follows cfg (c_body_len (sy_conn s)) (head_framing cfg h10 s) (framed coding len s)"
proof (cases "find (\<lambda>h. \<not> only_chunked_value (h_value h)) (te_headers (rq_headers (c_req (sy_conn s))))")
  case (Some h)
  then show ?thesis using head_framing_bad_coding [OF assms(3)] by blast
next
  case None
  let ?te = "te_headers (rq_headers (c_req (sy_conn s)))"
  let ?s = "framed (if ?te \<noteq> [] then TE_CHUNKED else TE_NONE) (c_body_len (sy_conn s)) s"
  show ?thesis
  proof (cases "header_find (rq_headers (c_req (sy_conn s))) ''content-length''")
    case cl: None
    have "head_framing cfg h10 s = (if h10 \<and> ?te \<noteq> [] then send_error PARSE_BAD_REQUEST ?s else head_body_dispatch h10 None ?s)"
      by (simp add: head_framing_def transfer_coding_loop_spec None Let_def framed_eq(1) cl)
    with head_body_dispatch_decides [of None None ?s h10] cl assms(2)
    have "head_follows cfg (c_body_len (sy_conn s)) (head_framing cfg h10 s) ?s"
      by (cases h10; auto simp: head_follows_def told_by_head_def head_error_framing [OF assms(3)] None announced_length_def Let_def
          split: if_splits)
    then show ?thesis by blast
  next
    case (Some h)
    then show ?thesis by (rule head_framing_length [OF assms None])
  qed
qed

text \<open>Whether the request asks to keep the connection.\<close>

definition asks_keep_alive :: "request \<Rightarrow> bool" where
  "asks_keep_alive req \<longleftrightarrow> \<not> is_old_http req \<and> header_find (rq_headers req) ''host'' \<noteq> None
     \<and> (case header_find (rq_headers req) ''connection'' of None \<Rightarrow> True | Some h \<Rightarrow> ascii_ieq ''keep-alive'' (h_value h))"

lemma head_received_decides:
  assumes "wf_config cfg" "hb_bytes (c_req_buf (sy_conn s)) = Some m"
    "request_parse cfg m (hb_size (c_req_buf (sy_conn s))) (c_req (sy_conn s)) = Some (res, req)"
    "status res = PARSE_OK" "rh_body_start r \<le> rh_total_received r"
  shows "\<exists>coding len. head_follows cfg (c_body_len (sy_conn s)) (head_received cfg r s)
    (head_update req (rh_body_start r) (c_keep_alive (sy_conn s) \<or> asks_keep_alive req) coding len s)"
proof -
  let ?old = "is_old_http req" and ?ka = "c_keep_alive (sy_conn s) \<or> asks_keep_alive req"
  define s0 where "s0 = on_conn (\<lambda>c. c\<lparr>c_body_start := rh_body_start r\<rparr>) (on_conn (\<lambda>c. c\<lparr>c_req := req\<rparr>) s)"
  define s1 where "s1 = (if asks_keep_alive req then on_conn (\<lambda>c. c\<lparr>c_keep_alive := True\<rparr>) s0 else s0)"
  have fields: "c_req (sy_conn s1) = req" "c_body_start (sy_conn s1) = rh_body_start r" "c_keep_alive (sy_conn s1) = ?ka"
    "c_body_len (sy_conn s1) = c_body_len (sy_conn s)" "c_body_coding (sy_conn s0) = c_body_coding (sy_conn s)"
    by (auto simp: s1_def s0_def)
  have up: "head_update req (rh_body_start r) ?ka coding len s1 = head_update req (rh_body_start r) ?ka coding len s" for coding len
    by (simp add: head_update_def s1_def s0_def)
  have run: "head_received cfg r s = (if ?old then head_framing cfg True s1
       else if header_find (rq_headers req) ''host'' = None then send_error PARSE_BAD_REQUEST s0
       else head_framing cfg False s1)"
    using assms(2-5) by (auto simp: head_received_def Let_def s1_def s0_def is_old_http_def asks_keep_alive_def split: option.splits)
  show ?thesis
  proof (cases "\<not> ?old \<and> header_find (rq_headers req) ''host'' = None")
    case True
    then have none: "\<not> asks_keep_alive req" by (simp add: asks_keep_alive_def)
    have "s0 = head_update req (rh_body_start r) ?ka (c_body_coding (sy_conn s)) (c_body_len (sy_conn s)) s"
      using none by (simp add: head_update_def s0_def)
    moreover have "head_error cfg req = Some PARSE_BAD_REQUEST" using True by (simp add: head_error_def)
    ultimately show ?thesis using True run
      by (intro exI [of _ "c_body_coding (sy_conn s)"] exI [of _ "c_body_len (sy_conn s)"]) (simp add: head_follows_def)
  next
    case False
    then have framing: "head_received cfg r s = head_framing cfg ?old s1" using run by auto
    have host: "?old \<or> header_find (rq_headers req) ''host'' \<noteq> None" using False by auto
    show ?thesis
      unfolding framing by (rule head_framing_decides [OF assms(1), of ?old s1, unfolded fields up, OF refl host])
  qed
qed

subsection \<open>The verdict on the bytes received\<close>

text \<open>What a request buffer is answered with when it is rejected before its body is read.\<close>

definition buffer_verdict :: "config \<Rightarrow> http_buffer \<Rightarrow> parse_status option" where
  "buffer_verdict cfg b = (case memmem (live b) (crlf @ crlf) of
     None \<Rightarrow> if hb_size b \<ge> hb_cap b then Some PARSE_HEADER_TOO_LONG else None
   | Some t \<Rightarrow> (case request_parse cfg (the (hb_bytes b)) (hb_size b) request_zero of
       Some (res, req) \<Rightarrow> if status res \<noteq> PARSE_OK then Some (status res) else head_error cfg req
     | None \<Rightarrow> None))"

definition rejected :: "parse_status \<Rightarrow> conn_phase \<times> 'u system \<Rightarrow> bool" where
  "rejected st r \<longleftrightarrow> (case r of (p, s) \<Rightarrow> p = CONN_SENDING_RESPONSE \<and> c_st (sy_conn s) = St_Send 0
     \<and> (case time_now (sy_world s) of None \<Rightarrow> False
        | Some t \<Rightarrow> live (c_resp_buf (sy_conn s)) = response_text t (response_error_from_status st :: unit response) False))"

lemma send_error_rejects:
  assumes "wf_config cfg" "system_ok cfg slack fd s"
  shows "\<exists>b. send_error st s = Some (CONN_SENDING_RESPONSE, on_conn (\<lambda>c. c\<lparr>c_resp_buf := b, c_st := St_Send 0\<rparr>) s)
    \<and> rejected st (CONN_SENDING_RESPONSE, on_conn (\<lambda>c. c\<lparr>c_resp_buf := b, c_st := St_Send 0\<rparr>) s)"
proof -
  obtain t where t: "time_now (sy_world s) = Some t" "sane_clock t" using system_clock [OF assms(2)] .
  have buf: "wf_buffer (c_resp_buf (sy_conn s))" "256 \<le> hb_cap (c_resp_buf (sy_conn s))" using assms by (auto elim!: system_okE)
  obtain b where b: "response_error_serialize (Some t) (c_resp_buf (sy_conn s)) st = Some b"
    "live b = response_text t (response_error_from_status st :: unit response) False"
    by (rule response_error_serialize_ok [OF buf t(2)])
  then have "send_error st s = Some (CONN_SENDING_RESPONSE, on_conn (\<lambda>c. c\<lparr>c_resp_buf := b, c_st := St_Send 0\<rparr>) s)"
    using t(1) by (simp add: send_error_def phase_send_begin_def)
  with b(2) t(1) show ?thesis by (intro exI [of _ b]) (simp add: rejected_def)
qed

lemma head_update_ok: "system_ok cfg slack fd s \<Longrightarrow> system_ok cfg slack fd (head_update req n ka coding len s)"
  by (simp add: system_ok_def conn_mem_ok_def head_update_def)

text \<open>A head that is already there is found without another call of \<open>recv\<close>.\<close>

lemma conn_recv_header_buffered:
  assumes "wf_buffer b" "0 \<le> fd" "memmem (live b) (crlf @ crlf) = Some t"
  shows "conn_recv_header fd b net = Some (\<lparr> rh_status = READ_HEADER_OK, rh_total_received = hb_size b, rh_body_start = t + 4 \<rparr>, b, net)"
proof -
  obtain m where m: "hb_bytes b = Some m" "length m = hb_cap b" "hb_size b \<le> hb_cap b" "live b = take (hb_size b) m"
    using assms(1) by (rule wf_bufferE)
  have "conn_recv_header_loop m (hb_cap b) (hb_size b) net
      = Some (\<lparr> rh_status = READ_HEADER_OK, rh_total_received = hb_size b, rh_body_start = t + 4 \<rparr>, m, net)"
    using assms(3) m by (subst conn_recv_header_loop.simps) (simp add: rd_range_def)
  moreover have "b\<lparr>hb_bytes := Some m, hb_size := hb_size b\<rparr> = b" using m(1) by (cases b) simp
  ultimately show ?thesis using m(1) assms(2) by (simp add: conn_recv_header_def)
qed

lemma buffered_head_parses:
  assumes "wf_config cfg" "wf_buffer b" "hb_cap b = max_request_len cfg" "memmem (live b) (crlf @ crlf) = Some t"
  shows "\<exists>m res req. hb_bytes b = Some m \<and> request_parse cfg m (hb_size b) request_zero = Some (res, req) \<and> t + 4 \<le> hb_size b
    \<and> buffer_verdict cfg b = (if status res \<noteq> PARSE_OK then Some (status res) else head_error cfg req)"
proof -
  obtain m where m: "hb_bytes b = Some m" "length m = hb_cap b" "hb_size b \<le> hb_cap b" "live b = take (hb_size b) m"
    using assms(2) by (rule wf_bufferE)
  have len: "hb_size b \<le> length m" "6 \<le> length m" using m assms(1,3) by (auto simp: wf_config_def)
  have "rq_headers request_zero = []" by (simp add: request_zero_def)
  from request_parse_decides [OF assms(1) len assms(4) [unfolded m(4)] this] obtain res req where
    parse: "request_parse cfg m (hb_size b) request_zero = Some (res, req)" by blast
  have "t + 4 \<le> hb_size b" using memmem_Some [OF assms(4)] length_live [OF assms(2)] by simp
  with parse m(1) assms(4) show ?thesis by (simp add: buffer_verdict_def)
qed

lemma accepted_as_phase:
  assumes "accepted_as (Some (p, s')) s" "c_body_start (sy_conn s) \<le> hb_size (c_req_buf (sy_conn s))"
  shows "sy_net s' = sy_net s" "c_req_buf (sy_conn s') = c_req_buf (sy_conn s)" "c_body_start (sy_conn s') = c_body_start (sy_conn s)"
    "rq_headers (c_req (sy_conn s')) = rq_headers (c_req (sy_conn s))" "c_body_len (sy_conn s') = c_body_len (sy_conn s)"
    "c_body_coding (sy_conn s') = c_body_coding (sy_conn s)"
    "sy_world s' = sy_world s" "c_requests (sy_conn s') = c_requests (sy_conn s)"
    "awaits_continue s' = awaits_continue s" "c_keep_alive (sy_conn s') = c_keep_alive (sy_conn s)"
    "rq_line (c_req (sy_conn s')) = rq_line (c_req (sy_conn s))"
    "p = (if awaits_continue s then CONN_SENDING_100 else if c_body_coding (sy_conn s) = TE_CHUNKED then CONN_READING_BODY_CHUNKED
       else if c_body_len (sy_conn s) = 0 then CONN_BUILDING else CONN_READING_BODY_CL)"
  using assms
  by (auto simp: accepted_as_def phase_body_dispatch_def phase_send_100_begin_def awaits_continue_def is_old_http_def Let_def
      fault_simps split: if_splits)

lemma rejected_phase: "rejected st (p, s) \<Longrightarrow> p = CONN_SENDING_RESPONSE"
  by (simp add: rejected_def)

text \<open>
  What a step has done with the bytes in its buffer: it has rejected them, it waits for more (or the peer has
  gone), or the head is there and the connection goes on by the coding and the length it then has.
\<close>

definition head_judged :: "config \<Rightarrow> 'u system \<Rightarrow> conn_phase \<times> 'u system \<Rightarrow> bool" where
  "head_judged cfg s r = (case r of (p, s') \<Rightarrow> let c = sy_conn s'; b = c_req_buf c in
     case buffer_verdict cfg b of
       Some st \<Rightarrow> rejected st (p, s')
     | None \<Rightarrow> (case memmem (live b) (crlf @ crlf) of
         None \<Rightarrow> p = CONN_READING_REQUEST \<or> p = CONN_CLOSED
       | Some t \<Rightarrow> \<exists>pres req. request_parse cfg (the (hb_bytes b)) (hb_size b) request_zero = Some (pres, req) \<and> status pres = PARSE_OK
           \<and> c_body_start c = t + 4 \<and> rq_line (c_req c) = rq_line req \<and> rq_headers (c_req c) = rq_headers req
           \<and> c_keep_alive c = (c_keep_alive (sy_conn s) \<or> asks_keep_alive req)
           \<and> told_by_head cfg (c_body_len (sy_conn s)) req (c_body_coding c) (c_body_len c)
           \<and> p = (if awaits_continue s' then CONN_SENDING_100 else if c_body_coding c = TE_CHUNKED then CONN_READING_BODY_CHUNKED
              else if c_body_len c = 0 then CONN_BUILDING else CONN_READING_BODY_CL)))"

text \<open>The rest of the state: the buffer, the connection to the peer and the clock are as the read left them.\<close>

definition head_step :: "config \<Rightarrow> 'u system \<Rightarrow> http_buffer \<Rightarrow> net \<Rightarrow> 'u step \<Rightarrow> bool" where
  "head_step cfg s b net r \<longleftrightarrow> (\<exists>p s'. r = Some (p, s') \<and> c_req_buf (sy_conn s') = b \<and> sy_net s' = net
     \<and> c_requests (sy_conn s') = c_requests (sy_conn s) \<and> sy_world s' = sy_world s \<and> head_judged cfg s (p, s'))"

lemma send_error_judged:
  assumes "wf_config cfg" "system_ok cfg slack fd s'" "buffer_verdict cfg (c_req_buf (sy_conn s')) = Some st"
    "c_requests (sy_conn s') = c_requests (sy_conn s)" "sy_world s' = sy_world s"
  shows "head_step cfg s (c_req_buf (sy_conn s')) (sy_net s') (send_error st s')"
  using send_error_rejects [OF assms(1,2), of st] assms(3-5) by (auto simp: head_step_def head_judged_def)

lemma head_accepted_judged:
  assumes "wf_config cfg" "system_ok cfg slack fd s'" "buffer_verdict cfg (c_req_buf (sy_conn s')) = None" "accepted_as r s'"
    "memmem (live (c_req_buf (sy_conn s'))) (crlf @ crlf) = Some t" "c_body_start (sy_conn s') = t + 4"
    "t + 4 \<le> hb_size (c_req_buf (sy_conn s'))"
    "request_parse cfg (the (hb_bytes (c_req_buf (sy_conn s')))) (hb_size (c_req_buf (sy_conn s'))) request_zero = Some (pres, c_req (sy_conn s'))"
    "status pres = PARSE_OK" "c_keep_alive (sy_conn s') = (c_keep_alive (sy_conn s) \<or> asks_keep_alive (c_req (sy_conn s')))"
    "told_by_head cfg (c_body_len (sy_conn s)) (c_req (sy_conn s')) (c_body_coding (sy_conn s')) (c_body_len (sy_conn s'))"
    "c_requests (sy_conn s') = c_requests (sy_conn s)" "sy_world s' = sy_world s"
  shows "head_step cfg s (c_req_buf (sy_conn s')) (sy_net s') r"
proof -
  have start: "c_body_start (sy_conn s') \<le> hb_size (c_req_buf (sy_conn s'))" using assms(6,7) by simp
  have "step_ok cfg slack fd (phase_body_dispatch s')" by (rule phase_body_dispatch_ok [OF assms(2) start])
  then obtain p s2 where r: "r = Some (p, s2)"
    using assms(4) by (cases "awaits_continue s'") (auto simp: accepted_as_def phase_send_100_begin_def elim: step_okE)
  note same = accepted_as_phase [OF assms(4) [unfolded r] start]
  have "head_judged cfg s (p, s2)"
    unfolding head_judged_def prod.case Let_def same assms(3,5) option.case
    by (intro exI [of _ pres] exI [of _ "c_req (sy_conn s')"] conjI) (use assms(6,8-11) in simp_all)
  with r same assms(12,13) show ?thesis by (simp add: head_step_def)
qed

lemma head_received_judged:
  assumes "wf_config cfg" "system_ok cfg slack fd s0" "c_req (sy_conn s0) = request_zero"
    "memmem (live (c_req_buf (sy_conn s0))) (crlf @ crlf) = Some t" "rh_body_start res = t + 4"
    "rh_total_received res = hb_size (c_req_buf (sy_conn s0))"
    "c_body_len (sy_conn s0) = c_body_len (sy_conn s)" "c_keep_alive (sy_conn s0) = c_keep_alive (sy_conn s)"
    "c_requests (sy_conn s0) = c_requests (sy_conn s)" "sy_world s0 = sy_world s"
  shows "head_step cfg s (c_req_buf (sy_conn s0)) (sy_net s0) (head_received cfg res s0)"
proof -
  let ?b = "c_req_buf (sy_conn s0)"
  have "wf_buffer ?b" "hb_cap ?b = max_request_len cfg" using assms(2) by (auto elim!: system_okE)
  from buffered_head_parses [OF assms(1) this assms(4)] obtain m pres req where
    m: "hb_bytes ?b = Some m" "request_parse cfg m (hb_size ?b) request_zero = Some (pres, req)" "t + 4 \<le> hb_size ?b"
      "buffer_verdict cfg ?b = (if status pres \<noteq> PARSE_OK then Some (status pres) else head_error cfg req)" by blast
  show ?thesis
  proof (cases "status pres = PARSE_OK")
    case False
    let ?s1 = "on_conn (\<lambda>c. c\<lparr>c_req := req\<rparr>) s0"
    have "system_ok cfg slack fd ?s1" using assms(2) by (simp add: system_ok_def conn_mem_ok_def)
    moreover have "head_received cfg res s0 = send_error (status pres) ?s1"
      using m(1,2) assms(3) False by (simp add: head_received_def)
    ultimately show ?thesis using send_error_judged [OF assms(1), of slack fd ?s1 "status pres" s] m(4) False assms(9,10) by simp
  next
    case True
    obtain coding len where follows: "head_follows cfg (c_body_len (sy_conn s0)) (head_received cfg res s0)
        (head_update req (t + 4) (c_keep_alive (sy_conn s0) \<or> asks_keep_alive req) coding len s0)" (is "head_follows _ _ _ ?s1")
      using head_received_decides [OF assms(1) m(1), of pres req res] m(2,3) True assms(3,5,6) by auto
    have ok: "system_ok cfg slack fd ?s1" by (rule head_update_ok [OF assms(2)])
    show ?thesis
    proof (cases "head_error cfg req")
      case (Some e)
      then show ?thesis using send_error_judged [OF assms(1) ok, of e s] follows m(4) True assms(9,10)
        by (simp add: head_follows_def)
    next
      case None
      then show ?thesis using head_accepted_judged [OF assms(1) ok, of "head_received cfg res s0" t pres s] follows m True assms(4,7-10)
        by (simp add: head_follows_def)
    qed
  qed
qed

lemma step_header_read_decides:
  assumes "wf_config cfg" "system_ok cfg slack fd s" "c_phase (sy_conn s) = CONN_READING_REQUEST" "c_req (sy_conn s) = request_zero"
  shows "\<exists>res b net. conn_recv_header fd (c_req_buf (sy_conn s)) (sy_net s) = Some (res, b, net)
    \<and> head_step cfg s b net (step_header_read cfg s)"
proof -
  have buf: "wf_buffer (c_req_buf (sy_conn s))" "0 \<le> fd" "fd = c_fd (sy_conn s)" "hb_cap (c_req_buf (sy_conn s)) = max_request_len cfg"
    using assms(2) by (auto elim!: system_okE)
  obtain res b net where r: "conn_recv_header fd (c_req_buf (sy_conn s)) (sy_net s) = Some (res, b, net)"
    "wf_buffer b" "hb_cap b = max_request_len cfg" "rh_total_received res = hb_size b"
    and head: "case memmem (live b) (crlf @ crlf) of
         Some t \<Rightarrow> rh_status res = READ_HEADER_OK \<and> rh_body_start res = t + 4
       | None \<Rightarrow> rh_status res \<noteq> READ_HEADER_OK \<and> (rh_status res = READ_HEADER_TOO_LARGE \<longleftrightarrow> hb_size b = hb_cap b)"
    using conn_recv_header_spec [OF buf(1,2), of "sy_net s"] buf(4) by metis
  define s0 where "s0 = (on_conn (\<lambda>c. c\<lparr>c_req_buf := b\<rparr>) s)\<lparr>sy_net := net\<rparr>"
  have ok: "system_ok cfg slack fd s0" using assms(2) r buf(4) by (simp add: s0_def system_ok_def conn_mem_ok_def)
  have s0: "c_req_buf (sy_conn s0) = b" "sy_net s0 = net" "c_requests (sy_conn s0) = c_requests (sy_conn s)"
    "sy_world s0 = sy_world s" "c_req (sy_conn s0) = request_zero" "c_body_len (sy_conn s0) = c_body_len (sy_conn s)"
    "c_keep_alive (sy_conn s0) = c_keep_alive (sy_conn s)"
    using assms(4) by (simp_all add: s0_def)
  have turn: "step_header_read cfg s = (case rh_status res of
       READ_HEADER_HAS_MORE \<Rightarrow> Some (CONN_READING_REQUEST, s0)
     | READ_HEADER_PEER_CLOSED \<Rightarrow> Some (CONN_CLOSED, s0)
     | READ_HEADER_IO_ERROR \<Rightarrow> Some (CONN_CLOSED, s0)
     | READ_HEADER_TOO_LARGE \<Rightarrow> send_error PARSE_HEADER_TOO_LONG s0
     | READ_HEADER_OK \<Rightarrow> head_received cfg res s0)"
    using assms(3) r(1) by (cases "rh_status res") (simp_all add: step_header_read_def s0_def buf(3) Let_def)
  have le: "hb_size b \<le> hb_cap b" using r(2) by (simp add: wf_buffer_def)
  have "head_step cfg s b net (step_header_read cfg s)"
  proof (cases "memmem (live b) (crlf @ crlf)")
    case None
    then have st: "rh_status res \<noteq> READ_HEADER_OK" "rh_status res = READ_HEADER_TOO_LARGE \<longleftrightarrow> hb_size b = hb_cap b"
      and verdict: "buffer_verdict cfg b = (if hb_size b = hb_cap b then Some PARSE_HEADER_TOO_LONG else None)"
      using head le by (auto simp: buffer_verdict_def)
    show ?thesis
    proof (cases "rh_status res = READ_HEADER_TOO_LARGE")
      case True
      then show ?thesis using send_error_judged [OF assms(1) ok, of PARSE_HEADER_TOO_LONG s] turn st(2) verdict s0 by simp
    next
      case False
      then show ?thesis using turn st verdict None s0
        by (cases "rh_status res") (simp_all add: head_step_def head_judged_def)
    qed
  next
    case (Some t)
    then show ?thesis using head_received_judged [OF assms(1) ok, of t res s] turn head s0 r(4) by simp
  qed
  with r(1) show ?thesis by blast
qed

text \<open>C2: a request head is judged as \<open>head_error\<close> says. The head is the first block of received bytes that ends in an empty line. If it does not
  parse, or breaks a rule (no \<open>Host\<close> in HTTP/1.1, a transfer coding that is not plain \<open>chunked\<close>, both framings or chunked HTTP/1.0, a
  \<open>Content-Length\<close> that is no number or too large, a \<open>HEAD\<close> with a body), the connection answers with the canned response of that
  status; a head that fills the buffer is answered with 431. An accepted head goes on by its coding and the length of its body: to the interim 100
  response, to a chunked body, to a body of known length, or to building the response. The length is the announced one; without a
  \<open>Content-Length\<close> it is the one the connection held before the head, so a head without a body goes to reading a body as well where a length was left
  over. A part of a head is never answered.\<close>

theorem head_follows_rules:
  assumes "wf_config cfg" "conn_inv cfg slack fd s" "c_phase (sy_conn s) = CONN_READING_REQUEST"
  shows "\<exists>res b net p s'. conn_recv_header fd (c_req_buf (sy_conn s)) (sy_net s) = Some (res, b, net)
    \<and> step_header_read cfg s = Some (p, s') \<and> c_req_buf (sy_conn s') = b \<and> sy_net s' = net \<and> c_requests (sy_conn s') = c_requests (sy_conn s)
    \<and> sy_world s' = sy_world s \<and> head_judged cfg s (p, s')"
proof -
  have "system_ok cfg slack fd s" "c_req (sy_conn s) = request_zero" using assms by (simp_all add: conn_inv_def phase_ok_def)
  from step_header_read_decides [OF assms(1) this(1) assms(3) this(2)] show ?thesis unfolding head_step_def by blast
qed

theorem head_follows_rules_witness:
  "\<exists>res b net p s'. conn_recv_header 5 (c_req_buf demo_conn) (sy_net (demo_system [Recv_Data ''PUT /submit HTTP/1.1'', Recv_Error EINTR, Recv_Error EAGAIN] [])) = Some (res, b, net)
    \<and> step_header_read esp32_config (demo_system [Recv_Data ''PUT /submit HTTP/1.1'', Recv_Error EINTR, Recv_Error EAGAIN] []) = Some (p, s')
    \<and> c_req_buf (sy_conn s') = b \<and> sy_net s' = net
    \<and> head_judged esp32_config (demo_system [Recv_Data ''PUT /submit HTTP/1.1'', Recv_Error EINTR, Recv_Error EAGAIN] []) (p, s')"
  using head_follows_rules [OF wf_esp32_config demo_system_inv, of "[Recv_Data ''PUT /submit HTTP/1.1'', Recv_Error EINTR, Recv_Error EAGAIN]" "[]"]
  by (simp add: demo_system_def demo_conn_def) blast

end
