(* ===== verification/Driving.thy ===== *)
theory Driving
  imports Head_Decision
begin

text \<open>
  \<open>connection_step_process\<close> as a run of single steps: how many there are, and which of them
  leave the count of requests alone.
\<close>

subsection \<open>Single steps\<close>

fun conn_steps :: "config \<Rightarrow> nat \<Rightarrow> 'u system \<Rightarrow> 'u system option" where
  "conn_steps cfg 0 s = Some s"
| "conn_steps cfg (Suc n) s = do { s \<leftarrow> conn_step cfg s; conn_steps cfg n s }"

lemma conn_steps_add: "conn_steps cfg (m + n) s = Option.bind (conn_steps cfg m s) (conn_steps cfg n)"
proof (induction m arbitrary: s)
  case (Suc m)
  then show ?case by (cases "conn_step cfg s") simp_all
qed simp

lemma conn_measure_bound: "conn_measure s \<le> 8 * length (outbox (sy_net s)) + 6"
  by (auto simp: conn_measure_def conn_rank_def split: conn_phase.splits)

lemma connection_step_process_steps:
  "connection_step_process cfg s = Some s' \<Longrightarrow> \<exists>n t. n \<le> conn_measure s \<and> conn_steps cfg n s = Some t \<and> conn_step cfg t = Some s'
     \<and> (c_phase (sy_conn s') = c_phase (sy_conn t) \<or> c_phase (sy_conn s') = CONN_CLOSED)"
proof (induction cfg s rule: connection_step_process.induct)
  case (1 cfg s)
  obtain s1 where s1: "conn_step cfg s = Some s1"
    and rest: "(if c_phase (sy_conn s1) \<noteq> c_phase (sy_conn s) \<and> c_phase (sy_conn s1) \<noteq> CONN_CLOSED
      then connection_step_process cfg s1 else Some s1) = Some s'"
    using "1.prems" by (subst (asm) connection_step_process.simps) (auto simp: Option.bind_eq_Some_conv)
  show ?case
  proof (cases "c_phase (sy_conn s1) \<noteq> c_phase (sy_conn s) \<and> c_phase (sy_conn s1) \<noteq> CONN_CLOSED")
    case True
    with rest have "connection_step_process cfg s1 = Some s'" by simp
    from "1.IH" [OF s1 True this] obtain n t where n: "n \<le> conn_measure s1" "conn_steps cfg n s1 = Some t" "conn_step cfg t = Some s'"
      "c_phase (sy_conn s') = c_phase (sy_conn t) \<or> c_phase (sy_conn s') = CONN_CLOSED" by blast
    have "conn_measure s1 < conn_measure s" using conn_step_smaller [OF s1] True by blast
    with n s1 show ?thesis by (intro exI [of _ "Suc n"] exI [of _ t]) simp
  next
    case False
    with rest s1 show ?thesis by (intro exI [of _ 0] exI [of _ s]) auto
  qed
qed

subsection \<open>The count of requests\<close>

lemma phase_body_dispatch_requests:
  "phase_body_dispatch s = Some (p, s') \<Longrightarrow> p \<noteq> CONN_CLOSED \<and> c_requests (sy_conn s') = c_requests (sy_conn s)"
  by (auto simp: phase_body_dispatch_def Let_def Option.bind_eq_Some_conv split: if_splits)

lemma send_error_requests: "send_error st s = Some (p, s') \<Longrightarrow> c_requests (sy_conn s') = c_requests (sy_conn s)"
  by (auto simp: send_error_def phase_send_begin_def Option.bind_eq_Some_conv)

lemma head_body_dispatch_requests:
  "head_body_dispatch h10 cl s = Some (p, s') \<Longrightarrow> c_requests (sy_conn s') = c_requests (sy_conn s)"
  by (auto simp: head_body_dispatch_def Let_def phase_send_100_begin_def split: if_splits
      dest: send_error_requests phase_body_dispatch_requests)

lemma head_framing_requests: "head_framing cfg h10 s = Some (p, s') \<Longrightarrow> c_requests (sy_conn s') = c_requests (sy_conn s)"
  by (auto simp: head_framing_def Let_def Option.bind_eq_Some_conv split: if_splits option.splits
      dest!: send_error_requests head_body_dispatch_requests)

lemma head_received_requests: "head_received cfg r s = Some (p, s') \<Longrightarrow> c_requests (sy_conn s') = c_requests (sy_conn s)"
  by (auto simp: head_received_def Let_def Option.bind_eq_Some_conv split: if_splits option.splits
      dest!: send_error_requests head_framing_requests)

lemma step_header_read_requests: "step_header_read cfg s = Some (p, s') \<Longrightarrow> c_requests (sy_conn s') = c_requests (sy_conn s)"
  by (auto simp: step_header_read_def Let_def Option.bind_eq_Some_conv split: read_header_status.splits
      dest!: send_error_requests head_received_requests) (use read_header_status.exhaust in blast)

lemma step_send_100_requests: "step_send_100 s = Some (p, s') \<Longrightarrow> c_requests (sy_conn s') = c_requests (sy_conn s)"
  by (auto simp: step_send_100_def Let_def Option.bind_eq_Some_conv split: send_status.splits dest!: phase_body_dispatch_requests)
    (use send_status.exhaust in blast)

lemma step_body_cl_read_requests: "step_body_cl_read s = Some (p, s') \<Longrightarrow> c_requests (sy_conn s') = c_requests (sy_conn s)"
  by (auto simp: step_body_cl_read_def Let_def Option.bind_eq_Some_conv split: if_splits dest!: send_error_requests)

lemma step_body_chunked_read_requests:
  "step_body_chunked_read cfg s = Some (p, s') \<Longrightarrow> c_requests (sy_conn s') = c_requests (sy_conn s)"
  by (auto simp: step_body_chunked_read_def Let_def Option.bind_eq_Some_conv split: read_body_status.splits dest!: send_error_requests)
    (use read_body_status.exhaust in blast)

lemma route_response_requests: "route_response meth s = Some (r, s') \<Longrightarrow> c_requests (sy_conn s') = c_requests (sy_conn s)"
  by (auto simp: route_response_def Let_def Option.bind_eq_Some_conv case_prod_beta split: option.splits)

lemma choose_response_requests: "choose_response cfg s = Some (r, s') \<Longrightarrow> c_requests (sy_conn s') = c_requests (sy_conn s)"
  unfolding choose_response_def Let_def
  by (auto simp: Option.bind_eq_Some_conv split: if_splits content_lookup_status.splits dest: route_response_requests)

lemma serialize_response_requests: "serialize_response res s = Some (r, s') \<Longrightarrow> c_requests (sy_conn s') = c_requests (sy_conn s)"
  by (auto simp: serialize_response_def Option.bind_eq_Some_conv)

lemma consume_request_requests: "consume_request s = Some s' \<Longrightarrow> c_requests (sy_conn s') = c_requests (sy_conn s)"
  by (auto simp: consume_request_def request_consume_def Let_def Option.bind_eq_Some_conv split: if_splits)

lemma set_resp_size_requests [simp]: "c_requests (sy_conn (set_resp_size n s)) = c_requests (sy_conn s)"
  by (simp add: set_resp_size_def)

lemma stream_release_requests [simp]: "c_requests (sy_conn (stream_release s)) = c_requests (sy_conn s)"
  by (simp add: stream_release_def Let_def)

lemma send_plain_requests: "send_plain res s = Some (p, s') \<Longrightarrow> c_requests (sy_conn s') = c_requests (sy_conn s)"
  unfolding send_plain_def Let_def
  by (auto simp: Option.bind_eq_Some_conv phase_send_begin_def split: option.splits
      dest!: serialize_response_requests consume_request_requests)


lemma step_response_build_requests:
  assumes "step_response_build cfg s = Some (p, s')"
  shows "c_requests (sy_conn s') = c_requests (sy_conn s)"
proof -
  obtain res s1 where c: "choose_response cfg s = Some (res, s1)"
    using assms by (auto simp: step_response_build_def Option.bind_eq_Some_conv)
  note n = choose_response_requests [OF c]
  show ?thesis
  proof (cases "rs_body res")
    case (BODY_STREAM stream)
    let ?s1 = "on_conn (\<lambda>c. c\<lparr>c_producer := stream\<rparr>) s1"
    from assms c BODY_STREAM obtain head s2 where s2: "serialize_response res ?s1 = Some (head, s2)"
      by (auto simp: step_response_build_def Option.bind_eq_Some_conv)
    note n2 = serialize_response_requests [OF s2]
    show ?thesis
    proof (cases head)
      case None
      with assms c BODY_STREAM s2
      have "send_plain (response_error_from_status PARSE_SERVER_ERROR) (stream_release s2) = Some (p, s')"
        by (auto simp: step_response_build_def Option.bind_eq_Some_conv)
      with n n2 show ?thesis by (auto dest: send_plain_requests)
    next
      case (Some k)
      with assms c BODY_STREAM s2 n n2 show ?thesis
        by (auto simp: step_response_build_def Option.bind_eq_Some_conv dest: consume_request_requests)
    qed
  qed (use assms c n in \<open>auto simp: step_response_build_def Option.bind_eq_Some_conv dest: send_plain_requests\<close>)
qed

lemma stream_abort_requests: "stream_abort s = Some (p, s') \<Longrightarrow> c_requests (sy_conn s') = c_requests (sy_conn s)"
  by (auto simp: stream_abort_def Option.bind_eq_Some_conv)

subsection \<open>Properties\<close>

text \<open>
  C11: driving a connection always ends, soon.  Each state change of the loop is paid for by a call of \<open>send\<close>
  the kernel answers, up to a constant: \<open>connection_step_process\<close> is a run of at most eight steps for each
  answer of the kernel still to come, and seven more; it stops when a step keeps its phase (there is
  nothing to read, or no room to send) or closes the connection.
\<close>

theorem drive_is_bounded:
  assumes "wf_config cfg" "conn_inv cfg slack fd s"
  shows "\<exists>n t s'. n \<le> 8 * length (outbox (sy_net s)) + 6 \<and> conn_steps cfg n s = Some t
    \<and> conn_step cfg t = Some s' \<and> connection_step_process cfg s = Some s'
    \<and> (c_phase (sy_conn s') = c_phase (sy_conn t) \<or> c_phase (sy_conn s') = CONN_CLOSED)"
proof -
  obtain s' where s': "connection_step_process cfg s = Some s'" using connection_step_process_ok [OF assms] by blast
  from connection_step_process_steps [OF this] conn_measure_bound [of s] s' show ?thesis
    by (meson le_trans)
qed

theorem drive_is_bounded_witness:
  "\<exists>n t s'. n \<le> 8 * length (outbox (sy_net (demo_system [Recv_Data ''PUT'', Recv_Eof] [Send_Room 9]))) + 6
    \<and> conn_steps esp32_config n (demo_system [Recv_Data ''PUT'', Recv_Eof] [Send_Room 9]) = Some t
    \<and> conn_step esp32_config t = Some s' \<and> connection_step_process esp32_config (demo_system [Recv_Data ''PUT'', Recv_Eof] [Send_Room 9]) = Some s'
    \<and> (c_phase (sy_conn s') = c_phase (sy_conn t) \<or> c_phase (sy_conn s') = CONN_CLOSED)"
  by (rule drive_is_bounded [OF wf_esp32_config demo_system_inv])

lemma conn_steps_ok:
  "wf_config cfg \<Longrightarrow> conn_inv cfg slack fd s \<Longrightarrow> \<exists>s'. conn_steps cfg n s = Some s' \<and> conn_inv cfg slack fd s'"
proof (induction n arbitrary: s)
  case (Suc n)
  from conn_step_ok [OF Suc.prems] Suc.IH [OF Suc.prems(1)] show ?case by fastforce
qed simp

end
