(* ===== verification/Pipelining.thy ===== *)
theory Pipelining
  imports Driving
begin

text \<open>
  Where one request ends and the next begins: \<open>next_req_offset\<close>, the bytes \<open>request_consume\<close> keeps, and
  the body a handler is shown.
\<close>

subsection \<open>Building a response consumes the request once\<close>

text \<open>The part of a connection that holds the bytes received.\<close>

definition intake :: "'u system \<Rightarrow> http_buffer \<times> nat" where
  "intake s = (c_req_buf (sy_conn s), c_next_req_offset (sy_conn s))"

lemma intake_simps [simp]:
  "intake (s\<lparr>sy_world := w\<rparr>) = intake s" "intake (s\<lparr>sy_router := r\<rparr>) = intake s" "intake (s\<lparr>sy_net := n\<rparr>) = intake s"
  "intake (on_conn (\<lambda>c. c\<lparr>c_producer := p\<rparr>) s) = intake s" "intake (on_conn (\<lambda>c. c\<lparr>c_st := st\<rparr>) s) = intake s"
  "intake (on_conn (\<lambda>c. c\<lparr>c_arena := a\<rparr>) s) = intake s" "intake (set_resp_size k s) = intake s" "intake (stream_release s) = intake s"
  by (simp_all add: intake_def set_resp_size_def stream_release_def Let_def)

lemma route_response_intake: "route_response meth s = Some (r, s') \<Longrightarrow> intake s' = intake s"
  by (auto simp: route_response_def Let_def Option.bind_eq_Some_conv case_prod_beta split: option.splits)

lemma choose_response_intake: "choose_response cfg s = Some (r, s') \<Longrightarrow> intake s' = intake s"
  unfolding choose_response_def Let_def
  by (auto simp: intake_def Option.bind_eq_Some_conv split: if_splits content_lookup_status.splits
      dest!: route_response_intake [unfolded intake_def])

lemma serialize_response_intake: "serialize_response res s = Some (r, s') \<Longrightarrow> intake s' = intake s"
  by (auto simp: serialize_response_def intake_def Option.bind_eq_Some_conv)

text \<open>The bytes behind the request that ends at \<open>off\<close>; offset 0 stands for all of them.\<close>

definition rest_behind :: "http_buffer \<times> nat \<Rightarrow> string" where
  "rest_behind i = (case i of (b, off) \<Rightarrow> if off = 0 then [] else drop off (live b))"

definition consumed :: "'u system \<Rightarrow> 'u system \<Rightarrow> bool" where
  "consumed s s' \<longleftrightarrow> live (c_req_buf (sy_conn s')) = rest_behind (intake s) \<and> c_next_req_offset (sy_conn s') = 0"

lemma consume_request_consumes:
  assumes "consume_request s = Some s'" "intake s = intake t" "wf_buffer (c_req_buf (sy_conn t))"
    "c_next_req_offset (sy_conn t) \<le> hb_size (c_req_buf (sy_conn t))"
  shows "consumed t s'"
proof -
  have eq: "c_req_buf (sy_conn s) = c_req_buf (sy_conn t)" "c_next_req_offset (sy_conn s) = c_next_req_offset (sy_conn t)"
    using assms(2) by (simp_all add: intake_def)
  have "wf_buffer (c_req_buf (sy_conn s))" "c_next_req_offset (sy_conn s) \<le> hb_size (c_req_buf (sy_conn s))"
    using assms(3,4) by (simp_all add: eq)
  from request_consume_ok [OF this] assms(1) show ?thesis
    by (auto simp: consume_request_def consumed_def rest_behind_def intake_def eq)
qed

lemma send_plain_consumes:
  assumes "send_plain res s = Some (p, s')" "intake s = intake t" "wf_buffer (c_req_buf (sy_conn t))"
    "c_next_req_offset (sy_conn t) \<le> hb_size (c_req_buf (sy_conn t))"
  shows "consumed t s'"
proof -
  have "\<exists>s1 s2. consume_request s1 = Some s2 \<and> intake s1 = intake t \<and> s' = on_conn (\<lambda>c. c\<lparr>c_st := St_Send 0\<rparr>) s2"
    using assms(1,2) unfolding send_plain_def Let_def
    by (auto simp: Option.bind_eq_Some_conv phase_send_begin_def split: option.splits dest!: serialize_response_intake)
      (metis intake_simps(7))+
  then obtain s1 s2 where "consume_request s1 = Some s2" "intake s1 = intake t" "s' = on_conn (\<lambda>c. c\<lparr>c_st := St_Send 0\<rparr>) s2" by blast
  with consume_request_consumes [OF this(1,2) assms(3,4)] show ?thesis by (simp add: consumed_def)
qed

lemma step_response_build_consumes:
  assumes "step_response_build cfg s = Some (p, s')" "wf_buffer (c_req_buf (sy_conn s))"
    "c_next_req_offset (sy_conn s) \<le> hb_size (c_req_buf (sy_conn s))"
  shows "consumed s s'"
proof -
  obtain res s1 where c: "choose_response cfg s = Some (res, s1)"
    using assms(1) by (auto simp: step_response_build_def Option.bind_eq_Some_conv)
  note n = choose_response_intake [OF c]
  show ?thesis
  proof (cases "rs_body res")
    case (BODY_STREAM stream)
    let ?s1 = "on_conn (\<lambda>c. c\<lparr>c_producer := stream\<rparr>) s1"
    from assms(1) c BODY_STREAM obtain head s2 where s2: "serialize_response res ?s1 = Some (head, s2)"
      by (auto simp: step_response_build_def Option.bind_eq_Some_conv)
    have n2: "intake s2 = intake s" using serialize_response_intake [OF s2] n by simp
    show ?thesis
    proof (cases head)
      case None
      with assms(1) c BODY_STREAM s2
      have "send_plain (response_error_from_status PARSE_SERVER_ERROR) (stream_release s2) = Some (p, s')"
        by (auto simp: step_response_build_def Option.bind_eq_Some_conv)
      from send_plain_consumes [OF this _ assms(2,3)] n2 show ?thesis by simp
    next
      case (Some k)
      with assms(1) c BODY_STREAM s2 obtain s3 where
        "consume_request (on_conn (\<lambda>c. c\<lparr>c_st := St_Stream STREAM_HEADER 0\<rparr>) (set_resp_size k s2)) = Some s3" "s' = s3"
        by (auto simp: step_response_build_def Option.bind_eq_Some_conv)
      with consume_request_consumes [OF this(1) _ assms(2,3)] n2 show ?thesis by simp
    qed
  qed (use assms c n in \<open>auto simp: step_response_build_def Option.bind_eq_Some_conv intro: send_plain_consumes\<close>)
qed


subsection \<open>What a reader of the request leaves for it\<close>

text \<open>A request without a body ends where its head ends.\<close>

definition bodyless :: "conn_phase \<times> 'u system \<Rightarrow> bool" where
  "bodyless r \<longleftrightarrow> (case r of (p, s) \<Rightarrow> p = CONN_BUILDING \<longrightarrow>
     c_body_len (sy_conn s) = 0 \<and> c_next_req_offset (sy_conn s) = c_body_start (sy_conn s)
     \<and> rq_body_len (c_req (sy_conn s)) = 0 \<and> rq_body (c_req (sy_conn s)) = Body_NULL)"

lemma phase_body_dispatch_bodyless: "phase_body_dispatch s = Some r \<Longrightarrow> bodyless r"
  by (auto simp: phase_body_dispatch_def bodyless_def Let_def Option.bind_eq_Some_conv split: if_splits)

lemma send_error_bodyless: "send_error st s = Some r \<Longrightarrow> bodyless r"
  by (auto simp: send_error_def bodyless_def phase_send_begin_def Option.bind_eq_Some_conv)

lemma bodyless_other [simp]: "p \<noteq> CONN_BUILDING \<Longrightarrow> bodyless (p, s)"
  by (simp add: bodyless_def)

lemma head_body_dispatch_bodyless: "head_body_dispatch h10 cl s = Some r \<Longrightarrow> bodyless r"
  by (auto simp: head_body_dispatch_def Let_def phase_send_100_begin_def split: if_splits
      dest: send_error_bodyless phase_body_dispatch_bodyless)

lemma head_framing_bodyless: "head_framing cfg h10 s = Some r \<Longrightarrow> bodyless r"
  by (auto simp: head_framing_def Let_def Option.bind_eq_Some_conv split: if_splits option.splits
      dest: send_error_bodyless head_body_dispatch_bodyless)

lemma head_received_bodyless: "head_received cfg h s = Some r \<Longrightarrow> bodyless r"
  by (auto simp: head_received_def Let_def Option.bind_eq_Some_conv split: if_splits option.splits
      dest: send_error_bodyless head_framing_bodyless)

lemma step_header_read_bodyless:
  assumes "step_header_read cfg s = Some r"
  shows "bodyless r"
proof -
  obtain res b net where "conn_recv_header (c_fd (sy_conn s)) (c_req_buf (sy_conn s)) (sy_net s) = Some (res, b, net)"
    using assms by (auto simp: step_header_read_def Option.bind_eq_Some_conv)
  with assms show ?thesis
    by (cases "rh_status res") (auto simp: step_header_read_def Let_def Option.bind_eq_Some_conv
        dest: send_error_bodyless head_received_bodyless)
qed


text \<open>The reader of a body of known length: the handler is shown everything that came, not only the body.\<close>

lemma step_body_cl_read_building:
  assumes "step_body_cl_read s = Some (CONN_BUILDING, s1)" "system_ok cfg slack fd s" "phase_ok cfg slack CONN_READING_BODY_CL (sy_conn s)"
  shows "c_body_start (sy_conn s) + c_body_len (sy_conn s) \<le> hb_size (c_req_buf (sy_conn s1))
    \<and> c_next_req_offset (sy_conn s1) = (if c_body_start (sy_conn s) + c_body_len (sy_conn s) < hb_size (c_req_buf (sy_conn s1))
        then c_body_start (sy_conn s) + c_body_len (sy_conn s) else 0)
    \<and> c_body_start (sy_conn s1) = c_body_start (sy_conn s) \<and> c_body_len (sy_conn s1) = c_body_len (sy_conn s)
    \<and> rq_body (c_req (sy_conn s1)) = In_Request_Buffer (c_body_start (sy_conn s))
    \<and> c_body_start (sy_conn s) + rq_body_len (c_req (sy_conn s1)) = hb_size (c_req_buf (sy_conn s1))"
proof -
  obtain n where n: "c_st (sy_conn s) = St_Cl n" "c_body_start (sy_conn s) + n = hb_size (c_req_buf (sy_conn s))"
    using assms(3) by (auto simp: phase_ok_def split: conn_st.splits)
  have buf: "wf_buffer (c_req_buf (sy_conn s))" "0 \<le> c_fd (sy_conn s)" using assms(2) by (auto elim!: system_okE)
  obtain mm where m: "hb_bytes (c_req_buf (sy_conn s)) = Some mm" using buf(1) by (rule wf_bufferE)
  obtain res b n' net bs where r: "conn_recv_body_cl (c_fd (sy_conn s)) (c_req_buf (sy_conn s)) (c_body_start (sy_conn s))
      (c_body_len (sy_conn s)) n (sy_net s) = Some (res, b, n', net)"
    "wf_buffer b" "live b = live (c_req_buf (sy_conn s)) @ bs" "n' = n + length bs"
    "if c_body_len (sy_conn s) \<le> n' then rb_status res = READ_BODY_OK
       \<and> rb_next_req_offset res = (if c_body_len (sy_conn s) < n' then c_body_start (sy_conn s) + c_body_len (sy_conn s) else 0)
     else rb_status res \<noteq> READ_BODY_OK \<and> rb_next_req_offset res = 0"
    using conn_recv_body_cl_loop_spec [OF buf(1)] m buf(2) unfolding conn_recv_body_cl_def by fastforce
  have size: "hb_size b = c_body_start (sy_conn s) + n'"
    using arg_cong [OF r(3), of length] length_live [OF r(2)] length_live [OF buf(1)] n(2) r(4) by simp
  have ok: "rb_status res = READ_BODY_OK"
    using assms(1) n(1) r(1) by (auto simp: step_body_cl_read_def st_received_def Let_def Option.bind_eq_Some_conv
        split: if_splits dest: send_error_next)
  then have "c_body_len (sy_conn s) \<le> n'" using r(5) by (auto split: if_splits)
  moreover have "sy_conn s1 = (sy_conn s)\<lparr>c_req_buf := b, c_st := St_Cl n', c_req := (c_req (sy_conn s))\<lparr>rq_body_len := n',
         rq_body := In_Request_Buffer (c_body_start (sy_conn s))\<rparr>, c_next_req_offset := rb_next_req_offset res\<rparr>"
    using assms(1) n(1) r(1) ok by (auto simp: step_body_cl_read_def st_received_def Let_def Option.bind_eq_Some_conv)
  ultimately show ?thesis using r(5) size by simp
qed

lemma step_body_chunked_read_building:
  assumes "wf_config cfg" "step_body_chunked_read cfg s = Some (CONN_BUILDING, s1)" "system_ok cfg slack fd s"
    "phase_ok cfg slack CONN_READING_BODY_CHUNKED (sy_conn s)"
  shows "\<exists>cs l rest. list_all (chunk_wf cfg) cs \<and> size_line_ok cfg l 0
    \<and> body_bytes (c_req_buf (sy_conn s1)) (c_body_start (sy_conn s1)) = chunked_text cs l @ rest
    \<and> c_next_req_offset (sy_conn s1) = c_body_start (sy_conn s1) + length (chunked_text cs l)
    \<and> live (c_body_dechunked (sy_conn s1)) = payload cs
    \<and> rq_body (c_req (sy_conn s1)) = In_Dechunked \<and> rq_body_len (c_req (sy_conn s1)) = length (payload cs)"
proof -
  obtain st where st: "c_st (sy_conn s) = St_Chunked st"
    "chunked_inv cfg (c_req_buf (sy_conn s)) (c_body_start (sy_conn s)) (c_body_dechunked (sy_conn s)) st"
    using assms(4) by (auto simp: phase_ok_def split: conn_st.splits)
  have fd: "0 < c_fd (sy_conn s)" using assms(3) by (auto elim!: system_okE)
  obtain res b d st' net where r: "conn_recv_body_chunked cfg (c_fd (sy_conn s)) (c_req_buf (sy_conn s)) (c_body_start (sy_conn s))
      (c_body_dechunked (sy_conn s)) st (sy_net s) = Some (res, b, d, st', net)" "wf_buffer d"
    "chunked_report cfg (c_body_start (sy_conn s)) res b d st'"
    using conn_recv_body_chunked_spec [OF assms(1) st(2) fd, of "sy_net s"] by blast
  have conn: "rb_status res = READ_BODY_OK" "sy_conn s1 = (sy_conn s)\<lparr>c_req_buf := b, c_body_dechunked := d, c_st := St_Chunked st',
      c_req := (c_req (sy_conn s))\<lparr>rq_body_len := hb_size d, rq_body := In_Dechunked\<rparr>, c_next_req_offset := rb_next_req_offset res\<rparr>"
    using assms(2) st(1) r(1) by (cases "rb_status res"; auto simp: step_body_chunked_read_def st_chunked_def Let_def
        Option.bind_eq_Some_conv dest: send_error_next)+
  obtain n where fin: "chunk_run cfg (chunk_decoder_zero, hb_cap d) (body_bytes b (c_body_start (sy_conn s))) = Finished n (live d)"
    "rb_next_req_offset res = c_body_start (sy_conn s) + n"
    using r(3) conn(1) unfolding chunked_report_def by (auto split: outcome.splits if_splits)
  have "cd_phase chunk_decoder_zero = CHUNK_SIZE" by (simp add: chunk_decoder_zero_def)
  from chunk_run_Finished_iff [OF this, of cfg "hb_cap d" "body_bytes b (c_body_start (sy_conn s))"] fin(1)
  obtain cs l rest where "list_all (chunk_wf cfg) cs" "size_line_ok cfg l 0"
    "body_bytes b (c_body_start (sy_conn s)) = chunked_text cs l @ rest" "n = length (chunked_text cs l)" "live d = payload cs" by blast
  moreover have "hb_size d = length (live d)" using length_live [OF r(2)] by simp
  ultimately show ?thesis using fin(2) by (intro exI [of _ cs] exI [of _ l] exI [of _ rest]) (simp add: conn(2))
qed


lemma step_send_100_bodyless:
  assumes "step_send_100 s = Some r"
  shows "bodyless r"
proof -
  obtain sent st sent' net where "st_sent (c_st (sy_conn s)) = Some sent"
    "response_send (c_fd (sy_conn s)) continue_100_buf sent (sy_net s) = Some (st, sent', net)"
    using assms by (auto simp: step_send_100_def Option.bind_eq_Some_conv)
  with assms show ?thesis by (cases st) (auto simp: step_send_100_def dest: phase_body_dispatch_bodyless)
qed

text \<open>Only the readers lead to \<open>CONN_BUILDING\<close>.\<close>

lemma conn_step_building:
  assumes "conn_step cfg s = Some s1" "c_phase (sy_conn s1) = CONN_BUILDING"
  obtains "c_phase (sy_conn s) \<notin> {CONN_READING_BODY_CL, CONN_READING_BODY_CHUNKED}" "bodyless (CONN_BUILDING, s1)"
  | s0 where "c_phase (sy_conn s) = CONN_READING_BODY_CL" "step_body_cl_read s = Some (CONN_BUILDING, s0)"
      "s1 = on_conn (\<lambda>c. c\<lparr>c_phase := CONN_BUILDING\<rparr>) s0"
  | s0 where "c_phase (sy_conn s) = CONN_READING_BODY_CHUNKED" "step_body_chunked_read cfg s = Some (CONN_BUILDING, s0)"
      "s1 = on_conn (\<lambda>c. c\<lparr>c_phase := CONN_BUILDING\<rparr>) s0"
proof -
  obtain p s0 where s1: "s1 = on_conn (\<lambda>c. c\<lparr>c_phase := p\<rparr>) s0"
    and step: "(case c_phase (sy_conn s) of
        CONN_READING_REQUEST \<Rightarrow> step_header_read cfg s
      | CONN_SENDING_100 \<Rightarrow> step_send_100 s
      | CONN_READING_BODY_CL \<Rightarrow> step_body_cl_read s
      | CONN_READING_BODY_CHUNKED \<Rightarrow> step_body_chunked_read cfg s
      | CONN_BUILDING \<Rightarrow> step_response_build cfg s
      | CONN_SENDING_RESPONSE \<Rightarrow> step_response_send cfg s
      | CONN_SENDING_RESPONSE_STREAM \<Rightarrow> step_response_send_stream cfg s
      | CONN_CLOSED \<Rightarrow> Some (CONN_CLOSED, s)) = Some (p, s0)"
    using assms(1) unfolding conn_step_def by (auto simp: Option.bind_eq_Some_conv)
  have p: "p = CONN_BUILDING" using assms(2) s1 by simp
  have eq: "bodyless (CONN_BUILDING, s1) = bodyless (CONN_BUILDING, s0)" by (simp add: s1 bodyless_def)
  show thesis
  proof (cases "c_phase (sy_conn s)")
    case CONN_READING_REQUEST
    with step p step_header_read_bodyless [of cfg s "(p, s0)"] that(1) eq show ?thesis by simp
  next
    case CONN_SENDING_100
    with step p step_send_100_bodyless [of s "(p, s0)"] that(1) eq show ?thesis by simp
  next
    case CONN_SENDING_RESPONSE
    with step p step_response_send_next [of cfg s p s0] show ?thesis by simp
  next
    case CONN_SENDING_RESPONSE_STREAM
    with step p step_response_send_stream_next [of cfg s p s0] show ?thesis by simp
  next
    case CONN_BUILDING
    with step p step_response_build_next [of cfg s p s0] show ?thesis by simp
  qed (use that(2,3) step p s1 in simp_all)
qed

subsection \<open>Properties\<close>

text \<open>
  C10: a request is taken off the buffer exactly once and nothing of the next one is lost.  When the reader of
  a request hands it on, the response is built in one more step, and the bytes that stay in the request
  buffer are exactly those behind the request: behind the head of a request without a body, behind the
  announced length, behind the chunked body of the grammar.  A handler gets the payload of a chunked body; for
  a body of announced length it gets the pipelined bytes behind it as well, as a part of \<open>body_len\<close>.
\<close>

theorem pipelined_bytes_are_kept:
  assumes "wf_config cfg" "conn_inv cfg slack fd s" "conn_step cfg s = Some s1" "c_phase (sy_conn s1) = CONN_BUILDING"
    "0 < c_body_start (sy_conn s1)"
  shows "\<exists>s2. conn_step cfg s1 = Some s2 \<and> c_phase (sy_conn s2) \<in> {CONN_SENDING_RESPONSE, CONN_SENDING_RESPONSE_STREAM}
    \<and> c_next_req_offset (sy_conn s2) = 0
    \<and> (if c_phase (sy_conn s) = CONN_READING_BODY_CHUNKED then
         \<exists>cs l. list_all (chunk_wf cfg) cs \<and> size_line_ok cfg l 0
           \<and> body_bytes (c_req_buf (sy_conn s1)) (c_body_start (sy_conn s1)) = chunked_text cs l @ live (c_req_buf (sy_conn s2))
           \<and> live (c_body_dechunked (sy_conn s1)) = payload cs \<and> rq_body_len (c_req (sy_conn s1)) = length (payload cs)
       else live (c_req_buf (sy_conn s2)) = drop (c_body_start (sy_conn s1) + c_body_len (sy_conn s1)) (live (c_req_buf (sy_conn s1)))
         \<and> rq_body_len (c_req (sy_conn s1)) = (if c_phase (sy_conn s) = CONN_READING_BODY_CL
             then c_body_len (sy_conn s1) + length (live (c_req_buf (sy_conn s2))) else 0))"
proof -
  have inv1: "conn_inv cfg slack fd s1" using conn_step_ok [OF assms(1,2)] assms(3) by auto
  then have buf: "wf_buffer (c_req_buf (sy_conn s1))" "c_next_req_offset (sy_conn s1) \<le> hb_size (c_req_buf (sy_conn s1))"
    using assms(4) by (auto simp: conn_inv_def phase_ok_def elim!: system_okE)
  obtain s2 where s2: "conn_step cfg s1 = Some s2" using conn_step_ok [OF assms(1) inv1] by blast
  obtain p t where t: "step_response_build cfg s1 = Some (p, t)" "s2 = on_conn (\<lambda>c. c\<lparr>c_phase := p\<rparr>) t"
    using s2 assms(4) by (auto simp: conn_step_def Option.bind_eq_Some_conv)
  have p: "p \<in> {CONN_SENDING_RESPONSE, CONN_SENDING_RESPONSE_STREAM}" using step_response_build_next [OF t(1)] by auto
  have rest: "live (c_req_buf (sy_conn s2)) = rest_behind (intake s1)" "c_next_req_offset (sy_conn s2) = 0"
    using step_response_build_consumes [OF t(1) buf] t(2) by (simp_all add: consumed_def)
  note len = length_live [OF buf(1)]
  have ok: "system_ok cfg slack fd s" "phase_ok cfg slack (c_phase (sy_conn s)) (sy_conn s)" using assms(2) by (simp_all add: conn_inv_def)
  show ?thesis using assms(3,4)
  proof (cases rule: conn_step_building)
    case 1
    with s2 p t(2) rest assms(5) show ?thesis by (intro exI [of _ s2]) (simp add: bodyless_def rest_behind_def intake_def)
  next
    case (2 s0)
    from step_body_cl_read_building [OF 2(2) ok(1)] ok(2) 2 have cl:
      "c_body_start (sy_conn s1) + c_body_len (sy_conn s1) \<le> hb_size (c_req_buf (sy_conn s1))"
      "c_next_req_offset (sy_conn s1) = (if c_body_start (sy_conn s1) + c_body_len (sy_conn s1) < hb_size (c_req_buf (sy_conn s1))
        then c_body_start (sy_conn s1) + c_body_len (sy_conn s1) else 0)"
      "c_body_start (sy_conn s1) + rq_body_len (c_req (sy_conn s1)) = hb_size (c_req_buf (sy_conn s1))" by simp_all
    have "live (c_req_buf (sy_conn s2)) = drop (c_body_start (sy_conn s1) + c_body_len (sy_conn s1)) (live (c_req_buf (sy_conn s1)))"
      using cl(1,2) rest(1) assms(5) len by (auto simp: rest_behind_def intake_def)
    with cl(1,3) s2 p t(2) rest(2) 2(1) len show ?thesis by (intro exI [of _ s2]) simp
  next
    case (3 s0)
    from step_body_chunked_read_building [OF assms(1) 3(2) ok(1)] ok(2) 3 obtain cs l r where ch:
      "list_all (chunk_wf cfg) cs" "size_line_ok cfg l 0"
      "body_bytes (c_req_buf (sy_conn s1)) (c_body_start (sy_conn s1)) = chunked_text cs l @ r"
      "c_next_req_offset (sy_conn s1) = c_body_start (sy_conn s1) + length (chunked_text cs l)"
      "live (c_body_dechunked (sy_conn s1)) = payload cs" "rq_body_len (c_req (sy_conn s1)) = length (payload cs)" by auto
    have "live (c_req_buf (sy_conn s2)) = drop (length (chunked_text cs l)) (body_bytes (c_req_buf (sy_conn s1)) (c_body_start (sy_conn s1)))"
      using rest(1) ch(4) assms(5) by (simp add: rest_behind_def intake_def body_bytes_def add.commute)
    then have "live (c_req_buf (sy_conn s2)) = r" by (simp add: ch(3))
    with ch s2 p t(2) rest(2) 3(1) show ?thesis
      by (intro exI [of _ s2] conjI) (simp_all, blast)
  qed
qed


text \<open>A connection that has a body of two bytes and the start of the next request in its buffer.\<close>

definition demo_reading :: "unit system" where
  "demo_reading = (demo_system [] [])\<lparr>sy_conn := demo_conn\<lparr>c_phase := CONN_READING_BODY_CL,
     c_req_buf := demo_buffer 4096 ''HEADabGET'', c_st := St_Cl 5, c_body_start := 4, c_body_len := 2\<rparr>\<rparr>"

lemma demo_reading_inv: "conn_inv esp32_config 0 5 demo_reading"
  using demo_conn_ok wf_demo_buffer [of "''HEADabGET''" 4096]
  by (simp add: conn_inv_def system_ok_def conn_mem_ok_def phase_ok_def demo_reading_def demo_system_def esp32_config_def)
    (simp add: demo_buffer_def)

lemma demo_reading_step:
  "conn_step esp32_config demo_reading = Some (on_conn (\<lambda>c. c\<lparr>c_phase := CONN_BUILDING, c_next_req_offset := 6,
     c_req := (c_req c)\<lparr>rq_body_len := 5, rq_body := In_Request_Buffer 4\<rparr>\<rparr>) demo_reading)"
proof -
  have "conn_recv_body_cl 5 (demo_buffer 4096 ''HEADabGET'') 4 2 5 n
      = Some (\<lparr> rb_status = READ_BODY_OK, rb_next_req_offset = 6 \<rparr>, demo_buffer 4096 ''HEADabGET'', 5, n)" for n
    by (simp add: conn_recv_body_cl_def conn_recv_body_cl_loop.simps demo_buffer_def)
  then show ?thesis
    by (simp add: conn_step_def step_body_cl_read_def st_received_def demo_reading_def demo_system_def demo_conn_def Let_def)
qed

theorem pipelined_bytes_are_kept_witness:
  "\<exists>s1 s2. conn_step esp32_config demo_reading = Some s1 \<and> conn_step esp32_config s1 = Some s2
    \<and> c_phase (sy_conn s2) \<in> {CONN_SENDING_RESPONSE, CONN_SENDING_RESPONSE_STREAM}
    \<and> live (c_req_buf (sy_conn s2)) = ''GET'' \<and> rq_body_len (c_req (sy_conn s1)) = 5 \<and> c_body_len (sy_conn s1) = 2"
proof -
  let ?s1 = "on_conn (\<lambda>c. c\<lparr>c_phase := CONN_BUILDING, c_next_req_offset := 6,
     c_req := (c_req c)\<lparr>rq_body_len := 5, rq_body := In_Request_Buffer 4\<rparr>\<rparr>) demo_reading"
  have fields: "c_phase (sy_conn ?s1) = CONN_BUILDING" "0 < c_body_start (sy_conn ?s1)" by (simp_all add: demo_reading_def)
  obtain s2 where s2: "conn_step esp32_config ?s1 = Some s2"
    "c_phase (sy_conn s2) \<in> {CONN_SENDING_RESPONSE, CONN_SENDING_RESPONSE_STREAM}"
    "live (c_req_buf (sy_conn s2)) = drop (c_body_start (sy_conn ?s1) + c_body_len (sy_conn ?s1)) (live (c_req_buf (sy_conn ?s1)))"
    using pipelined_bytes_are_kept [OF wf_esp32_config demo_reading_inv demo_reading_step fields] by (auto simp: demo_reading_def)
  have "live (c_req_buf (sy_conn s2)) = ''GET''"
    by (simp add: s2(3)) (simp add: demo_reading_def demo_buffer_def live_def)
  with s2(1,2) demo_reading_step show ?thesis
    by (intro exI [of _ ?s1] exI [of _ s2]) (simp add: demo_reading_def)
qed

end
