(* ===== verification/Resending.thy ===== *)
theory Resending
  imports Pipelining
begin

text \<open>
  What a client sees when a response does not fit into one \<open>send\<close>, and when a rejected request asked to
  keep the connection: in both cases bytes it has been sent already come again.
\<close>

subsection \<open>A response that is not taken at once\<close>

text \<open>The socket after it took the first \<open>k\<close> bytes of \<open>bs\<close>.\<close>

definition delivered :: "string \<Rightarrow> nat \<Rightarrow> net \<Rightarrow> net" where
  "delivered bs k net = net\<lparr>outbox := tl (outbox net), wire := wire net @ take k bs\<rparr>"

lemma delivered_fields [simp]:
  "inbox (delivered bs k net) = inbox net" "outbox (delivered bs k net) = tl (outbox net)"
  "wire (delivered bs k net) = wire net @ take k bs"
  by (simp_all add: delivered_def)

lemma response_send_room:
  assumes "wf_buffer resp" "0 < hb_size resp" "0 \<le> fd" "outbox net = Send_Room k # evs"
  shows "response_send fd resp 0 net = Some (if k < hb_size resp then SEND_HAS_MORE else SEND_OK,
    min k (hb_size resp), delivered (live resp) k net)"
proof -
  obtain m where m: "hb_bytes resp = Some m" "length m = hb_cap resp" "hb_size resp \<le> hb_cap resp" "live resp = take (hb_size resp) m"
    using assms(1) by (rule wf_bufferE)
  have "rd_range m 0 (hb_size resp) = Some (live resp)" using m by (simp add: rd_range_def)
  with m assms(2-4) show ?thesis
    by (cases "k < hb_size resp") (auto simp: response_send_def send_def delivered_def Let_def min_def length_live [OF assms(1)])
qed

text \<open>A connection at the start of a response.\<close>

definition sending :: "config \<Rightarrow> nat \<Rightarrow> int \<Rightarrow> 'u system \<Rightarrow> bool" where
  "sending cfg slack fd s \<longleftrightarrow> conn_inv cfg slack fd s \<and> c_phase (sy_conn s) = CONN_SENDING_RESPONSE \<and> c_st (sy_conn s) = St_Send 0"

definition pending_response :: "'u system \<Rightarrow> string" where
  "pending_response s = live (c_resp_buf (sy_conn s))"

lemma sendingE:
  assumes "sending cfg slack fd s"
  obtains "wf_buffer (c_resp_buf (sy_conn s))" "0 < hb_size (c_resp_buf (sy_conn s))" "0 \<le> c_fd (sy_conn s)"
    "length (pending_response s) = hb_size (c_resp_buf (sy_conn s))"
  using assms by (auto simp: sending_def conn_inv_def phase_ok_def pending_response_def length_live elim!: system_okE)

lemma conn_step_partial:
  assumes "sending cfg slack fd s" "outbox (sy_net s) = Send_Room k # evs" "k < length (pending_response s)"
  shows "conn_step cfg s = Some (s\<lparr>sy_net := delivered (pending_response s) k (sy_net s)\<rparr>)"
proof -
  from assms(1) obtain b where b: "wf_buffer (c_resp_buf (sy_conn s))" "0 < hb_size (c_resp_buf (sy_conn s))" "0 \<le> c_fd (sy_conn s)"
    "length (pending_response s) = hb_size (c_resp_buf (sy_conn s))" by (rule sendingE)
  have st: "c_st (sy_conn s) = St_Send 0" "c_phase (sy_conn s) = CONN_SENDING_RESPONSE" using assms(1) by (simp_all add: sending_def)
  have same: "(sy_conn s)\<lparr>c_st := St_Send 0, c_phase := CONN_SENDING_RESPONSE\<rparr> = sy_conn s"
    using st by (cases "sy_conn s") simp
  show ?thesis
    using response_send_room [OF b(1-3) assms(2)] assms(3) b(4) st same
    by (simp add: conn_step_def step_response_send_def st_sent_def phase_send_begin_def pending_response_def)
qed

lemma sending_delivered:
  "sending cfg slack fd s \<Longrightarrow> sending cfg slack fd (s\<lparr>sy_net := net\<rparr>)"
  by (auto simp: sending_def conn_inv_def system_ok_def)

lemma conn_steps_partial:
  assumes "sending cfg slack fd s" "outbox (sy_net s) = map Send_Room ks @ evs" "\<forall>k \<in> set ks. k < length (pending_response s)"
  shows "conn_steps cfg (length ks) s = Some (s\<lparr>sy_net := (sy_net s)\<lparr>outbox := evs,
    wire := wire (sy_net s) @ concat (map (\<lambda>k. take k (pending_response s)) ks)\<rparr>\<rparr>)"
  using assms
proof (induction ks arbitrary: s)
  case (Cons k ks)
  let ?s1 = "s\<lparr>sy_net := delivered (pending_response s) k (sy_net s)\<rparr>"
  have "conn_step cfg s = Some ?s1" using conn_step_partial [OF Cons.prems(1)] Cons.prems(2,3) by simp
  moreover have "conn_steps cfg (length ks) ?s1 = Some (?s1\<lparr>sy_net := (sy_net ?s1)\<lparr>outbox := evs,
      wire := wire (sy_net ?s1) @ concat (map (\<lambda>k. take k (pending_response ?s1)) ks)\<rparr>\<rparr>)"
    using Cons.prems by (intro Cons.IH sending_delivered) (simp_all add: pending_response_def)
  ultimately show ?case by (simp add: pending_response_def delivered_def)
qed simp

text \<open>The \<open>send\<close> that takes all of it ends the response.\<close>

lemma conn_step_complete:
  assumes "sending cfg slack fd s" "outbox (sy_net s) = Send_Room k # evs" "length (pending_response s) \<le> k"
  shows "\<exists>s'. conn_step cfg s = Some s' \<and> sy_net s' = delivered (pending_response s) k (sy_net s)
    \<and> c_requests (sy_conn s') = c_requests (sy_conn s) + 1 \<and> sy_world s' = sy_world s \<and> sy_router s' = sy_router s
    \<and> (if c_keep_alive (sy_conn s) \<and> c_requests (sy_conn s) + 1 < max_requests cfg
       then c_phase (sy_conn s') = CONN_READING_REQUEST \<and> c_req_buf (sy_conn s') = c_req_buf (sy_conn s)
         \<and> c_req (sy_conn s') = request_zero \<and> \<not> c_keep_alive (sy_conn s')
       else c_phase (sy_conn s') = CONN_CLOSED)"
proof -
  from assms(1) obtain b where b: "wf_buffer (c_resp_buf (sy_conn s))" "0 < hb_size (c_resp_buf (sy_conn s))" "0 \<le> c_fd (sy_conn s)"
    "length (pending_response s) = hb_size (c_resp_buf (sy_conn s))" by (rule sendingE)
  have st: "c_st (sy_conn s) = St_Send 0" "c_phase (sy_conn s) = CONN_SENDING_RESPONSE" using assms(1) by (simp_all add: sending_def)
  have mark: "c_req_mark (sy_conn s) \<le> ar_used (c_arena (sy_conn s))" "scratch_ok (c_arena (sy_conn s))"
    using assms(1) by (auto simp: sending_def conn_inv_def elim!: system_okE)
  then obtain a where a: "arena_reset_to (c_arena (sy_conn s)) (c_req_mark (sy_conn s)) = Some a"
    by (auto simp: arena_reset_to_def Let_def fault_simps scratch_ok_def wf_arena_def)
  show ?thesis
    using response_send_room [OF b(1-3) assms(2)] assms(3) b(4) st a
    by (auto simp: conn_step_def step_response_send_def st_sent_def request_done_def connection_reset_def Let_def pending_response_def)
qed


subsection \<open>A rejected request that asked to keep the connection\<close>

definition error_text :: "'u system \<Rightarrow> parse_status \<Rightarrow> string" where
  "error_text s st = (case time_now (sy_world s) of None \<Rightarrow> []
     | Some t \<Rightarrow> response_text t (response_error_from_status st :: unit response) False)"

text \<open>A request buffer that holds a head which parses, asks to keep the connection and breaks the rule \<open>st\<close>.\<close>

definition keeps_and_fails :: "config \<Rightarrow> http_buffer \<Rightarrow> parse_status \<Rightarrow> bool" where
  "keeps_and_fails cfg b st \<longleftrightarrow> memmem (live b) (crlf @ crlf) \<noteq> None
     \<and> (case request_parse cfg (the (hb_bytes b)) (hb_size b) request_zero of
          Some (res, req) \<Rightarrow> status res = PARSE_OK \<and> asks_keep_alive req \<and> head_error cfg req = Some st
        | None \<Rightarrow> False)"

lemma rejected_step:
  assumes "wf_config cfg" "conn_inv cfg slack fd s" "c_phase (sy_conn s) = CONN_READING_REQUEST"
    "keeps_and_fails cfg (c_req_buf (sy_conn s)) st"
  shows "\<exists>s1. conn_step cfg s = Some s1 \<and> sending cfg slack fd s1 \<and> pending_response s1 = error_text s st
    \<and> c_keep_alive (sy_conn s1) \<and> c_req_buf (sy_conn s1) = c_req_buf (sy_conn s) \<and> sy_net s1 = sy_net s
    \<and> c_requests (sy_conn s1) = c_requests (sy_conn s) \<and> sy_world s1 = sy_world s"
proof -
  let ?b = "c_req_buf (sy_conn s)"
  have ok: "system_ok cfg slack fd s" "c_req (sy_conn s) = request_zero" using assms(2,3) by (simp_all add: conn_inv_def phase_ok_def)
  then have buf: "wf_buffer ?b" "0 \<le> fd" "fd = c_fd (sy_conn s)" by (auto elim!: system_okE)
  obtain t where t: "memmem (live ?b) (crlf @ crlf) = Some t" using assms(4) by (auto simp: keeps_and_fails_def)
  obtain m where m: "hb_bytes ?b = Some m" using buf(1) by (rule wf_bufferE)
  obtain res req where p: "request_parse cfg m (hb_size ?b) request_zero = Some (res, req)" "status res = PARSE_OK"
    "asks_keep_alive req" "head_error cfg req = Some st"
    using assms(4) m by (auto simp: keeps_and_fails_def split: option.splits)
  let ?r = "\<lparr> rh_status = READ_HEADER_OK, rh_total_received = hb_size ?b, rh_body_start = t + 4 \<rparr>"
  have "t + 4 \<le> hb_size ?b" using memmem_Some [OF t] length_live [OF buf(1)] by simp
  with head_received_decides [OF assms(1) m, of res req ?r] p ok(2) obtain coding len where
    d: "head_received cfg ?r s = send_error st (head_update req (t + 4) (c_keep_alive (sy_conn s) \<or> asks_keep_alive req) coding len s)"
    by (auto simp: head_follows_def)
  define s0 where "s0 = head_update req (t + 4) (c_keep_alive (sy_conn s) \<or> asks_keep_alive req) coding len s"
  have s0: "c_keep_alive (sy_conn s0)" "c_req_buf (sy_conn s0) = ?b" "sy_net s0 = sy_net s" "sy_world s0 = sy_world s"
    "c_requests (sy_conn s0) = c_requests (sy_conn s)" using p(3) by (simp_all add: s0_def)
  have ok0: "system_ok cfg slack fd s0" unfolding s0_def by (rule head_update_ok [OF ok(1)])
  from send_error_rejects [OF assms(1) ok0] obtain b where b:
    "send_error st s0 = Some (CONN_SENDING_RESPONSE, on_conn (\<lambda>c. c\<lparr>c_resp_buf := b, c_st := St_Send 0\<rparr>) s0)"
    "rejected st (CONN_SENDING_RESPONSE, on_conn (\<lambda>c. c\<lparr>c_resp_buf := b, c_st := St_Send 0\<rparr>) s0)" by blast
  have same: "(on_conn (\<lambda>c. c\<lparr>c_req_buf := ?b\<rparr>) s)\<lparr>sy_net := sy_net s\<rparr> = s" by simp
  have "step_header_read cfg s = send_error st s0"
    using conn_recv_header_buffered [OF buf(1,2) t, of "sy_net s"] assms(3) d
    by (simp add: step_header_read_def buf(3) [symmetric] s0_def same)
  then have step: "conn_step cfg s = Some (on_conn (\<lambda>c. c\<lparr>c_resp_buf := b, c_st := St_Send 0, c_phase := CONN_SENDING_RESPONSE\<rparr>) s0)"
    using assms(3) b(1) by (simp add: conn_step_def)
  have "conn_inv cfg slack fd (on_conn (\<lambda>c. c\<lparr>c_resp_buf := b, c_st := St_Send 0, c_phase := CONN_SENDING_RESPONSE\<rparr>) s0)"
    using conn_step_ok [OF assms(1,2)] step by auto
  with step b(2) s0 show ?thesis
    by (intro exI [of _ "on_conn (\<lambda>c. c\<lparr>c_resp_buf := b, c_st := St_Send 0, c_phase := CONN_SENDING_RESPONSE\<rparr>) s0"])
      (auto simp: sending_def pending_response_def error_text_def rejected_def split: option.splits)
qed

lemma rejected_round:
  assumes "wf_config cfg" "conn_inv cfg slack fd s" "c_phase (sy_conn s) = CONN_READING_REQUEST"
    "keeps_and_fails cfg (c_req_buf (sy_conn s)) st" "outbox (sy_net s) = Send_Room m # evs"
    "length (error_text s st) \<le> m" "c_requests (sy_conn s) + 1 < max_requests cfg"
  shows "\<exists>s2. conn_steps cfg 2 s = Some s2 \<and> conn_inv cfg slack fd s2 \<and> c_phase (sy_conn s2) = CONN_READING_REQUEST
    \<and> c_req_buf (sy_conn s2) = c_req_buf (sy_conn s) \<and> sy_world s2 = sy_world s
    \<and> inbox (sy_net s2) = inbox (sy_net s) \<and> outbox (sy_net s2) = evs \<and> wire (sy_net s2) = wire (sy_net s) @ error_text s st
    \<and> c_requests (sy_conn s2) = c_requests (sy_conn s) + 1"
proof -
  obtain s1 where s1: "conn_step cfg s = Some s1" "sending cfg slack fd s1" "pending_response s1 = error_text s st"
    "c_keep_alive (sy_conn s1)" "c_req_buf (sy_conn s1) = c_req_buf (sy_conn s)" "sy_net s1 = sy_net s"
    "c_requests (sy_conn s1) = c_requests (sy_conn s)" "sy_world s1 = sy_world s"
    using rejected_step [OF assms(1-4)] by blast
  have "outbox (sy_net s1) = Send_Room m # evs" "length (pending_response s1) \<le> m" using s1 assms(5,6) by simp_all
  from conn_step_complete [OF s1(2) this] obtain s2 where s2: "conn_step cfg s1 = Some s2"
    "sy_net s2 = delivered (error_text s st) m (sy_net s)" "c_requests (sy_conn s2) = c_requests (sy_conn s) + 1" "sy_world s2 = sy_world s"
    "c_phase (sy_conn s2) = CONN_READING_REQUEST" "c_req_buf (sy_conn s2) = c_req_buf (sy_conn s)"
    using s1 assms(7) by auto
  have "conn_inv cfg slack fd s1" using s1(2) by (simp add: sending_def)
  from conn_step_ok [OF assms(1) this] s2(1) have "conn_inv cfg slack fd s2" by auto
  with s1(1) s2 assms(5,6) show ?thesis by (intro exI [of _ s2]) (simp add: numeral_2_eq_2)
qed

lemma rejected_rounds:
  assumes "wf_config cfg" "conn_inv cfg slack fd s" "c_phase (sy_conn s) = CONN_READING_REQUEST"
    "keeps_and_fails cfg (c_req_buf (sy_conn s)) st" "outbox (sy_net s) = replicate k (Send_Room m) @ evs"
    "length (error_text s st) \<le> m" "c_requests (sy_conn s) + k < max_requests cfg"
  shows "\<exists>s'. conn_steps cfg (2 * k) s = Some s' \<and> conn_inv cfg slack fd s' \<and> c_phase (sy_conn s') = CONN_READING_REQUEST
    \<and> c_req_buf (sy_conn s') = c_req_buf (sy_conn s) \<and> inbox (sy_net s') = inbox (sy_net s)
    \<and> wire (sy_net s') = wire (sy_net s) @ concat (replicate k (error_text s st))"
  using assms
proof (induction k arbitrary: s)
  case (Suc k)
  obtain s2 where s2: "conn_steps cfg 2 s = Some s2" "conn_inv cfg slack fd s2" "c_phase (sy_conn s2) = CONN_READING_REQUEST"
    "c_req_buf (sy_conn s2) = c_req_buf (sy_conn s)" "sy_world s2 = sy_world s" "inbox (sy_net s2) = inbox (sy_net s)"
    "outbox (sy_net s2) = replicate k (Send_Room m) @ evs" "wire (sy_net s2) = wire (sy_net s) @ error_text s st"
    "c_requests (sy_conn s2) = c_requests (sy_conn s) + 1"
    using rejected_round [OF Suc.prems(1-4) _ Suc.prems(6), of "replicate k (Send_Room m) @ evs"] Suc.prems(5,7) by auto
  have same: "error_text s2 st = error_text s st" by (simp add: error_text_def s2(5))
  from Suc.IH [OF Suc.prems(1) s2(2,3) _ s2(7)] obtain s' where
    "conn_steps cfg (2 * k) s2 = Some s'" "conn_inv cfg slack fd s'" "c_phase (sy_conn s') = CONN_READING_REQUEST"
    "c_req_buf (sy_conn s') = c_req_buf (sy_conn s2)" "inbox (sy_net s') = inbox (sy_net s2)"
    "wire (sy_net s') = wire (sy_net s2) @ concat (replicate k (error_text s2 st))"
    using Suc.prems(4,6,7) s2(4,9) same by auto
  then show ?case using conn_steps_add [of cfg 2 "2 * k" s] s2 same by (intro exI [of _ s']) simp
qed auto


lemma error_text_short: "system_ok cfg slack fd s \<Longrightarrow> length (error_text s st) \<le> 200"
proof -
  assume "system_ok cfg slack fd s"
  then obtain t where t: "time_now (sy_world s) = Some t" "sane_clock t" by (rule system_clock)
  obtain code reason where "(code, reason) \<in> set canned" "response_error_from_status st = (response_literal code reason [] :: unit response)"
    using error_from_status_canned [of st] by blast
  then show ?thesis using canned_length t by (simp add: error_text_def)
qed

subsection \<open>Properties\<close>

text \<open>
  C9: a response is only completed by one \<open>send\<close> that takes all of it.  Whenever the kernel takes a part, \<open>step_response_send\<close>
  moves its cursor back to the start, so the same bytes are sent again: after any number of such calls the
  wire holds all the partial copies, one after the other, and the connection has not moved.  Only a call that takes
  the whole response ends it, with the complete text behind the copies; a response larger than what
  the socket takes at once is never finished, and the client cannot read it.
\<close>

theorem response_needs_one_whole_send:
  assumes "conn_inv cfg slack fd s" "c_phase (sy_conn s) = CONN_SENDING_RESPONSE" "c_st (sy_conn s) = St_Send 0"
    "outbox (sy_net s) = map Send_Room ks @ evs" "\<forall>k \<in> set ks. k < length (live (c_resp_buf (sy_conn s)))"
  shows "\<exists>t. conn_steps cfg (length ks) s = Some t \<and> c_phase (sy_conn t) = CONN_SENDING_RESPONSE
    \<and> c_requests (sy_conn t) = c_requests (sy_conn s)
    \<and> wire (sy_net t) = wire (sy_net s) @ concat (map (\<lambda>k. take k (live (c_resp_buf (sy_conn s)))) ks)
    \<and> (case evs of Send_Room m # _ \<Rightarrow>
         (\<exists>t'. conn_step cfg t = Some t'
            \<and> (if length (live (c_resp_buf (sy_conn s))) \<le> m
               then wire (sy_net t') = wire (sy_net t) @ live (c_resp_buf (sy_conn s))
                 \<and> c_requests (sy_conn t') = c_requests (sy_conn s) + 1 \<and> c_phase (sy_conn t') \<in> {CONN_READING_REQUEST, CONN_CLOSED}
               else c_phase (sy_conn t') = CONN_SENDING_RESPONSE))
       | _ \<Rightarrow> True)"
proof -
  let ?bs = "live (c_resp_buf (sy_conn s))"
  define t where "t = s\<lparr>sy_net := (sy_net s)\<lparr>outbox := evs, wire := wire (sy_net s) @ concat (map (\<lambda>k. take k ?bs) ks)\<rparr>\<rparr>"
  have sending: "sending cfg slack fd s" using assms(1-3) by (simp add: sending_def)
  have run: "conn_steps cfg (length ks) s = Some t"
    using conn_steps_partial [OF sending assms(4)] assms(5) by (simp add: pending_response_def t_def)
  have t: "sending cfg slack fd t" "pending_response t = ?bs" "outbox (sy_net t) = evs" "c_requests (sy_conn t) = c_requests (sy_conn s)"
    using sending_delivered [OF sending] by (simp_all add: t_def pending_response_def)
  have last: "\<exists>t'. conn_step cfg t = Some t'
            \<and> (if length ?bs \<le> m then wire (sy_net t') = wire (sy_net t) @ ?bs
                 \<and> c_requests (sy_conn t') = c_requests (sy_conn s) + 1 \<and> c_phase (sy_conn t') \<in> {CONN_READING_REQUEST, CONN_CLOSED}
               else c_phase (sy_conn t') = CONN_SENDING_RESPONSE)" if "evs = Send_Room m # rest" for m rest
  proof (cases "length ?bs \<le> m")
    case True
    with conn_step_complete [OF t(1), of m rest] t(2-4) that show ?thesis by (auto split: if_splits)
  next
    case False
    with conn_step_partial [OF t(1), of m rest] t(1-3) that show ?thesis by (simp add: sending_def)
  qed
  have "case evs of Send_Room m # _ \<Rightarrow>
         (\<exists>t'. conn_step cfg t = Some t'
            \<and> (if length ?bs \<le> m then wire (sy_net t') = wire (sy_net t) @ ?bs
                 \<and> c_requests (sy_conn t') = c_requests (sy_conn s) + 1 \<and> c_phase (sy_conn t') \<in> {CONN_READING_REQUEST, CONN_CLOSED}
               else c_phase (sy_conn t') = CONN_SENDING_RESPONSE))
       | _ \<Rightarrow> True"
  proof (cases evs)
    case (Cons e rest)
    show ?thesis
    proof (cases e)
      case (Send_Room m)
      from last [of m rest] Cons Send_Room show ?thesis by (simp only: list.case send_event.case simp_thms)
    qed (simp add: Cons)
  qed simp
  moreover have "wire (sy_net t) = wire (sy_net s) @ concat (map (\<lambda>k. take k ?bs) ks)" by (simp add: t_def)
  ultimately show ?thesis
    using run t(1,4) unfolding sending_def by blast
qed

text \<open>
  C8: a rejected request that asked to keep the connection is answered again and again.  The error paths of
  \<open>step_header_read\<close> leave the request in the buffer, and \<open>keep_alive\<close> is set before the rules are
  checked: so once the error has been sent (announcing \<open>Connection: close\<close>), the connection goes back to reading,
  finds the same head, and rejects it again, without reading a byte from the client.  While the socket takes
  the errors, \<open>k\<close> rounds put \<open>k\<close> copies on the wire, up to \<open>HTTP_MAX_REQUESTS\<close>.
\<close>

theorem rejected_request_is_answered_again:
  assumes "wf_config cfg" "conn_inv cfg slack fd s" "c_phase (sy_conn s) = CONN_READING_REQUEST"
    "keeps_and_fails cfg (c_req_buf (sy_conn s)) st" "outbox (sy_net s) = replicate k (Send_Room m) @ evs"
    "200 \<le> m" "c_requests (sy_conn s) + k < max_requests cfg"
  shows "\<exists>s'. conn_steps cfg (2 * k) s = Some s' \<and> c_phase (sy_conn s') = CONN_READING_REQUEST
    \<and> c_req_buf (sy_conn s') = c_req_buf (sy_conn s) \<and> inbox (sy_net s') = inbox (sy_net s)
    \<and> wire (sy_net s') = wire (sy_net s) @ concat (replicate k (error_text s st))"
proof -
  have "system_ok cfg slack fd s" using assms(2) by (simp add: conn_inv_def)
  from error_text_short [OF this, of st] assms(6) have "length (error_text s st) \<le> m" by simp
  from rejected_rounds [OF assms(1-5) this assms(7)] show ?thesis by blast
qed

subsection \<open>Witnesses\<close>

text \<open>A request whose length is no number, waiting in the buffer; and a response of four bytes.\<close>

definition demo_head :: string where
  "demo_head = request_head_text GET ''/a?b'' ''HTTP/1.1'' [(''Host'', '' x ''), (''Content-Length'', ''x'')]"

definition demo_rejected :: "send_event list \<Rightarrow> unit system" where
  "demo_rejected outs = (demo_system [] outs)\<lparr>sy_conn := demo_conn\<lparr>c_req_buf := demo_buffer 4096 demo_head\<rparr>\<rparr>"

definition demo_sending :: "send_event list \<Rightarrow> unit system" where
  "demo_sending outs = (demo_system [] outs)\<lparr>sy_conn := demo_conn\<lparr>c_phase := CONN_SENDING_RESPONSE,
     c_resp_buf := demo_buffer 4096 ''head''\<rparr>\<rparr>"

lemma demo_sending_inv: "conn_inv esp32_config 0 5 (demo_sending outs)"
  using demo_conn_ok wf_demo_buffer [of "''head''" 4096]
  by (simp add: conn_inv_def system_ok_def conn_mem_ok_def phase_ok_def demo_sending_def demo_system_def esp32_config_def)
    (simp add: demo_buffer_def demo_conn_def)

theorem response_needs_one_whole_send_witness:
  "\<exists>t t'. conn_steps esp32_config 2 (demo_sending [Send_Room 3, Send_Room 1, Send_Room 9]) = Some t
    \<and> conn_step esp32_config t = Some t' \<and> wire (sy_net t') = ''heahhead''"
proof -
  let ?s = "demo_sending [Send_Room 3, Send_Room 1, Send_Room 9]"
  have f: "c_phase (sy_conn ?s) = CONN_SENDING_RESPONSE" "c_st (sy_conn ?s) = St_Send 0" "live (c_resp_buf (sy_conn ?s)) = ''head''"
    "outbox (sy_net ?s) = map Send_Room [3, 1] @ [Send_Room 9]" "wire (sy_net ?s) = []"
    by (simp_all add: demo_sending_def demo_conn_def demo_system_def demo_buffer_def live_def)
  have "\<forall>k \<in> set [3, 1]. k < length (live (c_resp_buf (sy_conn ?s)))" unfolding f(3) by simp
  from response_needs_one_whole_send [OF demo_sending_inv f(1,2,4) this] show ?thesis
    unfolding f(3,5) by (auto simp: numeral_2_eq_2 numeral_3_eq_3)
qed


lemma demo_head_parts:
  "GET \<in> methods" "target_ok esp32_config ''/a?b''" "''HTTP/1.1'' \<in> versions"
  "list_all (field_ok esp32_config) [(''Host'', '' x ''), (''Content-Length'', ''x'')]"
proof -
  show "GET \<in> methods" "''HTTP/1.1'' \<in> versions" by (simp_all add: methods_def versions_def)
  show "target_ok esp32_config ''/a?b''" by (rule demo_parts_ok)
  show "list_all (field_ok esp32_config) [(''Host'', '' x ''), (''Content-Length'', ''x'')]"
    by (simp add: demo_parts_ok(2)) (simp add: field_ok_def header_key_ok_def header_value_ok_def is_field_content_byte_def is_ows_def
      is_vchar_def is_tchar_def isalnum_def islower_def isupper_def isdigit_def ord_def esp32_config_def)
qed

lemma demo_head_fails: "keeps_and_fails esp32_config (demo_buffer 4096 demo_head) PARSE_BAD_REQUEST"
proof -
  let ?fs = "[(''Host'', '' x ''), (''Content-Length'', ''x'')]"
  let ?req = "request_zero\<lparr>rq_line := request_line_of GET ''/a?b'' ''HTTP/1.1'', rq_headers := map field_header ?fs\<rparr>"
  let ?pad = "replicate (4096 - length demo_head) NUL"
  have "length ?fs \<le> max_headers esp32_config" by (simp add: esp32_config_def)
  from request_head_parses [OF wf_esp32_config demo_head_parts this, of 0 ?pad] obtain e where
    parse: "request_parse esp32_config (demo_head @ ?pad) (length demo_head) request_zero
     = Some (\<lparr> status = PARSE_OK, error_position = e, next_pos = Some (length demo_head) \<rparr>, ?req)"
    by (auto simp: demo_head_def)
  have found: "memmem demo_head (crlf @ crlf) \<noteq> None"
    using memmem_head [OF demo_head_parts, of "[]"] by (simp add: demo_head_def)
  have hs: "rq_headers ?req = map field_header ?fs" "is_old_http ?req = False"
    by (simp_all add: request_line_of_def is_old_http_def ascii_ieq_iff tolower_def isupper_def ord_def)
  have find: "header_find (map field_header ?fs) ''host'' \<noteq> None" "header_find (map field_header ?fs) ''connection'' = None"
    "te_headers (map field_header ?fs) = []" "map_option h_value (header_find (map field_header ?fs) ''content-length'') = Some ''x''"
    by code_simp+
  obtain h where h: "header_find (map field_header ?fs) ''content-length'' = Some h" "h_value h = ''x''" using find(4) by auto
  have len: "announced_length esp32_config (Some h) = Inl PARSE_BAD_REQUEST"
  proof -
    have "uint_reference 10 (max_body_len esp32_config) 0 ''x'' = Inl PARSE_BAD_REQUEST" by code_simp
    then show ?thesis by (simp add: announced_length_def h(2))
  qed
  have "asks_keep_alive ?req" unfolding asks_keep_alive_def hs using find(1,2) by simp
  moreover have "head_error esp32_config ?req = Some PARSE_BAD_REQUEST"
    unfolding head_error_def hs Let_def find(3) h(1) using find(1) by (simp add: len)
  ultimately have "asks_keep_alive ?req" "head_error esp32_config ?req = Some PARSE_BAD_REQUEST" .
  with parse found show ?thesis by (simp add: keeps_and_fails_def demo_buffer_def live_def)
qed


lemma demo_rejected_inv: "conn_inv esp32_config 0 5 (demo_rejected outs)"
proof -
  have len: "length demo_head \<le> 4096" unfolding demo_head_def by code_simp
  from demo_conn_ok wf_demo_buffer [OF len] show ?thesis
    by (simp add: conn_inv_def system_ok_def conn_mem_ok_def phase_ok_def demo_rejected_def demo_system_def esp32_config_def)
      (simp add: demo_buffer_def demo_conn_def)
qed

theorem rejected_request_is_answered_again_witness:
  "\<exists>s'. conn_steps esp32_config (2 * 3) (demo_rejected [Send_Room 200, Send_Room 200, Send_Room 200]) = Some s'
    \<and> c_phase (sy_conn s') = CONN_READING_REQUEST \<and> c_req_buf (sy_conn s') = demo_buffer 4096 demo_head
    \<and> inbox (sy_net s') = []
    \<and> wire (sy_net s') = concat (replicate 3 (error_text (demo_rejected [Send_Room 200, Send_Room 200, Send_Room 200]) PARSE_BAD_REQUEST))"
proof -
  let ?s = "demo_rejected [Send_Room 200, Send_Room 200, Send_Room 200]"
  have f: "c_phase (sy_conn ?s) = CONN_READING_REQUEST" "c_req_buf (sy_conn ?s) = demo_buffer 4096 demo_head"
    "outbox (sy_net ?s) = replicate 3 (Send_Room 200) @ []" "inbox (sy_net ?s) = []" "wire (sy_net ?s) = []"
    "c_requests (sy_conn ?s) + 3 < max_requests esp32_config"
    by (simp_all add: demo_rejected_def demo_conn_def demo_system_def esp32_config_def numeral_3_eq_3)
  have inv: "conn_inv esp32_config 0 5 ?s" by (rule demo_rejected_inv)
  have fails: "keeps_and_fails esp32_config (c_req_buf (sy_conn ?s)) PARSE_BAD_REQUEST" by (simp add: f(2) demo_head_fails)
  have "(200 :: nat) \<le> 200" by simp
  from rejected_request_is_answered_again [OF wf_esp32_config inv f(1) fails f(3) this f(6)] show ?thesis
    unfolding f(2,4,5) by simp
qed

end
