(* ===== verification/Slot_Reuse.thy ===== *)
theory Slot_Reuse
  imports Resending
begin

text \<open>
  What becomes of a connection from the moment a complete head arrives on a fresh slot: the request is read
  in one step.  Two consequences for the server as a whole: a slot remembers the body length of the client that
  had it before, and an interim response the socket does not take at once stops the server.
\<close>

subsection \<open>A head that arrives in one piece\<close>

lemma conn_recv_header_arrives:
  assumes "wf_buffer b" "hb_size b = 0" "0 \<le> fd" "inbox net = Recv_Data h # evs" "memmem h (crlf @ crlf) = Some t"
    "length h \<le> hb_cap b"
  shows "\<exists>m. conn_recv_header fd b net = Some (\<lparr> rh_status = READ_HEADER_OK, rh_total_received = length h, rh_body_start = t + 4 \<rparr>,
      b\<lparr>hb_bytes := Some m, hb_size := length h\<rparr>, net\<lparr>inbox := evs\<rparr>) \<and> m = h @ drop (length h) m"
proof -
  obtain m0 where m0: "hb_bytes b = Some m0" "length m0 = hb_cap b" using assms(1) by (rule wf_bufferE)
  obtain x xs where h: "h = x # xs" using assms(5) by (cases h) auto
  define m where "m = h @ drop (length h) m0"
  have len: "length m = hb_cap b" "take (length h) m = h" using assms(6) m0 by (simp_all add: m_def)
  have recv: "recv net (hb_cap b) = (Inl h, net\<lparr>inbox := evs\<rparr>)" using assms(4,6) by (simp add: recv_def)
  have blit: "blit m0 0 h = Some m" using m0 assms(6) by (simp add: blit_def m_def)
  have rd: "rd_range m 0 (length h) = Some h" "rd_range m0 0 0 = Some []" using len assms(6) by (simp_all add: rd_range_def)
  have "conn_recv_header_loop m (hb_cap b) (length h) (net\<lparr>inbox := evs\<rparr>)
      = Some (\<lparr> rh_status = READ_HEADER_OK, rh_total_received = length h, rh_body_start = t + 4 \<rparr>, m, net\<lparr>inbox := evs\<rparr>)"
    using assms(5) by (subst conn_recv_header_loop.simps) (simp add: rd)
  moreover have "0 < hb_cap b" using assms(6) h by auto
  ultimately have "conn_recv_header_loop m0 (hb_cap b) 0 net
      = Some (\<lparr> rh_status = READ_HEADER_OK, rh_total_received = length h, rh_body_start = t + 4 \<rparr>, m, net\<lparr>inbox := evs\<rparr>)"
    using recv blit by (subst conn_recv_header_loop.simps) (simp add: rd h)
  moreover have "m = h @ drop (length h) m" by (simp add: m_def)
  ultimately show ?thesis using m0 assms(2,3) by (intro exI [of _ m]) (simp add: conn_recv_header_def)
qed

text \<open>A request as its parts, and the head that spells it.\<close>

definition head_parts_ok :: "config \<Rightarrow> http_method \<Rightarrow> string \<Rightarrow> string \<Rightarrow> field list \<Rightarrow> bool" where
  "head_parts_ok cfg meth target v fs \<longleftrightarrow> meth \<in> methods \<and> target_ok cfg target \<and> v \<in> versions \<and> list_all (field_ok cfg) fs
     \<and> length fs \<le> max_headers cfg \<and> length (request_head_text meth target v fs) \<le> max_request_len cfg"

definition parsed_head :: "http_method \<Rightarrow> string \<Rightarrow> string \<Rightarrow> field list \<Rightarrow> request" where
  "parsed_head meth target v fs = request_zero\<lparr>rq_line := request_line_of meth target v, rq_headers := map field_header fs\<rparr>"

lemma head_arrives:
  assumes "wf_config cfg" "system_ok cfg slack fd s" "c_phase (sy_conn s) = CONN_READING_REQUEST" "c_req (sy_conn s) = request_zero"
    "hb_size (c_req_buf (sy_conn s)) = 0" "head_parts_ok cfg meth target v fs"
    "inbox (sy_net s) = Recv_Data (request_head_text meth target v fs) # evs" "head_error cfg (parsed_head meth target v fs) = None"
  shows "\<exists>p s'. step_header_read cfg s = Some (p, s') \<and> sy_net s' = (sy_net s)\<lparr>inbox := evs\<rparr>
    \<and> live (c_req_buf (sy_conn s')) = request_head_text meth target v fs
    \<and> c_body_start (sy_conn s') = length (request_head_text meth target v fs)
    \<and> rq_line (c_req (sy_conn s')) = request_line_of meth target v \<and> rq_headers (c_req (sy_conn s')) = map field_header fs
    \<and> c_keep_alive (sy_conn s') = (c_keep_alive (sy_conn s) \<or> asks_keep_alive (parsed_head meth target v fs))
    \<and> c_requests (sy_conn s') = c_requests (sy_conn s)
    \<and> c_body_coding (sy_conn s') = (if te_headers (map field_header fs) \<noteq> [] then TE_CHUNKED else TE_NONE)
    \<and> (case header_find (map field_header fs) ''content-length'' of
         None \<Rightarrow> c_body_len (sy_conn s') = c_body_len (sy_conn s)
       | Some h \<Rightarrow> announced_length cfg (Some h) = Inr (Some (c_body_len (sy_conn s'))))
    \<and> p = (if awaits_continue s' then CONN_SENDING_100 else if te_headers (map field_header fs) \<noteq> [] then CONN_READING_BODY_CHUNKED
         else if c_body_len (sy_conn s') = 0 then CONN_BUILDING else CONN_READING_BODY_CL)"
proof -
  let ?h = "request_head_text meth target v fs"
  have parts: "meth \<in> methods" "target_ok cfg target" "v \<in> versions" "list_all (field_ok cfg) fs" "length fs \<le> max_headers cfg"
    "length ?h \<le> max_request_len cfg" using assms(6) by (simp_all add: head_parts_ok_def)
  have buf: "wf_buffer (c_req_buf (sy_conn s))" "0 \<le> fd" "hb_cap (c_req_buf (sy_conn s)) = max_request_len cfg"
    using assms(2) by (auto elim!: system_okE)
  have found: "memmem ?h (crlf @ crlf) = Some (length ?h - 4)" using memmem_head [OF parts(1-4), of "[]"] by simp
  then have four: "length ?h - 4 + 4 = length ?h" using memmem_Some [OF found] by simp
  obtain m where m: "conn_recv_header fd (c_req_buf (sy_conn s)) (sy_net s)
      = Some (\<lparr> rh_status = READ_HEADER_OK, rh_total_received = length ?h, rh_body_start = length ?h - 4 + 4 \<rparr>,
        (c_req_buf (sy_conn s))\<lparr>hb_bytes := Some m, hb_size := length ?h\<rparr>, (sy_net s)\<lparr>inbox := evs\<rparr>)" "m = ?h @ drop (length ?h) m"
    using conn_recv_header_arrives [OF buf(1) assms(5) buf(2) assms(7) found] parts(6) buf(3) by auto
  let ?b = "(c_req_buf (sy_conn s))\<lparr>hb_bytes := Some m, hb_size := length ?h\<rparr>"
  have live: "live ?b = ?h" by (simp add: live_def) (subst m(2), simp)
  obtain e where parse: "request_parse cfg m (length ?h) request_zero
      = Some (\<lparr> status = PARSE_OK, error_position = e, next_pos = Some (length ?h) \<rparr>, parsed_head meth target v fs)"
    using request_head_parses [OF assms(1) parts(1-5), of 0 "drop (length ?h) m"] m(2) by (auto simp: parsed_head_def)
  have verdict: "buffer_verdict cfg ?b = None" using found parse assms(8) live by (simp add: buffer_verdict_def)
  obtain res b net p s' where r: "conn_recv_header fd (c_req_buf (sy_conn s)) (sy_net s) = Some (res, b, net)"
    "step_header_read cfg s = Some (p, s')" "c_req_buf (sy_conn s') = b" "sy_net s' = net"
    "c_requests (sy_conn s') = c_requests (sy_conn s)" and judged: "head_judged cfg s (p, s')"
    using step_header_read_decides [OF assms(1-4)] unfolding head_step_def by blast
  have b: "b = ?b" "net = (sy_net s)\<lparr>inbox := evs\<rparr>" using r(1) m(1) by simp_all
  have req: "rq_line (parsed_head meth target v fs) = request_line_of meth target v"
    "rq_headers (parsed_head meth target v fs) = map field_header fs" by (simp_all add: parsed_head_def)
  note rest = judged [unfolded head_judged_def prod.case Let_def r(3) b verdict live found option.case]
  show ?thesis
    using r(2-5) rest parse live four by (intro exI [of _ p] exI [of _ s'] conjI) (auto simp: b req told_by_head_def)
qed


lemma conn_step_reading:
  assumes "c_phase (sy_conn s) = CONN_READING_REQUEST" "step_header_read cfg s = Some (p, s')"
  shows "conn_step cfg s = Some (on_conn (\<lambda>c. c\<lparr>c_phase := p\<rparr>) s')"
  using assms by (simp add: conn_step_def)

lemma process_step:
  assumes "conn_step cfg s = Some s1" "c_phase (sy_conn s1) \<noteq> c_phase (sy_conn s)" "c_phase (sy_conn s1) \<noteq> CONN_CLOSED"
  shows "connection_step_process cfg s = connection_step_process cfg s1"
  using assms by (subst connection_step_process.simps) simp

lemma process_rest:
  assumes "conn_step cfg s = Some s1" "c_phase (sy_conn s1) = c_phase (sy_conn s)"
  shows "connection_step_process cfg s = Some s1"
  using assms by (subst connection_step_process.simps) simp

subsection \<open>The body length of the client before\<close>

lemma connection_init_keeps:
  assumes "connection_init cfg backing cap fd old = Some c"
  shows "c_phase c = CONN_READING_REQUEST" "c_req c = request_zero" "hb_size (c_req_buf c) = 0" "c_requests c = 0"
    "c_body_len c = c_body_len old" "c_keep_alive c = c_keep_alive old"
  using assms by (auto simp: connection_init_def buffer_alloc_def Let_def Option.bind_eq_Some_conv)

text \<open>The reader of a body with nothing to read.\<close>

lemma step_body_cl_read_waits:
  assumes "system_ok cfg slack fd s" "c_phase (sy_conn s) = CONN_READING_BODY_CL" "phase_ok cfg slack CONN_READING_BODY_CL (sy_conn s)"
    "hb_size (c_req_buf (sy_conn s)) < hb_cap (c_req_buf (sy_conn s))" "inbox (sy_net s) = []"
    "hb_size (c_req_buf (sy_conn s)) < c_body_start (sy_conn s) + c_body_len (sy_conn s)"
  shows "conn_step cfg s = Some s"
proof -
  obtain n where n: "c_st (sy_conn s) = St_Cl n" "c_body_start (sy_conn s) + n = hb_size (c_req_buf (sy_conn s))"
    using assms(3) by (auto simp: phase_ok_def split: conn_st.splits)
  have buf: "wf_buffer (c_req_buf (sy_conn s))" "0 \<le> c_fd (sy_conn s)" using assms(1) by (auto elim!: system_okE)
  obtain m where m: "hb_bytes (c_req_buf (sy_conn s)) = Some m" using buf(1) by (rule wf_bufferE)
  have less: "n < c_body_len (sy_conn s)" using n(2) assms(6) by simp
  have "recv (sy_net s) k = (Inr EAGAIN, sy_net s)" for k using assms(5) by (simp add: recv_def)
  then have "conn_recv_body_cl_loop (c_req_buf (sy_conn s)) (c_body_start (sy_conn s)) (c_body_len (sy_conn s)) n (sy_net s)
      = Some (\<lparr> rb_status = READ_BODY_HAS_MORE, rb_next_req_offset = 0 \<rparr>, c_req_buf (sy_conn s), n, sy_net s)"
    using less assms(4) by (subst conn_recv_body_cl_loop.simps) simp
  moreover have "(sy_conn s)\<lparr>c_req_buf := c_req_buf (sy_conn s), c_st := St_Cl n, c_phase := CONN_READING_BODY_CL\<rparr> = sy_conn s"
    using n(1) assms(2) by (cases "sy_conn s") simp
  ultimately show ?thesis
    using assms(2) n(1) m buf(2) by (simp add: conn_step_def step_body_cl_read_def st_received_def conn_recv_body_cl_def Let_def)
qed

text \<open>
  C7: a slot remembers the body of the client before.  \<open>connection_init\<close> does not reset \<open>body_len\<close>, and a request without a
  \<open>Content-Length\<close> does not set it: if the last request of the previous client had a body, a new client that sends
  a complete request without one, correct in every respect, gets no answer; the connection goes to
  reading a body of the old length and waits for bytes that the client has no reason to send.
\<close>

theorem reused_slot_waits_for_old_body:
  assumes "wf_config cfg" "connection_init cfg backing cap fd old = Some (sy_conn s)" "0 < c_body_len old"
    "system_ok cfg slack fd s" "head_parts_ok cfg meth target v fs" "length (request_head_text meth target v fs) < max_request_len cfg"
    "inbox (sy_net s) = [Recv_Data (request_head_text meth target v fs)]" "head_error cfg (parsed_head meth target v fs) = None"
    "te_headers (map field_header fs) = []" "header_find (map field_header fs) ''content-length'' = None"
  shows "\<exists>s'. connection_step_process cfg s = Some s' \<and> c_phase (sy_conn s') = CONN_READING_BODY_CL
    \<and> c_body_len (sy_conn s') = c_body_len old \<and> live (c_req_buf (sy_conn s')) = request_head_text meth target v fs
    \<and> inbox (sy_net s') = [] \<and> outbox (sy_net s') = outbox (sy_net s) \<and> wire (sy_net s') = wire (sy_net s)"
proof -
  let ?h = "request_head_text meth target v fs"
  note init = connection_init_keeps [OF assms(2)]
  have expect: "\<not> awaits_continue t" if "rq_headers (c_req (sy_conn t)) = map field_header fs" "c_body_coding (sy_conn t) = TE_NONE" for t :: "'a system"
    using that assms(10) by (simp add: awaits_continue_def Let_def)
  obtain p s1 where s1: "step_header_read cfg s = Some (p, s1)" "sy_net s1 = (sy_net s)\<lparr>inbox := []\<rparr>"
    "live (c_req_buf (sy_conn s1)) = ?h" "c_body_start (sy_conn s1) = length ?h" "rq_headers (c_req (sy_conn s1)) = map field_header fs"
    "c_body_coding (sy_conn s1) = (if te_headers (map field_header fs) \<noteq> [] then TE_CHUNKED else TE_NONE)"
    "c_body_len (sy_conn s1) = c_body_len (sy_conn s)"
    and p: "p = (if awaits_continue s1 then CONN_SENDING_100 else if te_headers (map field_header fs) \<noteq> [] then CONN_READING_BODY_CHUNKED
         else if c_body_len (sy_conn s1) = 0 then CONN_BUILDING else CONN_READING_BODY_CL)"
    using head_arrives [OF assms(1,4) init(1,2,3) assms(5,7,8)] unfolding assms(10) option.case by (elim exE conjE) (rule that)
  note s1 = s1 [unfolded init(5) assms(9) simp_thms if_False]
  have "\<not> awaits_continue s1" by (rule expect [OF s1(5)]) (simp add: s1(6))
  with p have p: "p = CONN_READING_BODY_CL" using s1(7) assms(3,9) by simp
  let ?s1 = "on_conn (\<lambda>c. c\<lparr>c_phase := p\<rparr>) s1"
  have step: "conn_step cfg s = Some ?s1" by (rule conn_step_reading [OF init(1) s1(1)])
  have "conn_inv cfg slack fd s" using assms(4) init(1,2) by (simp add: conn_inv_def phase_ok_def)
  from conn_step_ok [OF assms(1) this] step p have inv: "system_ok cfg slack fd ?s1" "phase_ok cfg slack CONN_READING_BODY_CL (sy_conn ?s1)"
    by (simp_all add: conn_inv_def)
  have buf: "wf_buffer (c_req_buf (sy_conn ?s1))" "hb_cap (c_req_buf (sy_conn ?s1)) = max_request_len cfg"
    using inv(1) by (auto elim!: system_okE)
  have size: "hb_size (c_req_buf (sy_conn s1)) = length ?h" using length_live [OF buf(1)] s1(3) by simp
  have "conn_step cfg ?s1 = Some ?s1"
    using step_body_cl_read_waits [OF inv(1) _ inv(2)] p size buf(2) s1(2,4,7) assms(3,6) by simp
  then have "connection_step_process cfg ?s1 = Some ?s1" by (rule process_rest) simp
  with process_step [OF step] p init(1) s1 show ?thesis by (intro exI [of _ ?s1]) simp
qed

subsection \<open>An interim response the socket does not take\<close>

lemma step_send_100_waits:
  assumes "system_ok cfg slack fd s" "c_phase (sy_conn s) = CONN_SENDING_100" "phase_ok cfg slack CONN_SENDING_100 (sy_conn s)"
    "outbox (sy_net s) = []"
  shows "conn_step cfg s = Some s"
proof -
  obtain sent where sent: "c_st (sy_conn s) = St_Send sent" "sent < length continue_100"
    using assms(3) by (auto simp: phase_ok_def split: conn_st.splits)
  have fd: "0 \<le> c_fd (sy_conn s)" using assms(1) by (auto elim!: system_okE)
  have "rd_range (continue_100 @ [NUL]) sent (length continue_100 - sent) = Some (take (length continue_100 - sent) (drop sent (continue_100 @ [NUL])))"
    using sent(2) by (simp add: rd_range_def)
  then have "response_send (c_fd (sy_conn s)) continue_100_buf sent (sy_net s) = Some (SEND_HAS_MORE, sent, sy_net s)"
    using sent(2) fd assms(4) by (simp add: response_send_def continue_100_buf_def send_def)
  moreover have "(sy_conn s)\<lparr>c_st := St_Send sent, c_phase := CONN_SENDING_100\<rparr> = sy_conn s"
    using sent(1) assms(2) by (cases "sy_conn s") simp
  ultimately show ?thesis using assms(2) sent(1) by (simp add: conn_step_def step_send_100_def st_sent_def Let_def)
qed

text \<open>
  C6: one client can stop the whole server.  A request that announces a body with \<open>Expect: 100-continue\<close> makes the
  connection send the interim response at once; when the socket has no room for it (the client does not read
  what it has been sent), the connection rests in \<open>CONN_SENDING_100\<close>, for which \<open>conn_phase_event\<close> has no case but
  \<open>assert(0)\<close>: the turn of that slot, and with it the process, ends in the assertion.
\<close>

theorem blocked_continue_stops_server:
  assumes "wf_config cfg" "c_fd (cs_conns (sv_clients sv) ! i) = fd" "map_of (sv_sockets sv) fd = Some net"
    "conn_inv cfg slack fd (slot_system i net sv)" "c_phase (cs_conns (sv_clients sv) ! i) = CONN_READING_REQUEST"
    "hb_size (c_req_buf (cs_conns (sv_clients sv) ! i)) = 0"
    "head_parts_ok cfg meth target v fs" "inbox net = Recv_Data (request_head_text meth target v fs) # evs" "outbox net = []"
    "head_error cfg (parsed_head meth target v fs) = None" "\<not> ascii_ieq v ''http/1.0''"
    "header_find (map field_header fs) ''expect'' = Some e" "ascii_ieq ''100-continue'' (h_value e)"
    "header_find (map field_header fs) ''content-length'' = Some l" "announced_length cfg (Some l) = Inr (Some n)" "0 < n"
  shows "slot_process cfg i sv = None"
proof -
  let ?s = "slot_system i net sv" and ?h = "request_head_text meth target v fs"
  have conn: "sy_conn ?s = cs_conns (sv_clients sv) ! i" "sy_net ?s = net" by (simp_all add: slot_system_def)
  have ok: "system_ok cfg slack fd ?s" "c_phase (sy_conn ?s) = CONN_READING_REQUEST" "c_req (sy_conn ?s) = request_zero"
    using assms(4,5) by (simp_all add: conn_inv_def conn phase_ok_def)
  have size: "hb_size (c_req_buf (sy_conn ?s)) = 0" "inbox (sy_net ?s) = Recv_Data ?h # evs" using assms(6,8) by (simp_all add: conn)
  obtain p s1 where s1: "step_header_read cfg ?s = Some (p, s1)" "sy_net s1 = net\<lparr>inbox := evs\<rparr>"
    "live (c_req_buf (sy_conn s1)) = ?h" "c_body_start (sy_conn s1) = length ?h"
    "rq_line (c_req (sy_conn s1)) = request_line_of meth target v" "rq_headers (c_req (sy_conn s1)) = map field_header fs"
    "announced_length cfg (Some l) = Inr (Some (c_body_len (sy_conn s1)))"
    and p: "p = (if awaits_continue s1 then CONN_SENDING_100 else if te_headers (map field_header fs) \<noteq> [] then CONN_READING_BODY_CHUNKED
         else if c_body_len (sy_conn s1) = 0 then CONN_BUILDING else CONN_READING_BODY_CL)"
    using head_arrives [OF assms(1) ok size(1) assms(7) size(2) assms(10)] unfolding assms(14) option.case conn(2) by (elim exE conjE) (rule that)
  let ?s1 = "on_conn (\<lambda>c. c\<lparr>c_phase := p\<rparr>) s1"
  have step: "conn_step cfg ?s = Some ?s1" by (rule conn_step_reading [OF ok(2) s1(1)])
  from conn_step_ok [OF assms(1,4)] step have inv: "conn_inv cfg slack fd ?s1" by simp
  then have "wf_buffer (c_req_buf (sy_conn s1))" by (auto simp: conn_inv_def elim!: system_okE)
  from length_live [OF this] s1(3) have "hb_size (c_req_buf (sy_conn s1)) = length ?h" by simp
  moreover have "c_body_len (sy_conn s1) = n" using s1(7) assms(15) by simp
  ultimately have "awaits_continue s1"
    using s1(4-6) assms(11-14,16) by (simp add: awaits_continue_def is_old_http_def request_line_of_def)
  then have p: "p = CONN_SENDING_100" using p by simp
  have ok1: "system_ok cfg slack fd ?s1" "phase_ok cfg slack CONN_SENDING_100 (sy_conn ?s1)" using inv p by (simp_all add: conn_inv_def)
  have "conn_step cfg ?s1 = Some ?s1"
    using step_send_100_waits [OF ok1(1) _ ok1(2)] p s1(2) assms(9) by simp
  then have "connection_step_process cfg ?s1 = Some ?s1" by (rule process_rest) simp
  then have "connection_step_process cfg ?s = Some ?s1" using process_step [OF step] p ok(2) by simp
  moreover have "conn_phase_event CONN_SENDING_100 = None" by (simp add: conn_phase_event_def)
  ultimately show ?thesis using assms(2,3) p by (simp add: slot_process_def Let_def)
qed


subsection \<open>Witnesses\<close>

text \<open>A request without a body, one that waits before it sends its body, and a slot whose last client had a body.\<close>

definition demo_get_fields :: "field list" where
  "demo_get_fields = [(''Host'', '' x '')]"

definition demo_post_fields :: "field list" where
  "demo_post_fields = [(''Host'', '' x ''), (''Expect'', ''100-continue''), (''Content-Length'', ''3'')]"

definition demo_used_conn :: "unit connection" where
  "demo_used_conn = demo_conn\<lparr>c_phase := CONN_CLOSED, c_body_len := 7\<rparr>"

lemma demo_get_ok:
  "head_parts_ok esp32_config GET ''/a?b'' ''HTTP/1.1'' demo_get_fields"
  "length (request_head_text GET ''/a?b'' ''HTTP/1.1'' demo_get_fields) < max_request_len esp32_config"
  "head_error esp32_config (parsed_head GET ''/a?b'' ''HTTP/1.1'' demo_get_fields) = None"
  "te_headers (map field_header demo_get_fields) = []"
  "header_find (map field_header demo_get_fields) ''content-length'' = None"
proof -
  show len: "length (request_head_text GET ''/a?b'' ''HTTP/1.1'' demo_get_fields) < max_request_len esp32_config"
    "head_error esp32_config (parsed_head GET ''/a?b'' ''HTTP/1.1'' demo_get_fields) = None"
    "te_headers (map field_header demo_get_fields) = []"
    "header_find (map field_header demo_get_fields) ''content-length'' = None" by code_simp+
  show "head_parts_ok esp32_config GET ''/a?b'' ''HTTP/1.1'' demo_get_fields"
    using demo_parts_ok len(1) unfolding head_parts_ok_def
    by (simp add: demo_get_fields_def methods_def versions_def) (simp add: esp32_config_def)
qed

lemma demo_post_ok:
  "head_parts_ok esp32_config POST ''/a?b'' ''HTTP/1.1'' demo_post_fields"
  "head_error esp32_config (parsed_head POST ''/a?b'' ''HTTP/1.1'' demo_post_fields) = None"
  "\<not> ascii_ieq ''HTTP/1.1'' ''http/1.0''"
  "header_find (map field_header demo_post_fields) ''expect'' = Some \<lparr> h_key = ''Expect'', h_value = ''100-continue'' \<rparr>"
  "ascii_ieq ''100-continue'' (h_value \<lparr> h_key = ''Expect'', h_value = ''100-continue'' \<rparr>)"
  "header_find (map field_header demo_post_fields) ''content-length'' = Some \<lparr> h_key = ''Content-Length'', h_value = ''3'' \<rparr>"
  "announced_length esp32_config (Some \<lparr> h_key = ''Content-Length'', h_value = ''3'' \<rparr>) = Inr (Some 3)"
proof -
  show "head_error esp32_config (parsed_head POST ''/a?b'' ''HTTP/1.1'' demo_post_fields) = None"
    "\<not> ascii_ieq ''HTTP/1.1'' ''http/1.0''"
    "header_find (map field_header demo_post_fields) ''expect'' = Some \<lparr> h_key = ''Expect'', h_value = ''100-continue'' \<rparr>"
    "ascii_ieq ''100-continue'' (h_value \<lparr> h_key = ''Expect'', h_value = ''100-continue'' \<rparr>)"
    "header_find (map field_header demo_post_fields) ''content-length'' = Some \<lparr> h_key = ''Content-Length'', h_value = ''3'' \<rparr>"
    "announced_length esp32_config (Some \<lparr> h_key = ''Content-Length'', h_value = ''3'' \<rparr>) = Inr (Some 3)" by code_simp+
  have len: "length (request_head_text POST ''/a?b'' ''HTTP/1.1'' demo_post_fields) \<le> max_request_len esp32_config" by code_simp
  have "list_all (field_ok esp32_config) demo_post_fields"
    by (simp add: demo_post_fields_def demo_parts_ok(2)) (simp add: field_ok_def header_key_ok_def header_value_ok_def is_field_content_byte_def
      is_ows_def is_vchar_def is_tchar_def isalnum_def islower_def isupper_def isdigit_def ord_def esp32_config_def)
  with demo_parts_ok len show "head_parts_ok esp32_config POST ''/a?b'' ''HTTP/1.1'' demo_post_fields"
    unfolding head_parts_ok_def
    by (simp add: methods_def versions_def) (simp add: demo_post_fields_def esp32_config_def)
qed

theorem reused_slot_waits_for_old_body_witness:
  "\<exists>c s'. connection_init esp32_config 4096 (of_nat (conn_arena_size esp32_config)) 5 demo_used_conn = Some c
    \<and> connection_step_process esp32_config ((demo_system [Recv_Data (request_head_text GET ''/a?b'' ''HTTP/1.1'' demo_get_fields)] [])\<lparr>sy_conn := c\<rparr>)
        = Some s'
    \<and> c_phase (sy_conn s') = CONN_READING_BODY_CL \<and> c_body_len (sy_conn s') = 7 \<and> wire (sy_net s') = []"
proof -
  let ?h = "request_head_text GET ''/a?b'' ''HTTP/1.1'' demo_get_fields"
  have "slot_blocks_ok esp32_config demo_conn" by (rule conn_mem_blocks [OF demo_conn_ok(1)])
  then have blocks: "slot_blocks_ok esp32_config demo_used_conn" by (simp add: slot_blocks_ok_def demo_used_conn_def)
  have region: "region_ok esp32_config 4096" by (simp add: region_ok_def conn_arena_size_def esp32_config_def)
  have "(0 :: int) < 5" by simp
  from connection_init_ok [OF wf_esp32_config region this blocks] obtain c where
    c: "connection_init esp32_config 4096 (of_nat (conn_arena_size esp32_config)) 5 demo_used_conn = Some c" "conn_mem_ok esp32_config 5 c" .
  let ?s = "(demo_system [Recv_Data ?h] [])\<lparr>sy_conn := c\<rparr>"
  have init: "connection_init esp32_config 4096 (of_nat (conn_arena_size esp32_config)) 5 demo_used_conn = Some (sy_conn ?s)"
    using c(1) by simp
  have old: "0 < c_body_len demo_used_conn" by (simp add: demo_used_conn_def)
  have ok: "system_ok esp32_config 0 5 ?s" using c(2) demo_conn_ok(3,4) by (simp add: system_ok_def demo_system_def)
  have inbox: "inbox (sy_net ?s) = [Recv_Data ?h]" by (simp add: demo_system_def)
  from reused_slot_waits_for_old_body [OF wf_esp32_config init old ok demo_get_ok(1,2) inbox demo_get_ok(3-5)] c(1)
  show ?thesis by (auto simp: demo_used_conn_def demo_system_def)
qed

theorem blocked_continue_stops_server_witness:
  "slot_process esp32_config 1 (demo_server [Recv_Data (request_head_text POST ''/a?b'' ''HTTP/1.1'' demo_post_fields)] []) = None"
proof -
  let ?h = "request_head_text POST ''/a?b'' ''HTTP/1.1'' demo_post_fields"
  let ?sv = "demo_server [Recv_Data ?h] []" and ?net = "\<lparr> inbox = [Recv_Data ?h], outbox = [], wire = [] \<rparr>"
  have conn: "cs_conns (sv_clients ?sv) ! 1 = demo_conn" by (simp add: demo_server_def numeral_eq_Suc)
  have f: "c_fd (cs_conns (sv_clients ?sv) ! 1) = 5" "map_of (sv_sockets ?sv) 5 = Some ?net"
    "c_phase (cs_conns (sv_clients ?sv) ! 1) = CONN_READING_REQUEST" "hb_size (c_req_buf (cs_conns (sv_clients ?sv) ! 1)) = 0"
    unfolding conn by (simp_all add: demo_conn_def demo_buffer_def) (simp add: demo_server_def)
  have "slot_system 1 ?net ?sv = demo_system [Recv_Data ?h] []"
    unfolding slot_system_def conn by (simp add: demo_server_def demo_system_def)
  then have inv: "conn_inv esp32_config 0 5 (slot_system 1 ?net ?sv)" using demo_system_inv by simp
  have n: "inbox ?net = Recv_Data ?h # []" "outbox ?net = []" "(0 :: nat) < 3" by simp_all
  show ?thesis
    by (rule blocked_continue_stops_server [OF wf_esp32_config f(1,2) inv f(3,4) demo_post_ok(1) n(1,2) demo_post_ok(2-7) n(3)])
qed

end
