(* ===== verification/Example_App.thy ===== *)
theory Example_App
  imports Serving
begin

text \<open>
  The program of \<open>src/examples/main.c\<close>: two handlers, its routes and its registry of static files.  It meets
  the contract of the server's routes.
\<close>

subsection \<open>The handlers\<close>

definition html_header :: response_header where
  "html_header = \<lparr> rhd_key = ''Content-Type'', rhd_value = ''text/html'' \<rparr>"

definition entry_page :: string where
  "entry_page = ''<h1>First and Last Name</h1>'' @ ''<form method=POST action='' @ [CHR 34] @ ''/submit'' @ [CHR 34] @ ''>''
     @ ''<label for='' @ [CHR 34] @ ''fname'' @ [CHR 34] @ ''>First name:</label>''
     @ ''<input type='' @ [CHR 34] @ ''text'' @ [CHR 34] @ '' id='' @ [CHR 34] @ ''fname'' @ [CHR 34]
       @ '' name='' @ [CHR 34] @ ''fname'' @ [CHR 34] @ ''><br><br>''
     @ ''<label for='' @ [CHR 34] @ ''lname'' @ [CHR 34] @ ''>Last name:</label>''
     @ ''<input type='' @ [CHR 34] @ ''text'' @ [CHR 34] @ '' id='' @ [CHR 34] @ ''lname'' @ [CHR 34]
       @ '' name='' @ [CHR 34] @ ''lname'' @ [CHR 34] @ ''><br><br>''
     @ ''<input type='' @ [CHR 34] @ ''submit'' @ [CHR 34] @ '' value='' @ [CHR 34] @ ''Submit'' @ [CHR 34] @ ''>'' @ ''</form>''"

definition app_entry :: "'u handler_fn" where
  "app_entry req bs a w = Some (response_buffer 200 ''OK'' (Some (entry_page @ [NUL])) (length entry_page) [html_header], a, w)"

text \<open>\<open>submit\<close> copies the body (\<open>bs\<close>, the \<open>body_len\<close> bytes at \<open>body\<close>) into the arena of the request.\<close>

definition app_submit :: "'u handler_fn" where
  "app_submit req bs a w = do {
     (body_buf, a) \<leftarrow> arena_array a 1 1 (of_nat (length bs));
     case body_buf of
       None \<Rightarrow> Some (response_error_from_status PARSE_SERVER_ERROR, a, w)
     | Some _ \<Rightarrow> Some (response_buffer 200 ''OK'' (Some bs) (length bs) [html_header], a, w)
   }"

subsection \<open>The router\<close>

definition app_routes :: "'u route list" where
  "app_routes = [
     \<lparr> rt_method = ''GET'', rt_method_shared = False, rt_path = ''/form'', rt_handler = Fn app_entry, rt_data = 0 \<rparr>,
     \<lparr> rt_method = ''POST'', rt_method_shared = False, rt_path = ''/submit'', rt_handler = Fn app_submit, rt_data = 0 \<rparr>]"

text \<open>
  The registry \<open>main\<close> sets up.  It does not look at what \<open>content_registry_create\<close> returns; a file
  registered in \<open>NULL\<close> is a fault, as one registered in a table without buckets is.
\<close>

definition app_router :: "config \<Rightarrow> 'u world \<Rightarrow> ('u router \<times> 'u world) option" where
  "app_router cfg w = (let (reg, w) = content_registry_create cfg w in do {
     (_, d, w) \<leftarrow> content_registry_add_dir cfg (case reg of None \<Rightarrow> [] | Some d \<Rightarrow> d) ''wwwroot'' None SERVE_STATIC_STREAMED w;
     Some (\<lparr> ro_routes = app_routes, ro_registry = (case reg of None \<Rightarrow> None | Some _ \<Rightarrow> Some d) \<rparr>, w)
   })"

subsection \<open>The contract of the routes\<close>

lemma app_entry_ok: "scratch_ok a \<Longrightarrow> ok w \<Longrightarrow> \<exists>res a' w'. app_entry req bs a w = Some (res, a', w') \<and> response_ok ok res \<and> arena_grows a a' \<and> ok w'"
  by (simp add: app_entry_def response_ok_def wf_response_def response_buffer_def arena_grows_refl)

lemma app_submit_ok:
  assumes "scratch_ok a" "ok w"
  shows "\<exists>res a' w'. app_submit req bs a w = Some (res, a', w') \<and> response_ok ok res \<and> arena_grows a a' \<and> ok w'"
proof -
  have wf: "wf_arena a" "ar_used a \<le> ar_cap a" using assms(1) by (simp_all add: scratch_ok_def wf_arena_def)
  from arena_alloc_eq [OF wf(1), of 0 "of_nat (length bs)"] obtain p a' where
    alloc: "arena_alloc a (of_nat (length bs)) 1 = Some (p, a')"
    "p = None \<longrightarrow> a' = a" by (auto split: if_splits)
  show ?thesis
  proof (cases p)
    case None
    with alloc assms show ?thesis
      by (simp add: app_submit_def arena_array_def response_error_ok arena_grows_refl)
  next
    case (Some q)
    from arena_alloc_SomeD [OF wf(1), of 0 "of_nat (length bs)" q a'] alloc(1) Some
    have "ar_base a' = ar_base a" "ar_cap a' = ar_cap a" "unat (ar_used a') \<le> unat (ar_cap a)"
      "unat (ar_used a) \<le> unat (ar_used a')" by (simp_all add: round_up_def)
    then have "arena_grows a a'" by (simp add: arena_grows_def word_le_nat_alt)
    with alloc(1) Some assms(2) show ?thesis
      by (simp add: app_submit_def arena_array_def response_ok_def wf_response_def response_buffer_def)
  qed
qed

lemma route_okI:
  assumes "call_handler r = Some f"
    "\<And>req bs a w. scratch_ok a \<Longrightarrow> ok w \<Longrightarrow> \<exists>res a' w'. f req bs a w = Some (res, a', w') \<and> response_ok ok res \<and> arena_grows a a' \<and> ok w'"
  shows "route_ok ok r"
proof -
  have "case f req bs a w of None \<Rightarrow> False | Some (res, a', w') \<Rightarrow> response_ok ok res \<and> arena_grows a a' \<and> ok w'"
    if "ok w \<and> scratch_ok a" for req bs a w
    using assms(2) [of a w req bs] that by auto
  then show ?thesis using assms(1) by (simp add: route_ok_def)
qed

lemma app_routes_ok: "list_all (route_ok ok) app_routes"
proof -
  have "route_ok ok \<lparr> rt_method = m, rt_method_shared = b, rt_path = p, rt_handler = Fn app_entry, rt_data = 0 \<rparr>"
    "route_ok ok \<lparr> rt_method = m, rt_method_shared = b, rt_path = p, rt_handler = Fn app_submit, rt_data = 0 \<rparr>" for m b p
    by (rule route_okI, simp add: call_handler_def, erule (1) app_entry_ok)
      (rule route_okI, simp add: call_handler_def, erule (1) app_submit_ok)
  then show ?thesis by (simp add: app_routes_def)
qed

end
