(* ===== verification/Answering.thy ===== *)
theory Answering
  imports Slot_Reuse Example_App
begin

text \<open>
  From the bytes of a request to the bytes of its answer: a request that arrives on a fresh connection is
  handed to the handler of its route, with its parts and its body, and what the handler returns is sent.
\<close>

subsection \<open>What reading a head leaves alone\<close>

definition surroundings :: "'u system \<Rightarrow> arena \<times> 'u router \<times> 'u world" where
  "surroundings s = (c_arena (sy_conn s), sy_router s, sy_world s)"

lemma phase_body_dispatch_surroundings: "phase_body_dispatch s = Some (p, s') \<Longrightarrow> surroundings s' = surroundings s"
  by (auto simp: phase_body_dispatch_def surroundings_def Let_def Option.bind_eq_Some_conv split: if_splits)

lemma send_error_surroundings: "send_error st s = Some (p, s') \<Longrightarrow> surroundings s' = surroundings s"
  by (auto simp: send_error_def surroundings_def phase_send_begin_def Option.bind_eq_Some_conv)

lemma surroundings_simps [simp]:
  "surroundings (s\<lparr>sy_conn := c\<rparr>) = surroundings s \<longleftrightarrow> c_arena c = c_arena (sy_conn s)"
  "surroundings (s\<lparr>sy_net := n\<rparr>) = surroundings s" "surroundings (s\<lparr>sy_conn := c, sy_net := n\<rparr>) = surroundings (s\<lparr>sy_conn := c\<rparr>)"
  by (simp_all add: surroundings_def)

lemma head_body_dispatch_surroundings: "head_body_dispatch h10 cl s = Some (p, s') \<Longrightarrow> surroundings s' = surroundings s"
  by (auto simp: head_body_dispatch_def Let_def phase_send_100_begin_def split: if_splits
      dest!: send_error_surroundings phase_body_dispatch_surroundings)

lemma head_framing_surroundings: "head_framing cfg h10 s = Some (p, s') \<Longrightarrow> surroundings s' = surroundings s"
  by (auto simp: head_framing_def Let_def Option.bind_eq_Some_conv split: if_splits option.splits
      dest!: send_error_surroundings head_body_dispatch_surroundings)

lemma head_received_surroundings: "head_received cfg h s = Some (p, s') \<Longrightarrow> surroundings s' = surroundings s"
  by (auto simp: head_received_def Let_def Option.bind_eq_Some_conv split: if_splits option.splits
      dest!: send_error_surroundings head_framing_surroundings)

lemma step_header_read_surroundings:
  assumes "step_header_read cfg s = Some (p, s')"
  shows "surroundings s' = surroundings s"
proof -
  obtain res b net where "conn_recv_header (c_fd (sy_conn s)) (c_req_buf (sy_conn s)) (sy_net s) = Some (res, b, net)"
    using assms by (auto simp: step_header_read_def Option.bind_eq_Some_conv)
  with assms show ?thesis
    by (cases "rh_status res") (auto simp: step_header_read_def Let_def Option.bind_eq_Some_conv
        dest!: send_error_surroundings head_received_surroundings)
qed


subsection \<open>A request arrives\<close>

text \<open>The packets of a request: its head and, when there is one, its body.\<close>

definition request_packets :: "string \<Rightarrow> string \<Rightarrow> recv_event list" where
  "request_packets head body = Recv_Data head # (if body = [] then [] else [Recv_Data body])"

text \<open>The fields announce exactly the body, in plain.\<close>

definition framed_by :: "config \<Rightarrow> field list \<Rightarrow> string \<Rightarrow> bool" where
  "framed_by cfg fs body \<longleftrightarrow> (let hs = map field_header fs in te_headers hs = [] \<and> header_find hs ''expect'' = None
     \<and> (case header_find hs ''content-length'' of None \<Rightarrow> body = []
        | Some h \<Rightarrow> body \<noteq> [] \<and> announced_length cfg (Some h) = Inr (Some (length body))))"

text \<open>The request a handler is shown.\<close>

definition seen_request :: "request \<Rightarrow> nat \<Rightarrow> string \<Rightarrow> request" where
  "seen_request req start body = (if body = [] then req
     else req\<lparr>rq_body := In_Request_Buffer start, rq_body_len := length body\<rparr>)"

definition handed_over :: "config \<Rightarrow> nat \<Rightarrow> int \<Rightarrow> 'u system \<Rightarrow> request \<Rightarrow> string \<Rightarrow> 'u system \<Rightarrow> bool" where
  "handed_over cfg slack fd s req body s1 \<longleftrightarrow> conn_inv cfg slack fd s1 \<and> c_phase (sy_conn s1) = CONN_BUILDING
     \<and> c_req (sy_conn s1) = req \<and> handler_body (sy_conn s1) = Some body \<and> rest_behind (intake s1) = []
     \<and> surroundings s1 = surroundings s \<and> c_requests (sy_conn s1) = c_requests (sy_conn s)"

lemma step_body_cl_read_arrives:
  assumes "system_ok cfg slack fd s" "c_phase (sy_conn s) = CONN_READING_BODY_CL" "phase_ok cfg slack CONN_READING_BODY_CL (sy_conn s)"
    "hb_size (c_req_buf (sy_conn s)) = c_body_start (sy_conn s)" "inbox (sy_net s) = Recv_Data body # evs" "body \<noteq> []"
    "c_body_len (sy_conn s) = length body" "c_body_start (sy_conn s) + length body \<le> hb_cap (c_req_buf (sy_conn s))"
  shows "\<exists>s1. conn_step cfg s = Some s1 \<and> c_phase (sy_conn s1) = CONN_BUILDING \<and> sy_net s1 = (sy_net s)\<lparr>inbox := evs\<rparr>
    \<and> c_req (sy_conn s1) = (c_req (sy_conn s))\<lparr>rq_body_len := length body, rq_body := In_Request_Buffer (c_body_start (sy_conn s))\<rparr>
    \<and> handler_body (sy_conn s1) = Some body \<and> c_next_req_offset (sy_conn s1) = 0 \<and> surroundings s1 = surroundings s
    \<and> c_requests (sy_conn s1) = c_requests (sy_conn s) \<and> c_keep_alive (sy_conn s1) = c_keep_alive (sy_conn s)"
proof -
  let ?b = "c_req_buf (sy_conn s)" and ?start = "c_body_start (sy_conn s)"
  have st: "c_st (sy_conn s) = St_Cl 0" using assms(3,4) by (auto simp: phase_ok_def split: conn_st.splits)
  have buf: "wf_buffer ?b" "0 \<le> c_fd (sy_conn s)" using assms(1) by (auto elim!: system_okE)
  obtain m where m: "hb_bytes ?b = Some m" using buf(1) by (rule wf_bufferE)
  have room: "hb_size ?b + length body \<le> hb_cap ?b" using assms(4,8) by simp
  obtain b where b: "buffer_append ?b body = Some b" "wf_buffer b" "live b = live ?b @ body" "hb_size b = hb_size ?b + length body"
    using buffer_append_eq [OF buf(1) room] .
  obtain x xs where x: "body = x # xs" using assms(6) by (cases body) auto
  have recv: "recv (sy_net s) (hb_cap ?b - hb_size ?b) = (Inl body, (sy_net s)\<lparr>inbox := evs\<rparr>)"
  proof -
    have "length body \<le> hb_cap ?b - hb_size ?b" using room by linarith
    then show ?thesis using assms(5) by (simp add: recv_def)
  qed
  have "conn_recv_body_cl_loop b ?start (length body) (length body) ((sy_net s)\<lparr>inbox := evs\<rparr>)
      = Some (\<lparr> rb_status = READ_BODY_OK, rb_next_req_offset = 0 \<rparr>, b, length body, (sy_net s)\<lparr>inbox := evs\<rparr>)"
    by (subst conn_recv_body_cl_loop.simps) simp
  moreover have "hb_size ?b < hb_cap ?b" using room x by simp
  ultimately have "conn_recv_body_cl_loop ?b ?start (length body) 0 (sy_net s)
      = Some (\<lparr> rb_status = READ_BODY_OK, rb_next_req_offset = 0 \<rparr>, b, length body, (sy_net s)\<lparr>inbox := evs\<rparr>)"
    using recv b(1) by (subst conn_recv_body_cl_loop.simps) (simp add: x)
  then have step: "step_body_cl_read s = Some (CONN_BUILDING, (on_conn (\<lambda>c. c\<lparr>c_req_buf := b, c_st := St_Cl (length body),
      c_req := (c_req c)\<lparr>rq_body_len := length body, rq_body := In_Request_Buffer ?start\<rparr>, c_next_req_offset := 0\<rparr>) s)\<lparr>sy_net := (sy_net s)\<lparr>inbox := evs\<rparr>\<rparr>)"
    using assms(2,7) st m buf(2) by (simp add: step_body_cl_read_def st_received_def conn_recv_body_cl_def Let_def)
  obtain m' where m': "hb_bytes b = Some m'" "hb_size b \<le> length m'" "live b = take (hb_size b) m'"
    using b(2) by (auto elim!: wf_bufferE)
  have "take (length body) (drop ?start m') = drop ?start (live b)" using m' b(4) assms(4) by (simp add: drop_take)
  also have "\<dots> = body" using b(3) length_live [OF buf(1)] assms(4) by simp
  finally have "rd_range m' ?start (length body) = Some body" using m'(2) b(4) assms(4) by (simp add: rd_range_def)
  with m'(1) show ?thesis
    using assms(2) step by (simp add: conn_step_def handler_body_def surroundings_def)
qed

text \<open>Its head: the next phase reads the body, if there is one.\<close>

lemma request_head_arrives:
  assumes "wf_config cfg" "conn_inv cfg slack fd s" "c_phase (sy_conn s) = CONN_READING_REQUEST"
    "hb_size (c_req_buf (sy_conn s)) = 0" "c_body_len (sy_conn s) = 0" "head_parts_ok cfg meth target v fs"
    "inbox (sy_net s) = request_packets (request_head_text meth target v fs) body @ evs"
    "framed_by cfg fs body" "head_error cfg (parsed_head meth target v fs) = None"
    "length (request_head_text meth target v fs) + length body \<le> max_request_len cfg"
  obtains s1 where "step_header_read cfg s = Some (if body = [] then CONN_BUILDING else CONN_READING_BODY_CL, s1)"
    "sy_net s1 = (sy_net s)\<lparr>inbox := (if body = [] then evs else Recv_Data body # evs)\<rparr>"
    "live (c_req_buf (sy_conn s1)) = request_head_text meth target v fs" "c_body_start (sy_conn s1) = length (request_head_text meth target v fs)"
    "rq_line (c_req (sy_conn s1)) = request_line_of meth target v" "rq_headers (c_req (sy_conn s1)) = map field_header fs"
    "c_keep_alive (sy_conn s1) = (c_keep_alive (sy_conn s) \<or> asks_keep_alive (parsed_head meth target v fs))"
    "c_requests (sy_conn s1) = c_requests (sy_conn s)" "c_body_len (sy_conn s1) = length body"
proof -
  let ?h = "request_head_text meth target v fs" and ?req = "parsed_head meth target v fs"
  have ok: "system_ok cfg slack fd s" "c_req (sy_conn s) = request_zero" using assms(2,3) by (simp_all add: conn_inv_def phase_ok_def)
  obtain more where inbox: "inbox (sy_net s) = Recv_Data ?h # more" "more = (if body = [] then evs else Recv_Data body # evs)"
    using assms(7) by (auto simp: request_packets_def)
  obtain p s1 where s1: "step_header_read cfg s = Some (p, s1)" "sy_net s1 = (sy_net s)\<lparr>inbox := more\<rparr>"
    "live (c_req_buf (sy_conn s1)) = ?h" "c_body_start (sy_conn s1) = length ?h"
    "rq_line (c_req (sy_conn s1)) = request_line_of meth target v" "rq_headers (c_req (sy_conn s1)) = map field_header fs"
    "c_keep_alive (sy_conn s1) = (c_keep_alive (sy_conn s) \<or> asks_keep_alive ?req)" "c_requests (sy_conn s1) = c_requests (sy_conn s)"
    "case header_find (map field_header fs) ''content-length'' of None \<Rightarrow> c_body_len (sy_conn s1) = c_body_len (sy_conn s)
       | Some h \<Rightarrow> announced_length cfg (Some h) = Inr (Some (c_body_len (sy_conn s1)))"
    and p: "p = (if awaits_continue s1 then CONN_SENDING_100 else if te_headers (map field_header fs) \<noteq> [] then CONN_READING_BODY_CHUNKED
         else if c_body_len (sy_conn s1) = 0 then CONN_BUILDING else CONN_READING_BODY_CL)"
    using head_arrives [OF assms(1) ok(1) assms(3) ok(2) assms(4,6) inbox(1) assms(9)] by (elim exE conjE) (rule that)
  have frame: "te_headers (map field_header fs) = []" "header_find (map field_header fs) ''expect'' = None"
    using assms(8) by (simp_all add: framed_by_def Let_def)
  have len: "c_body_len (sy_conn s1) = length body"
    using assms(5,8) s1(9) by (auto simp: framed_by_def Let_def split: option.splits)
  have no100: "\<not> awaits_continue s1" using frame(2) s1(6) by (simp add: awaits_continue_def Let_def)
  have "p = (if body = [] then CONN_BUILDING else CONN_READING_BODY_CL)" using p no100 frame(1) len by simp
  with s1 len show thesis unfolding inbox(2) by (intro that [of s1]) simp_all
qed

lemma request_arrives:
  assumes "wf_config cfg" "conn_inv cfg slack fd s" "c_phase (sy_conn s) = CONN_READING_REQUEST"
    "hb_size (c_req_buf (sy_conn s)) = 0" "c_body_len (sy_conn s) = 0" "head_parts_ok cfg meth target v fs"
    "inbox (sy_net s) = request_packets (request_head_text meth target v fs) body @ evs"
    "framed_by cfg fs body" "head_error cfg (parsed_head meth target v fs) = None"
    "length (request_head_text meth target v fs) + length body \<le> max_request_len cfg"
  shows "\<exists>s1. conn_steps cfg (if body = [] then 1 else 2) s = Some s1
    \<and> handed_over cfg slack fd s (seen_request (parsed_head meth target v fs) (length (request_head_text meth target v fs)) body) body s1
    \<and> sy_net s1 = (sy_net s)\<lparr>inbox := evs\<rparr>
    \<and> c_keep_alive (sy_conn s1) = (c_keep_alive (sy_conn s) \<or> asks_keep_alive (parsed_head meth target v fs))"
proof -
  let ?h = "request_head_text meth target v fs" and ?req = "parsed_head meth target v fs"
  let ?p = "if body = [] then CONN_BUILDING else CONN_READING_BODY_CL"
  obtain s1 where s1: "step_header_read cfg s = Some (?p, s1)" "sy_net s1 = (sy_net s)\<lparr>inbox := (if body = [] then evs else Recv_Data body # evs)\<rparr>"
    "live (c_req_buf (sy_conn s1)) = ?h" "c_body_start (sy_conn s1) = length ?h"
    "rq_line (c_req (sy_conn s1)) = request_line_of meth target v" "rq_headers (c_req (sy_conn s1)) = map field_header fs"
    "c_keep_alive (sy_conn s1) = (c_keep_alive (sy_conn s) \<or> asks_keep_alive ?req)" "c_requests (sy_conn s1) = c_requests (sy_conn s)"
    "c_body_len (sy_conn s1) = length body" using request_head_arrives [OF assms] by blast
  let ?s1 = "on_conn (\<lambda>c. c\<lparr>c_phase := ?p\<rparr>) s1"
  have step: "conn_step cfg s = Some ?s1" by (rule conn_step_reading [OF assms(3) s1(1)])
  have inv: "conn_inv cfg slack fd ?s1" using conn_step_ok [OF assms(1,2)] step by simp
  have around: "surroundings s1 = surroundings s" by (rule step_header_read_surroundings [OF s1(1)])
  show ?thesis
  proof (cases "body = []")
    case True
    have less: "bodyless (?p, s1)" by (rule step_header_read_bodyless [OF s1(1)])
    then have body: "rq_body_len (c_req (sy_conn s1)) = 0" "rq_body (c_req (sy_conn s1)) = Body_NULL"
      "c_next_req_offset (sy_conn s1) = length ?h" using True s1(4) by (simp_all add: bodyless_def)
    have "c_req (sy_conn s1) = ?req" using s1(5,6) body by (cases "c_req (sy_conn s1)") (simp add: parsed_head_def request_zero_def)
    with inv body s1 True around step show ?thesis
      by (intro exI [of _ ?s1])
        (simp add: handed_over_def handler_body_def rest_behind_def intake_def seen_request_def surroundings_def)
  next
    case False
    have ok1: "system_ok cfg slack fd ?s1" "phase_ok cfg slack CONN_READING_BODY_CL (sy_conn ?s1)"
      using inv False by (simp_all add: conn_inv_def)
    then have "wf_buffer (c_req_buf (sy_conn s1))" "hb_cap (c_req_buf (sy_conn s1)) = max_request_len cfg"
      by (auto elim!: system_okE)
    then have size: "hb_size (c_req_buf (sy_conn ?s1)) = c_body_start (sy_conn ?s1)" "c_body_len (sy_conn ?s1) = length body"
      "c_body_start (sy_conn ?s1) + length body \<le> hb_cap (c_req_buf (sy_conn ?s1))" "c_phase (sy_conn ?s1) = CONN_READING_BODY_CL"
      "inbox (sy_net ?s1) = Recv_Data body # evs"
      using length_live [of "c_req_buf (sy_conn s1)"] s1(2-4,9) assms(10) False by simp_all
    obtain s2 where s2: "conn_step cfg ?s1 = Some s2" "c_phase (sy_conn s2) = CONN_BUILDING" "sy_net s2 = (sy_net s1)\<lparr>inbox := evs\<rparr>"
      "c_req (sy_conn s2) = (c_req (sy_conn s1))\<lparr>rq_body_len := length body, rq_body := In_Request_Buffer (length ?h)\<rparr>"
      "handler_body (sy_conn s2) = Some body" "c_next_req_offset (sy_conn s2) = 0" "surroundings s2 = surroundings s1"
      "c_requests (sy_conn s2) = c_requests (sy_conn s1)" "c_keep_alive (sy_conn s2) = c_keep_alive (sy_conn s1)"
      using step_body_cl_read_arrives [OF ok1(1) size(4) ok1(2) size(1,5) False size(2,3)] s1(4) by (auto simp: surroundings_def)
    have "conn_inv cfg slack fd s2" using conn_step_ok [OF assms(1) inv] s2(1) by simp
    moreover have "c_req (sy_conn s2) = seen_request ?req (length ?h) body"
      using s1(5,6) s2(4) False by (cases "c_req (sy_conn s1)") (simp add: parsed_head_def request_zero_def seen_request_def)
    moreover have "rest_behind (intake s2) = []" using s2(6) by (simp add: rest_behind_def intake_def)
    ultimately show ?thesis using False step s2 s1(2,7,8) around
      by (intro exI [of _ s2]) (simp add: handed_over_def numeral_2_eq_2)
  qed
qed


subsection \<open>The handler answers\<close>

text \<open>The route of a request that is not in the registry, and what its handler returns.\<close>

definition answers :: "config \<Rightarrow> 'u router \<Rightarrow> request \<Rightarrow> string \<Rightarrow> arena \<Rightarrow> 'u world \<Rightarrow> 'u response \<Rightarrow> 'u world \<Rightarrow> bool" where
  "answers cfg r req body a w res w' \<longleftrightarrow> rl_method (rq_line req) \<noteq> HEAD
     \<and> dict_find cfg (ro_registry r) (rl_path (rq_line req)) = Some None
     \<and> (case rlr_route (route_lookup (ro_routes r) (http_method_show (rl_method (rq_line req))) (rl_path (rq_line req))) of
          None \<Rightarrow> False
        | Some route \<Rightarrow> (case call_handler route of None \<Rightarrow> False | Some f \<Rightarrow> (\<exists>a'. f req body a w = Some (res, a', w'))))"

lemma choose_response_answers:
  assumes "answers cfg (sy_router s) (c_req (sy_conn s)) body (c_arena (sy_conn s)) (sy_world s) res w'"
    "handler_body (sy_conn s) = Some body"
  shows "\<exists>a. choose_response cfg s = Some (res, (on_conn (\<lambda>c. c\<lparr>c_arena := a\<rparr>) s)\<lparr>sy_world := w'\<rparr>)"
proof -
  let ?req = "c_req (sy_conn s)" and ?m = "rl_method (rq_line (c_req (sy_conn s)))"
  obtain route f a where r: "rlr_route (route_lookup (ro_routes (sy_router s)) (http_method_show ?m) (rl_path (rq_line ?req))) = Some route"
    "call_handler route = Some f" "f ?req body (c_arena (sy_conn s)) (sy_world s) = Some (res, a, w')"
    using assms(1) by (auto simp: answers_def split: option.splits)
  have same: "s\<lparr>sy_router := (sy_router s)\<lparr>ro_registry := ro_registry (sy_router s)\<rparr>, sy_world := sy_world s\<rparr> = s" by simp
  have route: "route_response ?m s = Some (res, (on_conn (\<lambda>c. c\<lparr>c_arena := a\<rparr>) s)\<lparr>sy_world := w'\<rparr>)"
    using r assms(2) by (simp add: route_response_def Let_def)
  have miss: "content_registry_lookup cfg (ro_registry (sy_router s)) ?req (rl_path (rq_line ?req)) (sy_world s)
      = Some (cl_zero CONTENT_MISS, ro_registry (sy_router s), sy_world s)"
    using assms(1) by (simp add: answers_def content_registry_lookup_def)
  have "?m \<noteq> HEAD" using assms(1) by (simp add: answers_def)
  then have "choose_response cfg s = route_response ?m s"
    using miss same by (cases "?m = GET") (simp_all add: choose_response_def Let_def cl_zero_def)
  then show ?thesis using route by auto
qed

lemma building_answers:
  assumes "wf_config cfg" "conn_inv cfg slack fd s" "c_phase (sy_conn s) = CONN_BUILDING" "handler_body (sy_conn s) = Some body"
    "answers cfg (sy_router s) (c_req (sy_conn s)) body (c_arena (sy_conn s)) (sy_world s) res w'"
    "\<forall>st. rs_body res \<noteq> BODY_STREAM st" "time_now w' = Some t"
    "response_fits (Some t) res (response_buffer_size cfg) (c_keep_alive (sy_conn s))"
  shows "\<exists>s2. conn_step cfg s = Some s2 \<and> sending cfg slack fd s2
    \<and> pending_response s2 = response_text t res (c_keep_alive (sy_conn s)) \<and> c_keep_alive (sy_conn s2) = c_keep_alive (sy_conn s)
    \<and> c_requests (sy_conn s2) = c_requests (sy_conn s) \<and> sy_net s2 = sy_net s \<and> sy_world s2 = w'
    \<and> live (c_req_buf (sy_conn s2)) = rest_behind (intake s)"
proof -
  have ok: "system_ok cfg slack fd s" "body_readable (sy_conn s)" "c_next_req_offset (sy_conn s) \<le> hb_size (c_req_buf (sy_conn s))"
    using assms(2,3) by (simp_all add: conn_inv_def phase_ok_def)
  obtain a where choose: "choose_response cfg s = Some (res, (on_conn (\<lambda>c. c\<lparr>c_arena := a\<rparr>) s)\<lparr>sy_world := w'\<rparr>)"
    using choose_response_answers [OF assms(5,4)] by blast
  let ?s0 = "(on_conn (\<lambda>c. c\<lparr>c_arena := a\<rparr>) s)\<lparr>sy_world := w'\<rparr>"
  have wf: "wf_response res" "system_ok cfg slack fd ?s0"
    using choose_response_ok [OF ok(1,2), of] choose by (auto simp: response_ok_def)
  obtain m where m: "hb_bytes (c_resp_buf (sy_conn s)) = Some m" "length m = response_buffer_size cfg"
    "hb_cap (c_resp_buf (sy_conn s)) = response_buffer_size cfg"
    using ok(1) by (auto elim!: system_okE wf_bufferE)
  let ?ka = "c_keep_alive (sy_conn s)" and ?cap = "response_buffer_size cfg"
  let ?txt = "response_text t res ?ka"
  have "?cap \<le> length m" using m(2) by simp
  from response_serialize_spec [OF wf(1) this, of "Some t" ?ka] assms(8) obtain m' where
    m': "response_serialize (Some t) res m ?cap ?ka = Some (Some (length ?txt), m')" "length m' = length m" "starts m' ?txt" by auto
  have fit: "length ?txt \<le> ?cap" "?txt \<noteq> []" using assms(8) by (simp_all add: response_fits_def)
  let ?s1 = "set_resp_size (length ?txt) (on_conn (\<lambda>c. c\<lparr>c_resp_buf := (c_resp_buf c)\<lparr>hb_bytes := Some m'\<rparr>\<rparr>) ?s0)"
  have ok1: "system_ok cfg slack fd ?s1" using system_ok_resp [OF wf(2), of m' "length ?txt"] m'(2) m(2) fit(1) by simp
  have off: "c_next_req_offset (sy_conn ?s1) \<le> hb_size (c_req_buf (sy_conn ?s1))" using ok(3) by (simp add: set_resp_size_def)
  obtain b where b: "consume_request ?s1 = Some (on_conn (\<lambda>c. c\<lparr>c_req_buf := b, c_next_req_offset := 0\<rparr>) ?s1)"
    "live b = (if c_next_req_offset (sy_conn ?s1) = 0 then [] else drop (c_next_req_offset (sy_conn ?s1)) (live (c_req_buf (sy_conn ?s1))))"
    using consume_request_ok [OF ok1 off] by blast
  let ?s2 = "on_conn (\<lambda>c. c\<lparr>c_req_buf := b, c_next_req_offset := 0, c_st := St_Send 0\<rparr>) ?s1"
  have ser: "serialize_response res ?s0 = Some (Some (length ?txt), on_conn (\<lambda>c. c\<lparr>c_resp_buf := (c_resp_buf c)\<lparr>hb_bytes := Some m'\<rparr>\<rparr>) ?s0)"
    using m m'(1) assms(7) by (simp add: serialize_response_def)
  have head: "rl_method (rq_line (c_req (sy_conn s))) \<noteq> HEAD" using assms(5) by (simp add: answers_def)
  have plain: "send_plain res ?s0 = Some (CONN_SENDING_RESPONSE, ?s2)"
    using head ser b(1) by (simp add: send_plain_def Let_def phase_send_begin_def set_resp_size_def)
  have "step_response_build cfg s = send_plain res ?s0"
    using assms(3,6) choose by (cases "rs_body res") (simp_all add: step_response_build_def)
  then have step: "conn_step cfg s = Some (on_conn (\<lambda>c. c\<lparr>c_phase := CONN_SENDING_RESPONSE\<rparr>) ?s2)"
    using assms(3) plain by (simp add: conn_step_def)
  have "conn_inv cfg slack fd (on_conn (\<lambda>c. c\<lparr>c_phase := CONN_SENDING_RESPONSE\<rparr>) ?s2)"
    using conn_step_ok [OF assms(1,2)] step by simp
  moreover have "take (length ?txt) m' = ?txt" using m'(3) by (simp add: starts_def)
  ultimately show ?thesis using step b(2)
    by (intro exI [of _ "on_conn (\<lambda>c. c\<lparr>c_phase := CONN_SENDING_RESPONSE\<rparr>) ?s2"])
      (simp add: sending_def pending_response_def live_def set_resp_size_def rest_behind_def intake_def)
qed

subsection \<open>Property\<close>

text \<open>
  C3: a request is answered with what its handler returns.  When the head and the body of a well-formed request with
  correct framing arrive on a fresh connection, and its path is a route and not in the registry, the
  handler is called with exactly the parts of the request and exactly the bytes of its body, and the text of its response, with
  the \<open>Connection\<close> header the request asks for, is what the client gets, once; nothing of the request is left in
  the buffer, and the connection goes on to the next request or is closed as the header said.
\<close>

theorem request_is_answered:
  assumes "wf_config cfg" "conn_inv cfg slack fd s" "c_phase (sy_conn s) = CONN_READING_REQUEST"
    "hb_size (c_req_buf (sy_conn s)) = 0" "c_body_len (sy_conn s) = 0" "head_parts_ok cfg meth target v fs"
    "inbox (sy_net s) = request_packets (request_head_text meth target v fs) body @ evs"
    "framed_by cfg fs body" "head_error cfg (parsed_head meth target v fs) = None"
    "length (request_head_text meth target v fs) + length body \<le> max_request_len cfg"
    "ka = (c_keep_alive (sy_conn s) \<or> asks_keep_alive (parsed_head meth target v fs))"
    "answers cfg (sy_router s) (seen_request (parsed_head meth target v fs) (length (request_head_text meth target v fs)) body) body
       (c_arena (sy_conn s)) (sy_world s) res w'"
    "\<forall>st. rs_body res \<noteq> BODY_STREAM st" "time_now w' = Some t" "response_fits (Some t) res (response_buffer_size cfg) ka"
    "outbox (sy_net s) = Send_Room m # outs" "response_buffer_size cfg \<le> m"
  shows "\<exists>n s'. n \<le> 4 \<and> conn_steps cfg n s = Some s' \<and> wire (sy_net s') = wire (sy_net s) @ response_text t res ka
    \<and> inbox (sy_net s') = evs \<and> outbox (sy_net s') = outs \<and> sy_world s' = w'
    \<and> c_requests (sy_conn s') = c_requests (sy_conn s) + 1
    \<and> (if ka \<and> c_requests (sy_conn s) + 1 < max_requests cfg
       then c_phase (sy_conn s') = CONN_READING_REQUEST \<and> live (c_req_buf (sy_conn s')) = []
       else c_phase (sy_conn s') = CONN_CLOSED)"
proof -
  let ?req = "seen_request (parsed_head meth target v fs) (length (request_head_text meth target v fs)) body"
  obtain s1 where s1: "conn_steps cfg (if body = [] then 1 else 2) s = Some s1" "handed_over cfg slack fd s ?req body s1"
    "sy_net s1 = (sy_net s)\<lparr>inbox := evs\<rparr>" "c_keep_alive (sy_conn s1) = ka"
    using request_arrives [OF assms(1-10)] assms(11) by blast
  note h = s1(2) [unfolded handed_over_def]
  have fits: "response_fits (Some t) res (response_buffer_size cfg) (c_keep_alive (sy_conn s1))" using assms(15) s1(4) by simp
  have "answers cfg (sy_router s1) (c_req (sy_conn s1)) body (c_arena (sy_conn s1)) (sy_world s1) res w'"
    using h assms(12) by (simp add: surroundings_def)
  from building_answers [OF assms(1) _ _ _ this assms(13,14) fits, of slack fd] h obtain s2 where
    s2: "conn_step cfg s1 = Some s2" "sending cfg slack fd s2" "pending_response s2 = response_text t res ka" "c_keep_alive (sy_conn s2) = ka"
    "c_requests (sy_conn s2) = c_requests (sy_conn s)" "sy_net s2 = sy_net s1" "sy_world s2 = w'" "live (c_req_buf (sy_conn s2)) = []"
    using s1(4) by auto
  have "length (pending_response s2) \<le> m" using s2(3) assms(15,17) by (simp add: response_fits_def)
  moreover have "outbox (sy_net s2) = Send_Room m # outs" using s2(6) s1(3) assms(16) by simp
  ultimately obtain s3 where s3: "conn_step cfg s2 = Some s3" "sy_net s3 = delivered (response_text t res ka) m (sy_net s2)"
    "c_requests (sy_conn s3) = c_requests (sy_conn s) + 1" "sy_world s3 = w'"
    "if ka \<and> c_requests (sy_conn s) + 1 < max_requests cfg
       then c_phase (sy_conn s3) = CONN_READING_REQUEST \<and> c_req_buf (sy_conn s3) = c_req_buf (sy_conn s2)
       else c_phase (sy_conn s3) = CONN_CLOSED"
    using conn_step_complete [OF s2(2), of m outs] s2(3-5,7) by (auto split: if_splits)
  have "conn_steps cfg ((if body = [] then 1 else 2) + 2) s = Some s3"
    using s1(1) s2(1) s3(1) by (simp only: conn_steps_add) (simp add: numeral_2_eq_2)
  moreover have "(if body = [] then 1 else 2) + 2 \<le> (4 :: nat)" by simp
  ultimately show ?thesis
    using s1(3) s2(3,6,8) s3(2-5) assms(16) \<open>length (pending_response s2) \<le> m\<close>
    by (intro exI [of _ "(if body = [] then 1 else 2) + 2"] exI [of _ s3]) (auto split: if_splits)
qed


subsection \<open>Witness\<close>

text \<open>A form is posted to the example program: it echoes the body.\<close>

definition demo_form_fields :: "field list" where
  "demo_form_fields = [(''Host'', '' x ''), (''Content-Length'', ''3'')]"

definition demo_post :: "unit system" where
  "demo_post = (demo_system (request_packets (request_head_text POST ''/submit'' ''HTTP/1.1'' demo_form_fields) ''a=1'') [Send_Room 4096])
     \<lparr>sy_router := \<lparr> ro_routes = app_routes, ro_registry = None \<rparr>\<rparr>"

definition demo_echo :: "unit response" where
  "demo_echo = response_buffer 200 ''OK'' (Some ''a=1'') 3 [html_header]"

lemma demo_post_inv: "conn_inv esp32_config 0 5 demo_post"
proof -
  have "conn_inv esp32_config 0 5 (demo_system (request_packets (request_head_text POST ''/submit'' ''HTTP/1.1'' demo_form_fields) ''a=1'') [Send_Room 4096])"
    by (rule demo_system_inv)
  moreover have "router_ok esp32_config 0 \<lparr> ro_routes = (app_routes :: unit route list), ro_registry = None \<rparr>"
    by (simp add: router_ok_def registry_ok_def app_routes_ok)
  ultimately show ?thesis by (simp add: conn_inv_def system_ok_def demo_post_def)
qed

lemma demo_form_ok:
  "head_parts_ok esp32_config POST ''/submit'' ''HTTP/1.1'' demo_form_fields"
  "framed_by esp32_config demo_form_fields ''a=1''"
  "head_error esp32_config (parsed_head POST ''/submit'' ''HTTP/1.1'' demo_form_fields) = None"
  "length (request_head_text POST ''/submit'' ''HTTP/1.1'' demo_form_fields) + length ''a=1'' \<le> max_request_len esp32_config"
  "asks_keep_alive (parsed_head POST ''/submit'' ''HTTP/1.1'' demo_form_fields)"
proof -
  show len: "length (request_head_text POST ''/submit'' ''HTTP/1.1'' demo_form_fields) + length ''a=1'' \<le> max_request_len esp32_config"
    "framed_by esp32_config demo_form_fields ''a=1''"
    "head_error esp32_config (parsed_head POST ''/submit'' ''HTTP/1.1'' demo_form_fields) = None"
    "asks_keep_alive (parsed_head POST ''/submit'' ''HTTP/1.1'' demo_form_fields)" by code_simp+
  have "list_all (field_ok esp32_config) demo_form_fields"
    by (simp add: demo_form_fields_def demo_parts_ok(2)) (simp add: field_ok_def header_key_ok_def header_value_ok_def is_field_content_byte_def
      is_ows_def is_vchar_def is_tchar_def isalnum_def islower_def isupper_def isdigit_def ord_def esp32_config_def)
  moreover have "target_ok esp32_config ''/submit''"
    by (simp add: target_ok_def target_char_def ord_def esp32_config_def)
  ultimately show "head_parts_ok esp32_config POST ''/submit'' ''HTTP/1.1'' demo_form_fields"
    using len(1) unfolding head_parts_ok_def
    by (simp add: methods_def versions_def) (simp add: demo_form_fields_def esp32_config_def)
qed

lemma demo_submit:
  "\<exists>a'. app_submit req ''a=1'' (c_arena demo_conn) w = Some (demo_echo, a', w)"
proof -
  have len: "length ''a=1'' = 3" by simp
  have "wf_arena (c_arena demo_conn)" by (simp add: wf_arena_def demo_conn_def)
  from arena_alloc_eq [OF this, of 0 3] have "\<exists>p a'. arena_alloc (c_arena demo_conn) 3 1 = Some (Some p, a')"
    by (simp add: demo_conn_def round_up_def)
  then show ?thesis unfolding app_submit_def arena_array_def len demo_echo_def by (elim exE) simp
qed

lemma demo_echo_fits: "response_fits (Some 1000000000) demo_echo (response_buffer_size esp32_config) True"
proof -
  have digits: "length (show_int 200) \<le> 3" by (auto simp: show_int_def intro!: length_show_nat)
  have size: "length (show_nat 3) \<le> 2" by (rule length_show_nat) simp_all
  have date: "length (http_date_text (gmtime 1000000000)) = 29" by (rule length_http_date) (simp add: sane_clock_def)
  have parts: "rs_status demo_echo = 200" "rs_reason demo_echo = ''OK''" "rs_headers demo_echo = [html_header]"
    "rs_body demo_echo = BODY_BUFFER \<lparr> hb_cap = 3, hb_size = 3, hb_bytes = Some ''a=1'' \<rparr>" "rs_head_only demo_echo = False"
    by (simp_all add: demo_echo_def response_buffer_def)
  have "length (response_text 1000000000 demo_echo True) \<le> 250"
    using digits size date
    by (simp add: response_text_def response_head_def response_body_def start_line_def date_line_def parts header_line_def
        framing_line_def has_content_length_def live_def connection_line_def html_header_def)
  then show ?thesis by (simp add: response_fits_def response_text_def esp32_config_def)
qed

theorem request_is_answered_witness:
  "\<exists>n s'. n \<le> 4 \<and> conn_steps esp32_config n demo_post = Some s' \<and> wire (sy_net s') = response_text 1000000000 demo_echo True
    \<and> c_requests (sy_conn s') = 1 \<and> c_phase (sy_conn s') = CONN_READING_REQUEST \<and> live (c_req_buf (sy_conn s')) = []"
proof -
  let ?h = "request_head_text POST ''/submit'' ''HTTP/1.1'' demo_form_fields"
  let ?req = "parsed_head POST ''/submit'' ''HTTP/1.1'' demo_form_fields"
  have conn: "sy_conn demo_post = demo_conn" "sy_world demo_post = demo_world" "ro_routes (sy_router demo_post) = app_routes"
    "ro_registry (sy_router demo_post) = None" "outbox (sy_net demo_post) = [Send_Room 4096]" "wire (sy_net demo_post) = []"
    "inbox (sy_net demo_post) = request_packets ?h ''a=1'' @ []"
    by (simp_all add: demo_post_def demo_system_def)
  have f: "c_phase (sy_conn demo_post) = CONN_READING_REQUEST" "hb_size (c_req_buf (sy_conn demo_post)) = 0"
    "c_body_len (sy_conn demo_post) = 0" "c_requests (sy_conn demo_post) = 0"
    unfolding conn(1) by (simp_all add: demo_conn_def demo_buffer_def)
  have ka: "True = (c_keep_alive (sy_conn demo_post) \<or> asks_keep_alive ?req)" using demo_form_ok(5) by simp
  have line: "rq_line (seen_request ?req n bs) = request_line_of POST ''/submit'' ''HTTP/1.1''" for n bs
    by (simp add: seen_request_def parsed_head_def)
  have path: "rl_path (request_line_of POST ''/submit'' ''HTTP/1.1'') = ''/submit''" "rl_method (request_line_of POST ''/submit'' ''HTTP/1.1'') = POST"
    by (simp_all add: request_line_of_def)
  have route: "rlr_route (route_lookup app_routes (http_method_show POST) ''/submit'')
      = Some (\<lparr> rt_method = ''POST'', rt_method_shared = False, rt_path = ''/submit'', rt_handler = Fn app_submit, rt_data = 0 \<rparr> :: unit route)"
    by (simp add: route_lookup_def app_routes_def http_method_show_def)
  have ans: "answers esp32_config (sy_router demo_post) (seen_request ?req (length ?h) ''a=1'') ''a=1'' (c_arena (sy_conn demo_post))
      (sy_world demo_post) demo_echo demo_world"
    using demo_submit by (simp add: answers_def line path conn route call_handler_def dict_find_def)
  have body: "\<forall>st. rs_body demo_echo \<noteq> BODY_STREAM st" "time_now demo_world = Some 1000000000"
    "response_buffer_size esp32_config \<le> 4096"
    by (simp_all add: demo_echo_def response_buffer_def demo_world_def time_now_def esp32_config_def)
  have "1 < max_requests esp32_config" by (simp add: esp32_config_def)
  with request_is_answered [OF wf_esp32_config demo_post_inv f(1-3) demo_form_ok(1) conn(7) demo_form_ok(2-4) ka ans body(1,2) demo_echo_fits conn(5) body(3)]
  show ?thesis unfolding conn(6) f(4) by auto
qed

end
