(* ===== verification/Listener.thy ===== *)
theory Listener
  imports Http_Prelude
begin

text \<open>
  The listening socket of \<open>src/Networking.c\<close>: \<open>listener_socket_get\<close> asks for the addresses of the port and
  binds the first one it can.  What the socket library answers is an argument; the model keeps the open
  descriptors and the address lists that are not freed.
\<close>

subsection \<open>The socket library\<close>

definition AF_INET :: int where "AF_INET = 2"
definition AF_INET6 :: int where "AF_INET6 = 10"
definition SOCK_STREAM :: int where "SOCK_STREAM = 1"
definition AI_PASSIVE :: int where "AI_PASSIVE = 1"

record addrinfo =
  ai_flags :: int
  ai_family :: int
  ai_socktype :: int
  ai_protocol :: int
  ai_addr :: string

text \<open>An address of the list, with what \<open>socket\<close> and \<open>bind\<close> answer when the loop calls them for it.\<close>

record candidate = addrinfo +
  ca_socket :: int
  ca_bind :: int

text \<open>\<open>getaddrinfo\<close> gives an error number or a list; \<open>listen\<close> takes a descriptor and a backlog.\<close>

record socket_library =
  lib_getaddrinfo :: "string option \<Rightarrow> string \<Rightarrow> addrinfo \<Rightarrow> int + candidate list"
  lib_listen :: "int \<Rightarrow> int \<Rightarrow> int"

record sockets =
  so_open :: "int list"
  so_lists :: nat

subsection \<open>Printing an address\<close>

record sockaddr_storage =
  ss_family :: int
  sin_addr :: string
  sin6_addr :: string

text \<open>\<open>inet_ntop\<close> takes the family, the address bytes and the size of the buffer.\<close>

definition inet_ntop2 :: "(int \<Rightarrow> string \<Rightarrow> nat \<Rightarrow> string option) \<Rightarrow> sockaddr_storage \<Rightarrow> nat \<Rightarrow> string option" where
  "inet_ntop2 inet_ntop addr n =
     (if ss_family addr = AF_INET then inet_ntop (ss_family addr) (sin_addr addr) n
      else if ss_family addr = AF_INET6 then inet_ntop (ss_family addr) (sin6_addr addr) n
      else None)"

subsection \<open>Binding\<close>

text \<open>
  The loop over the list: the nodes from \<open>p\<close> on, \<open>listener\<close>, and the open descriptors.
  \<open>setsockopt\<close> is not checked and leaves no trace.
\<close>

fun bind_loop :: "candidate list \<Rightarrow> int \<Rightarrow> int list \<Rightarrow> candidate list \<times> int \<times> int list" where
  "bind_loop [] listener fds = ([], listener, fds)"
| "bind_loop (p # ps) listener fds = (let listener = ca_socket p in
     if listener < 0 then bind_loop ps listener fds
     else let fds = listener # fds in
     if ca_bind p < 0 then bind_loop ps listener (remove1 listener fds)
     else (p # ps, listener, fds))"

definition listener_hints :: addrinfo where
  "listener_hints = \<lparr> ai_flags = AI_PASSIVE, ai_family = AF_INET, ai_socktype = SOCK_STREAM, ai_protocol = 0, ai_addr = [] \<rparr>"

text \<open>The descriptor or -1; \<open>None\<close> is \<open>exit(1)\<close>.\<close>

definition listener_socket_get :: "socket_library \<Rightarrow> string \<Rightarrow> 64 word \<Rightarrow> sockets \<Rightarrow> int option \<times> sockets" where
  "listener_socket_get lib port backlog so = (case lib_getaddrinfo lib None port listener_hints of
     Inl rv \<Rightarrow> (None, so)
   | Inr ai \<Rightarrow> let so = so\<lparr>so_lists := so_lists so + 1\<rparr>;
         (p, listener, fds) = bind_loop ai (-1) (so_open so);
         so = so\<lparr>so_open := fds\<rparr> in
       if p = [] then (Some (-1), so)
       else let so = so\<lparr>so_lists := so_lists so - 1\<rparr> in
       if lib_listen lib listener (sint (ucast backlog :: 32 word)) = -1 then (Some (-1), so)
       else (Some listener, so))"

subsection \<open>The first address that can be bound\<close>

definition bindable :: "candidate \<Rightarrow> bool" where
  "bindable p \<longleftrightarrow> 0 \<le> ca_socket p \<and> 0 \<le> ca_bind p"

lemma bind_loop_spec:
  "bind_loop ps l fds = (case dropWhile (\<lambda>p. \<not> bindable p) ps of
     [] \<Rightarrow> ([], if ps = [] then l else ca_socket (last ps), fds)
   | p # rest \<Rightarrow> (p # rest, ca_socket p, ca_socket p # fds))"
  by (induction ps arbitrary: l) (auto simp: bindable_def Let_def simp del: dropWhile_eq_Nil_conv split: list.splits)

lemma find_dropWhile: "find P xs = (case dropWhile (\<lambda>x. \<not> P x) xs of [] \<Rightarrow> None | x # _ \<Rightarrow> Some x)"
  by (induction xs) simp_all

text \<open>A list is not freed when no address can be bound; a descriptor stays open when \<open>listen\<close> fails.\<close>

lemma listener_socket_get_spec:
  "listener_socket_get lib port backlog so = (case lib_getaddrinfo lib None port listener_hints of
     Inl rv \<Rightarrow> (None, so)
   | Inr ai \<Rightarrow> (case find bindable ai of
       None \<Rightarrow> (Some (-1), so\<lparr>so_lists := so_lists so + 1\<rparr>)
     | Some p \<Rightarrow> (Some (if lib_listen lib (ca_socket p) (sint (ucast backlog :: 32 word)) = -1 then -1 else ca_socket p),
         so\<lparr>so_open := ca_socket p # so_open so\<rparr>)))"
  by (simp add: listener_socket_get_def bind_loop_spec find_dropWhile Let_def del: dropWhile_eq_Nil_conv split: sum.split list.split)

lemma bindable_found: "find bindable ps = Some p \<Longrightarrow> p \<in> set ps \<and> 0 \<le> ca_socket p \<and> 0 \<le> ca_bind p"
  by (auto simp: find_Some_iff bindable_def)

end
