(* ===== verification/Registration.thy ===== *)
theory Registration
  imports Serving
begin

text \<open>
  Registering files and directories (\<open>content_registry_add_file\<close>, \<open>content_registry_add_dir\<close> of
  \<open>src/HttpRouter.c\<close>) does not fault as long as every allocation succeeds, and keeps the contract of the
  registry.  Without memory \<open>dict_insert\<close> faults on a new URL.
\<close>

subsection \<open>The loaders\<close>

context environment
begin

lemma streamed_load_total:
  assumes "ok w" "stat_path w0 path = Some st" "ok w0" "m \<noteq> SERVE_STATIC_RESIDENT" "m \<noteq> SERVE_DYN_RESIDENT"
  shows "\<exists>e w'. content_entry_streamed_load w p st m cc = Some (e, w') \<and> ok w'
    \<and> (case e of Some e \<Rightarrow> ce_mode e = m \<and> length (ce_headers e) = 4 \<and> ce_reval e \<noteq> None | None \<Rightarrow> True)"
proof -
  obtain b1 w1 where b1: "malloc_ok w = (b1, w1)" by fastforce
  obtain b2 w2 where b2: "malloc_ok w1 = (b2, w2)" by fastforce
  have "ok w1" "ok w2" using malloc_keeps [OF assms(1) b1] malloc_keeps [OF _ b2] by auto
  moreover have "reval_fill st p \<noteq> None" using reval_fill_sane [of st p] stat_sane [OF assms(3,2)] by simp
  ultimately show ?thesis using b1 b2 by (auto simp: content_entry_streamed_load_def)
qed

lemma static_load_total:
  assumes "ok w"
  shows "\<exists>e w'. content_entry_static_load w p = Some (e, w') \<and> ok w'
    \<and> (case e of Some e \<Rightarrow> ce_mode e = SERVE_STATIC_RESIDENT \<and> length (ce_headers e) = 3 \<and> ce_len e \<le> length (ce_data e)
       | None \<Rightarrow> True)"
proof (cases "stat_path w p")
  case None
  then show ?thesis using assms by (simp add: content_entry_static_load_def)
next
  case (Some st)
  note st = stat_sane [OF assms Some]
  obtain b1 w1 where b1: "malloc_ok w = (b1, w1)" by fastforce
  have ok1: "ok w1" using malloc_keeps [OF assms b1] .
  let ?d = "replicate (st_size st + 1 + len_buf_size + w_slack w1) NUL"
  obtain r d1 where d1: "file_read w1 p ?d (st_size st) = Some (r, d1)" "length d1 = length ?d"
    "case r of Some n \<Rightarrow> n \<le> st_size st | None \<Rightarrow> True"
    using file_read_total [OF ok1, of "st_size st" ?d p] by auto
  show ?thesis
  proof (cases r)
    case None
    with Some ok1 b1 d1(1) show ?thesis by (auto simp: content_entry_static_load_def)
  next
    case (Some n)
    then have n: "n < 10 ^ 20" "n \<le> st_size st" using d1(3) st by simp_all
    have "n + 1 + length (show_nat n) + 1 \<le> length d1"
      using length_show_nat_len_buf [OF n(1)] n(2) d1(2) by simp
    then obtain d2 where "len_header_write d1 n = Some (show_nat n, d2)" "n \<le> length d2"
      using len_header_write_spec [OF n(1), of d1] by simp
    with ok1 b1 d1(1) Some \<open>stat_path w p = Some st\<close> show ?thesis by (auto simp: content_entry_static_load_def)
  qed
qed

end

text \<open>A system that also has memory is an environment of its own.\<close>

definition granted_ok :: "nat \<Rightarrow> 'u world \<Rightarrow> bool" where
  "granted_ok slack w \<longleftrightarrow> world_ok slack w \<and> memory_granted w"

interpretation granted: environment "granted_ok slack" slack for slack
proof unfold_locales
  fix w w' :: "'u world" and path st b r fd cap bs
  assume "granted_ok slack w"
  then have ok: "world_ok slack w" "memory_granted w" by (simp_all add: granted_ok_def)
  show "\<exists>t. w_clock w = Some t \<and> sane_clock t" "w_slack w = slack" using ok posix.clock_works posix.slack_fixed by blast+
  show "granted_ok slack (close_file w fd)"
    using ok posix.close_keeps [OF ok(1)] by (simp add: granted_ok_def memory_granted_def close_file_def)
  show "sane_clock (st_mtime st) \<and> st_size st < 10 ^ 20" if "stat_path w path = Some st"
    using posix.stat_sane [OF ok(1) that] .
  show "granted_ok slack w'" if "malloc_ok w = (b, w')"
    using posix.malloc_keeps [OF ok(1) that] malloc_keeps_granted [OF ok(2) that] by (simp add: granted_ok_def)
  show "granted_ok slack w'" if "open_file w path = (r, w')"
    using that ok(2) posix.open_keeps [OF ok(1) that]
    by (auto simp: granted_ok_def memory_granted_def open_file_def Let_def split: option.splits if_splits)
  show "granted_ok slack w'" if "read_file w fd cap = (bs, w')"
    using that ok(2) posix.read_keeps [OF ok(1) that]
    by (auto simp: granted_ok_def memory_granted_def read_file_def split: option.splits if_splits list.splits)
qed

subsection \<open>The registry\<close>

text \<open>A dynamic resident entry needs what \<open>entry_ok\<close> says of the allocator.\<close>

definition mode_ok :: "nat \<Rightarrow> serve_mode \<Rightarrow> bool" where
  "mode_ok slack mode \<longleftrightarrow> (mode = SERVE_DYN_RESIDENT \<longrightarrow> 20 < slack)"

lemma loaded_weaken:
  "\<exists>e w'. r = Some (e, w') \<and> ok w' \<and> (case e of Some e \<Rightarrow> P e | None \<Rightarrow> True) \<Longrightarrow> (\<And>e. P e \<Longrightarrow> Q e)
   \<Longrightarrow> \<exists>e w'. r = Some (e, w') \<and> ok w' \<and> (case e of Some e \<Rightarrow> Q e | None \<Rightarrow> True)"
  by (elim exE, rename_tac e w', case_tac e) auto

lemma register_entry_ok:
  assumes "registry_ok cfg slack (Some d)" "case e of Some e \<Rightarrow> entry_ok slack e | None \<Rightarrow> True" "granted_ok slack w"
  shows "\<exists>n d' w'. register_entry cfg d url (e, w) = Some (n, d', w') \<and> registry_ok cfg slack (Some d') \<and> granted_ok slack w'"
proof (cases e)
  case None
  then show ?thesis using assms(1,3) by (simp add: register_entry_def)
next
  case (Some v)
  have inv: "dict_inv cfg d" "memory_granted w" using assms(1,3) by (simp_all add: registry_ok_def granted_ok_def)
  obtain w' where w': "dict_insert cfg d url v w = Some (1, dict_put cfg d url v, dict_get cfg d url, w')"
    "w' = w \<or> (\<exists>wa. malloc_ok w = (True, wa) \<and> malloc_ok wa = (True, w'))"
    by (rule dict_insert_granted [OF inv])
  from w'(2) have "granted_ok slack w'" using assms(3) granted.malloc_keeps by blast
  with w'(1) show ?thesis using registry_put [OF assms(1), of v url] assms(2) by (simp add: register_entry_def Some)
qed

lemma add_file_ok:
  assumes "registry_ok cfg slack (Some d)" "granted_ok slack w" "mode_ok slack mode"
  shows "\<exists>n d' w'. content_registry_add_file cfg d path url mode w = Some (n, d', w') \<and> registry_ok cfg slack (Some d')
    \<and> granted_ok slack w'"
proof (cases "stat_path w path")
  case None
  then show ?thesis using assms by (simp add: content_registry_add_file_def)
next
  case (Some st)
  let ?load = "case mode of SERVE_STATIC_RESIDENT \<Rightarrow> content_entry_static_load w path
    | SERVE_STATIC_STREAMED \<Rightarrow> content_entry_streamed_load w path st SERVE_STATIC_STREAMED ''max-age=31536000, immutable''
    | SERVE_DYN_RESIDENT \<Rightarrow> content_entry_dynamic_load w path st
    | SERVE_DYN_STREAMED \<Rightarrow> content_entry_streamed_load w path st SERVE_DYN_STREAMED ''no-cache''"
  have "\<exists>e w'. ?load = Some (e, w') \<and> granted_ok slack w' \<and> (case e of Some e \<Rightarrow> entry_ok slack e | None \<Rightarrow> True)"
  proof (cases mode)
    case SERVE_STATIC_RESIDENT
    have "\<exists>e w'. content_entry_static_load w path = Some (e, w') \<and> granted_ok slack w' \<and> (case e of Some e \<Rightarrow> entry_ok slack e | None \<Rightarrow> True)"
      by (rule loaded_weaken [OF granted.static_load_total [OF assms(2)]]) (simp add: entry_ok_def)
    then show ?thesis by (simp add: SERVE_STATIC_RESIDENT)
  next
    case SERVE_DYN_RESIDENT
    then have slack: "20 < slack" using assms(3) by (simp add: mode_ok_def)
    have "\<exists>e w'. content_entry_dynamic_load w path st = Some (e, w') \<and> granted_ok slack w' \<and> (case e of Some e \<Rightarrow> entry_ok slack e | None \<Rightarrow> True)"
      by (rule loaded_weaken [OF granted.dynamic_load_total [OF assms(2) Some assms(2) slack]]) (simp add: entry_ok_def slack)
    then show ?thesis by (simp add: SERVE_DYN_RESIDENT)
  next
    case SERVE_STATIC_STREAMED
    have "\<exists>e w'. content_entry_streamed_load w path st SERVE_STATIC_STREAMED ''max-age=31536000, immutable'' = Some (e, w')
        \<and> granted_ok slack w' \<and> (case e of Some e \<Rightarrow> entry_ok slack e | None \<Rightarrow> True)"
      by (rule loaded_weaken [OF granted.streamed_load_total [OF assms(2) Some assms(2)]]) (simp_all add: entry_ok_def)
    then show ?thesis by (simp add: SERVE_STATIC_STREAMED)
  next
    case SERVE_DYN_STREAMED
    have "\<exists>e w'. content_entry_streamed_load w path st SERVE_DYN_STREAMED ''no-cache'' = Some (e, w')
        \<and> granted_ok slack w' \<and> (case e of Some e \<Rightarrow> entry_ok slack e | None \<Rightarrow> True)"
      by (rule loaded_weaken [OF granted.streamed_load_total [OF assms(2) Some assms(2)]]) (simp_all add: entry_ok_def)
    then show ?thesis by (simp add: SERVE_DYN_STREAMED)
  qed
  then obtain e w' where e: "?load = Some (e, w')" "granted_ok slack w'" "case e of Some e \<Rightarrow> entry_ok slack e | None \<Rightarrow> True"
    by blast
  have "content_registry_add_file cfg d path url mode w = register_entry cfg d url (e, w')"
    using e(1) by (simp add: content_registry_add_file_def Some)
  then show ?thesis using register_entry_ok [OF assms(1) e(3,2), of url] by simp
qed

lemma add_dir_loop_ok:
  assumes "registry_ok cfg slack (Some d)" "granted_ok slack w" "mode_ok slack mode"
  shows "\<exists>n d' w'. add_dir_loop cfg d dir prefix mode des f_count w = Some (n, d', w') \<and> registry_ok cfg slack (Some d')
    \<and> granted_ok slack w'"
  using assms(1,2)
proof (induction des arbitrary: d w f_count)
  case (Cons de des)
  obtain name regular where de: "de = (name, regular)" by fastforce
  let ?url = "take 511 (case prefix of Some p \<Rightarrow> p @ ''/'' @ name | None \<Rightarrow> ''/'' @ name)"
  let ?path = "take 511 (dir @ ''/'' @ name)"
  obtain n d1 w1 where 1: "content_registry_add_file cfg d ?path ?url mode w = Some (n, d1, w1)"
    "registry_ok cfg slack (Some d1)" "granted_ok slack w1"
    using add_file_ok [OF Cons.prems assms(3)] by blast
  obtain n2 d2 w2 where 2: "(if name = ''index.html'' then content_registry_add_file cfg d1 ?path ''/'' mode w1 else Some (0, d1, w1))
      = Some (n2, d2, w2)" "registry_ok cfg slack (Some d2)" "granted_ok slack w2"
    using add_file_ok [OF 1(2,3) assms(3), of ?path "''/''"] 1(2,3) by (cases "name = ''index.html''") auto
  show ?case
  proof (cases "take 1 name = ''.'' \<or> \<not> regular")
    case True
    then have "add_dir_loop cfg d dir prefix mode (de # des) f_count w = add_dir_loop cfg d dir prefix mode des f_count w"
      by (simp add: de)
    then show ?thesis using Cons.IH [OF Cons.prems] by simp
  next
    case False
    then have "add_dir_loop cfg d dir prefix mode (de # des) f_count w = add_dir_loop cfg d2 dir prefix mode des (f_count + n) w2"
      using 1(1) 2(1) by (simp add: de Let_def del: take_append append_Cons split del: if_split)
    then show ?thesis using Cons.IH [OF 2(2,3)] by simp
  qed
qed simp

lemma add_dir_ok:
  assumes "registry_ok cfg slack (Some d)" "granted_ok slack w" "mode_ok slack mode"
  shows "\<exists>n d' w'. content_registry_add_dir cfg d dir prefix mode w = Some (n, d', w') \<and> registry_ok cfg slack (Some d')
    \<and> granted_ok slack w'"
  using add_dir_loop_ok [OF assms] assms by (simp add: content_registry_add_dir_def split: option.splits)

lemma registry_create_ok:
  assumes "0 < bucket_count cfg" "granted_ok slack w" "content_registry_create cfg w = (reg, w')"
  shows "registry_ok cfg slack reg" "granted_ok slack w'" "reg = Some (replicate (bucket_count cfg) [])"
proof -
  have "malloc_ok w = (True, snd (malloc_ok w))"
    using assms(2) malloc_keeps_granted [of w] by (cases "malloc_ok w") (simp add: granted_ok_def)
  with assms(3) have r: "reg = Some (replicate (bucket_count cfg) [])" "malloc_ok w = (True, w')"
    by (simp_all add: content_registry_create_def dict_init_def split: prod.splits)
  then show "reg = Some (replicate (bucket_count cfg) [])" by simp
  show "granted_ok slack w'" by (rule granted.malloc_keeps [OF assms(2) r(2)])
  show "registry_ok cfg slack reg" using dict_inv_empty [OF assms(1)] by (simp add: r(1) registry_ok_def dict_get_empty [OF assms(1)])
qed

end
