(* ===== verification/Startup.thy ===== *)
theory Startup
  imports Listener Registration Server_Safety Example_App
begin

text \<open>
  How the server comes up: \<open>server_run\<close> of \<open>src/HttpServer.c\<close> up to its loop, and the program of
  \<open>src/examples/main.c\<close> that calls it.  The loop starts in the invariant of the slots.
\<close>

subsection \<open>server_run up to its loop\<close>

text \<open>The static client set: all bytes are zero, the rows of \<open>arena_backing\<close> lie at \<open>regions\<close>.\<close>

definition buffer_zero :: http_buffer where
  "buffer_zero = \<lparr> hb_cap = 0, hb_size = 0, hb_bytes = None \<rparr>"

definition connection_zero :: "'u connection" where
  "connection_zero = \<lparr> c_fd = 0, c_phase = CONN_READING_REQUEST, c_keep_alive = False,
     c_arena = \<lparr> ar_base = 0, ar_cap = 0, ar_used = 0 \<rparr>, c_req_mark = 0,
     c_req_buf = buffer_zero, c_resp_buf = buffer_zero, c_body_dechunked = buffer_zero,
     c_req = request_zero, c_body_start = 0, c_body_len = 0, c_body_coding = TE_NONE, c_producer = stream_zero,
     c_next_req_offset = 0, c_requests = 0, c_st = St_Send 0 \<rparr>"

definition client_set_zero :: "config \<Rightarrow> size_t list \<Rightarrow> 'u client_set" where
  "client_set_zero cfg regions = \<lparr>
     cs_polls = replicate (max_connections cfg + 1) \<lparr> pf_fd = 0, pf_events = 0, pf_revents = 0 \<rparr>,
     cs_conns = replicate (max_connections cfg + 1) connection_zero, cs_regions = regions \<rparr>"

text \<open>An exit, or the server the loop starts from; no client has a socket yet.\<close>

datatype server_exit = Usage | Invalid_Port | Duplicate_Routes | No_Address | No_Listener

definition server_run_start :: "config \<Rightarrow> socket_library \<Rightarrow> string \<Rightarrow> 'u router \<Rightarrow> 64 word \<Rightarrow> size_t list
    \<Rightarrow> 'u world \<Rightarrow> sockets \<Rightarrow> ((server_exit + 'u server) \<times> sockets) option" where
  "server_run_start cfg lib port router backlog regions w so =
     (if server_port_valid port \<noteq> 0 then Some (Inl Invalid_Port, so) else do {
        dup \<leftarrow> router_has_duplicate_routes cfg router;
        if dup then Some (Inl Duplicate_Routes, so) else
        case listener_socket_get lib port backlog so of
          (None, so) \<Rightarrow> Some (Inl No_Address, so)
        | (Some listener, so) \<Rightarrow>
            if listener = -1 then Some (Inl No_Listener, so)
            else let cs = client_set_zero cfg regions;
                polls = (cs_polls cs)[0 := \<lparr> pf_fd = listener, pf_events = POLLIN, pf_revents = 0 \<rparr>];
                polls = hd polls # map (\<lambda>p. p\<lparr>pf_fd := -1\<rparr>) (tl polls) in
              Some (Inr \<lparr> sv_clients = cs\<lparr>cs_polls := polls\<rparr>, sv_router = router, sv_sockets = [], sv_world = w \<rparr>, so)
      })"

subsection \<open>The example program\<close>

text \<open>\<open>main\<close> up to the loop of the server, with its arguments \<open>argv\<close>; the backlog is \<open>BACKLOG\<close>.\<close>

definition app_main :: "config \<Rightarrow> socket_library \<Rightarrow> string list \<Rightarrow> size_t list \<Rightarrow> 'u world \<Rightarrow> sockets
    \<Rightarrow> ((server_exit + 'u server) \<times> sockets) option" where
  "app_main cfg lib argv regions w so =
     (if length argv \<noteq> 2 then Some (Inl Usage, so) else do {
        (router, w) \<leftarrow> app_router cfg w;
        server_run_start cfg lib (argv ! 1) router 10 regions w so
      })"

subsection \<open>The start of the loop\<close>

lemma shadowed_loop_total: "registry_ok cfg slack reg \<Longrightarrow> \<exists>b. shadowed_loop cfg reg rs = Some b"
proof (induction rs)
  case (Cons r rs)
  have "\<exists>e. dict_find cfg reg (rt_path r) = Some e"
  proof (cases reg)
    case None
    then show ?thesis by (simp add: dict_find_def)
  next
    case (Some d)
    with Cons.prems show ?thesis by (simp add: registry_ok_def dict_find_get)
  qed
  then show ?case using Cons by auto
qed (rule exI [of _ False], simp)

lemma duplicate_check_total:
  assumes "registry_ok cfg slack (ro_registry router)" "ro_routes router \<noteq> []"
  obtains dup where "router_has_duplicate_routes cfg router = Some dup"
proof -
  obtain b where "shadowed_loop cfg (ro_registry router) (ro_routes router) = Some b"
    using shadowed_loop_total [OF assms(1)] by blast
  then show thesis using that assms(2) by (cases b) (auto simp: router_has_duplicate_routes_def)
qed

lemma started_inv:
  assumes "router_ok cfg slack router" "world_ok slack w" "length regions = max_connections cfg" "list_all (region_ok cfg) regions"
    "polls = \<lparr> pf_fd = l, pf_events = e, pf_revents = r \<rparr> # replicate (max_connections cfg) \<lparr> pf_fd = -1, pf_events = e', pf_revents = r' \<rparr>"
  shows "server_inv cfg slack \<lparr> sv_clients = (client_set_zero cfg regions)\<lparr>cs_polls := polls\<rparr>, sv_router = router, sv_sockets = [], sv_world = w \<rparr>"
    (is "server_inv cfg slack ?sv")
proof -
  have fd: "slot_fd ?sv i = -1" if "i \<in> {1..max_connections cfg}" for i
    using that by (cases i) (simp_all add: slot_fd_def assms(5))
  have slots: "slot_ok cfg slack ?sv i" if "i \<in> {1..max_connections cfg}" for i
  proof -
    have "regions ! (i - 1) \<in> set regions" by (rule nth_mem) (use that assms(3) in auto)
    then show ?thesis using fd [OF that] that assms(4)
      by (simp add: slot_ok_def client_set_zero_def list_all_iff del: replicate.simps)
        (simp add: connection_zero_def buffer_zero_def slot_blocks_ok_def block_ok_def)
  qed
  show ?thesis unfolding server_inv_def Let_def
    using assms(1-3,5) slots fd by (simp add: client_set_zero_def)
qed

text \<open>
  C21: what a start of the server comes to.  It leaves at the first of its checks that fails (the port, the
  routes, the address, the socket), and opens no descriptor before the checks of the port and the routes
  have passed.  Otherwise the loop starts with the descriptor of the first address of the port that could
  be bound, open and at slot 0, every client slot free, and the invariant of the slots.
  Where no address can be bound the address list is never freed, and where \<open>listen\<close> fails the bound
  descriptor stays open.
\<close>

theorem server_starts_with_free_slots:
  assumes "router_ok cfg slack router" "ro_routes router \<noteq> []" "world_ok slack w"
    "length regions = max_connections cfg" "list_all (region_ok cfg) regions"
  shows "\<exists>res so'. server_run_start cfg lib port router backlog regions w so = Some (res, so') \<and>
    (if server_port_valid port \<noteq> 0 then res = Inl Invalid_Port \<and> so' = so
     else if router_has_duplicate_routes cfg router = Some True then res = Inl Duplicate_Routes \<and> so' = so
     else case lib_getaddrinfo lib None port listener_hints of
       Inl rv \<Rightarrow> res = Inl No_Address \<and> so' = so
     | Inr ai \<Rightarrow> (case find bindable ai of
         None \<Rightarrow> res = Inl No_Listener \<and> so' = so\<lparr>so_lists := so_lists so + 1\<rparr>
       | Some p \<Rightarrow> so' = so\<lparr>so_open := ca_socket p # so_open so\<rparr> \<and>
           (if lib_listen lib (ca_socket p) (sint (ucast backlog :: 32 word)) = -1 then res = Inl No_Listener
            else \<exists>sv. res = Inr sv \<and> slot_fd sv 0 = ca_socket p \<and> (\<forall>i \<in> {1..max_connections cfg}. slot_fd sv i = -1)
              \<and> sv_router sv = router \<and> server_inv cfg slack sv)))"
proof -
  obtain dup where dup: "router_has_duplicate_routes cfg router = Some dup"
    using duplicate_check_total [OF _ assms(2)] assms(1) by (auto simp: router_ok_def)
  let ?zero = "\<lparr> pf_fd = -1, pf_events = 0, pf_revents = 0 \<rparr> :: pollfd"
  let ?sv = "\<lambda>l. \<lparr> sv_clients = (client_set_zero cfg regions)\<lparr>cs_polls := \<lparr> pf_fd = l, pf_events = POLLIN, pf_revents = 0 \<rparr>
      # replicate (max_connections cfg) ?zero\<rparr>, sv_router = router, sv_sockets = [], sv_world = w \<rparr>"
  have inv: "server_inv cfg slack (?sv l)" for l by (rule started_inv [OF assms(1,3-5) refl])
  have fds: "slot_fd (?sv l) 0 = l" "\<forall>i \<in> {1..max_connections cfg}. slot_fd (?sv l) i = -1" for l
    by (auto simp: slot_fd_def nth_Cons split: nat.split)
  have run: "server_run_start cfg lib port router backlog regions w so =
      (if server_port_valid port \<noteq> 0 then Some (Inl Invalid_Port, so)
       else if dup then Some (Inl Duplicate_Routes, so)
       else case listener_socket_get lib port backlog so of (None, so) \<Rightarrow> Some (Inl No_Address, so)
         | (Some l, so) \<Rightarrow> if l = -1 then Some (Inl No_Listener, so) else Some (Inr (?sv l), so))"
    by (simp add: server_run_start_def dup client_set_zero_def Let_def split: prod.split option.split)
  show ?thesis
  proof (cases "server_port_valid port \<noteq> 0 \<or> dup")
    case True
    then show ?thesis unfolding run dup by auto
  next
    case False
    then have ok: "server_port_valid port = 0" "\<not> dup" by simp_all
    show ?thesis
    proof (cases "lib_getaddrinfo lib None port listener_hints")
      case (Inl rv)
      then show ?thesis unfolding run dup by (simp add: ok listener_socket_get_spec)
    next
      case (Inr ai)
      show ?thesis
      proof (cases "find bindable ai")
        case None
        then show ?thesis unfolding run dup by (simp add: ok listener_socket_get_spec Inr)
      next
        case (Some p)
        have "ca_socket p \<noteq> -1" using bindable_found [OF Some] by auto
        then show ?thesis unfolding run dup using inv [of "ca_socket p"] fds [of "ca_socket p"]
          by (simp add: ok listener_socket_get_spec Inr Some)
      qed
    qed
  qed
qed

text \<open>The example program: with memory its set-up meets the hypotheses.\<close>

lemma app_router_ok:
  assumes "0 < bucket_count cfg" "granted_ok slack w"
  obtains router w' where "app_router cfg w = Some (router, w')" "router_ok cfg slack router" "world_ok slack w'"
    "ro_routes router = app_routes"
proof -
  let ?d = "replicate (bucket_count cfg) [] :: registry"
  obtain reg w1 where create: "content_registry_create cfg w = (reg, w1)" by fastforce
  note reg = registry_create_ok [OF assms(1,2) create]
  have reg_Some: "reg = Some ?d" by (rule reg(3))
  have "mode_ok slack SERVE_STATIC_STREAMED" by (simp add: mode_ok_def)
  from add_dir_ok [OF reg(1) [unfolded reg_Some] reg(2) this, of "''wwwroot''" None] obtain n d w2 where
    d: "content_registry_add_dir cfg ?d ''wwwroot'' None SERVE_STATIC_STREAMED w1 = Some (n, d, w2)"
    "registry_ok cfg slack (Some d)" "granted_ok slack w2" by blast
  show thesis
  proof (rule that)
    show "app_router cfg w = Some (\<lparr> ro_routes = app_routes, ro_registry = Some d \<rparr>, w2)"
      using d(1) by (simp add: app_router_def create reg_Some)
  qed (use d in \<open>simp_all add: router_ok_def app_routes_ok granted_ok_def\<close>)
qed

definition demo_address :: "int \<Rightarrow> int \<Rightarrow> candidate" where
  "demo_address fd b = \<lparr> ai_flags = 0, ai_family = AF_INET, ai_socktype = SOCK_STREAM, ai_protocol = 6, ai_addr = [],
     ca_socket = fd, ca_bind = b \<rparr>"

definition demo_library :: socket_library where
  "demo_library = \<lparr> lib_getaddrinfo = (\<lambda>host port hints. Inr [demo_address 3 (-1), demo_address 3 0]), lib_listen = (\<lambda>fd backlog. 0) \<rparr>"

lemma demo_regions: "length [4096, 20480, 36864, 53248 :: size_t] = max_connections esp32_config"
  "list_all (region_ok esp32_config) [4096, 20480, 36864, 53248]"
  by (simp_all add: region_ok_def conn_arena_size_def esp32_config_def)

lemma demo_lookup:
  "lib_getaddrinfo demo_library host p hints = Inr [demo_address 3 (-1), demo_address 3 0]" "lib_listen demo_library fd n = 0"
  "ca_socket (demo_address fd b) = fd" "find bindable [demo_address 3 (-1), demo_address 3 0] = Some (demo_address 3 0)"
  by (simp_all add: demo_library_def demo_address_def bindable_def)

lemma demo_port: "server_port_valid ''8080'' = 0"
  by code_simp

lemma demo_router:
  obtains router w where "app_router esp32_config demo_world = Some (router, w)" "router_ok esp32_config 0 router" "world_ok 0 w"
    "ro_routes router \<noteq> []" "router_has_duplicate_routes esp32_config router = Some False"
proof -
  have "0 < bucket_count esp32_config" "granted_ok 0 demo_world"
    using demo_conn_ok(4) by (simp_all add: granted_ok_def memory_granted_def) (simp_all add: esp32_config_def demo_world_def)
  from app_router_ok [OF this] obtain router w where
    r: "app_router esp32_config demo_world = Some (router, w)" "router_ok esp32_config 0 router" "world_ok 0 w" "ro_routes router = app_routes" .
  with that [of router w] show thesis
    by (simp add: router_has_duplicate_routes_def app_routes_def same_loop_def same_route_def)
qed

theorem server_starts_with_free_slots_witness:
  "\<exists>sv so'. app_main esp32_config demo_library [''server'', ''8080''] [4096, 20480, 36864, 53248] demo_world
       \<lparr> so_open = [0, 1, 2], so_lists = 0 \<rparr> = Some (Inr sv, so')
     \<and> so_open so' = [3, 0, 1, 2] \<and> slot_fd sv 0 = 3 \<and> slot_fd sv 4 = -1 \<and> server_inv esp32_config 0 sv"
proof -
  let ?so = "\<lparr> so_open = [0, 1, 2], so_lists = 0 \<rparr>" and ?regions = "[4096, 20480, 36864, 53248] :: size_t list"
  obtain router :: "unit router" and w where r: "app_router esp32_config demo_world = Some (router, w)" "router_ok esp32_config 0 router"
    "world_ok 0 w" "ro_routes router \<noteq> []" "router_has_duplicate_routes esp32_config router = Some False" by (rule demo_router)
  from server_starts_with_free_slots [OF r(2,4,3) demo_regions, of demo_library "''8080''" 10 ?so]
  have "\<exists>sv so'. server_run_start esp32_config demo_library ''8080'' router 10 ?regions w ?so = Some (Inr sv, so')
      \<and> so_open so' = [3, 0, 1, 2] \<and> slot_fd sv 0 = 3 \<and> slot_fd sv 4 = -1 \<and> server_inv esp32_config 0 sv"
    by (elim exE) (auto simp add: demo_port r(5) demo_lookup esp32_config_def [THEN arg_cong, of max_connections] simp del: find.simps)
  then show ?thesis by (auto simp: app_main_def r(1))
qed

end
