(* ===== verification/Server_Run.thy ===== *)
theory Server_Run
  imports Startup
begin

text \<open>
  The whole run of the server: the states its loop reaches from a start.  The invariant of the slots holds in
  all of them, and the sockets that are open are those of the slots, so no descriptor of a client is ever lost.
\<close>

subsection \<open>The states of a run\<close>

text \<open>
  A turn with what \<open>poll\<close> reports for each slot and a descriptor from \<open>accept\<close> that is not in use.  Where
  \<open>poll\<close> fails there is no next state.
\<close>

inductive server_reaches :: "config \<Rightarrow> 'u server \<Rightarrow> 'u server \<Rightarrow> bool" for cfg sv0 where
  loop_start: "server_reaches cfg sv0 sv0"
| loop_turn: "server_reaches cfg sv0 sv \<Longrightarrow> length rs = max_connections cfg + 1 \<Longrightarrow> accept_ok sv ev
    \<Longrightarrow> server_turn cfg (Some rs) ev sv = Some (Inr sv') \<Longrightarrow> server_reaches cfg sv0 sv'"

subsection \<open>Every open socket has its slot\<close>

text \<open>\<open>pending\<close> are the descriptors that are being put into a slot.\<close>

definition sockets_held :: "config \<Rightarrow> int set \<Rightarrow> 'u server \<Rightarrow> bool" where
  "sockets_held cfg pending sv \<longleftrightarrow>
     (\<forall>fd. map_of (sv_sockets sv) fd \<noteq> None \<longrightarrow> 0 < fd \<and> (fd \<in> pending \<or> (\<exists>i \<in> {1..max_connections cfg}. slot_fd sv i = fd)))"

lemma sockets_heldD:
  "sockets_held cfg pending sv \<Longrightarrow> map_of (sv_sockets sv) fd \<noteq> None \<Longrightarrow> fd \<notin> pending
     \<Longrightarrow> 0 < fd \<and> (\<exists>i \<in> {1..max_connections cfg}. slot_fd sv i = fd)"
  by (auto simp: sockets_held_def)

lemma slot_fd_update [simp]:
  "i < length (cs_polls (sv_clients sv)) \<Longrightarrow>
     slot_fd (sv\<lparr>sv_clients := cs\<lparr>cs_polls := (cs_polls (sv_clients sv))[i := p], cs_conns := conns\<rparr>\<rparr>) j
       = (if j = i then pf_fd p else slot_fd sv j)"
  by (simp add: slot_fd_def)

lemma slot_fd_sockets [simp]: "slot_fd (sv\<lparr>sv_sockets := socks\<rparr>) i = slot_fd sv i"
  by (simp add: slot_fd_def)

lemma close_socket_held: "sockets_held cfg {fd} sv \<Longrightarrow> sockets_held cfg {} (close_socket fd sv)"
  by (auto simp: sockets_held_def close_socket_def delete_conv')

lemma add_to_client_set_loop_held:
  "add_to_client_set_loop cfg fd i sv = Some sv' \<Longrightarrow> sockets_held cfg {fd} sv \<Longrightarrow> 1 \<le> i \<Longrightarrow> 0 < fd \<Longrightarrow> sockets_held cfg {} sv'"
proof (induction cfg fd i sv rule: add_to_client_set_loop.induct)
  case (1 cfg fd i sv)
  note unf = "1.prems"(1) [unfolded add_to_client_set_loop.simps [of cfg fd i sv]]
  show ?case
  proof (cases "i \<le> max_connections cfg")
    case False
    with unf close_socket_held [OF "1.prems"(2)] show ?thesis by simp
  next
    case le: True
    with unf have len: "i < length (cs_polls (sv_clients sv)) \<and> i < length (cs_conns (sv_clients sv)) \<and> i - 1 < length (cs_regions (sv_clients sv))"
      by (simp add: Let_def Option.bind_eq_Some_conv fault_simps)
    show ?thesis
    proof (cases "slot_fd sv i = -1")
      case False
      then have taken: "pf_fd (cs_polls (sv_clients sv) ! i) \<noteq> -1" by (simp add: slot_fd_def)
      with unf le len have "add_to_client_set_loop cfg fd (i + 1) sv = Some sv'" by (simp add: Let_def)
      from "1.IH" [OF le refl require_eq [OF len] taken this "1.prems"(2)] "1.prems"(3,4) show ?thesis by simp
    next
      case free: True
      with unf le len obtain c where
        sv': "sv' = sv\<lparr>sv_clients := (sv_clients sv)\<lparr>cs_polls := (cs_polls (sv_clients sv))[i := \<lparr> pf_fd = fd, pf_events = POLLIN, pf_revents = 0 \<rparr>],
            cs_conns := (cs_conns (sv_clients sv))[i := c]\<rparr>\<rparr>"
        by (auto simp: Let_def slot_fd_def Option.bind_eq_Some_conv)
      have fds: "slot_fd sv' j = (if j = i then fd else slot_fd sv j)" for j using len by (simp add: sv')
      have here: "i \<in> {1..max_connections cfg}" using le "1.prems"(3) by simp
      show ?thesis unfolding sockets_held_def
      proof (intro allI impI)
        fix k assume k: "map_of (sv_sockets sv') k \<noteq> None"
        show "0 < k \<and> (k \<in> {} \<or> (\<exists>j \<in> {1..max_connections cfg}. slot_fd sv' j = k))"
        proof (cases "k = fd")
          case True
          with here fds "1.prems"(4) show ?thesis by auto
        next
          case False
          with k sv' sockets_heldD [OF "1.prems"(2), of k] obtain j where
            j: "0 < k" "j \<in> {1..max_connections cfg}" "slot_fd sv j = k" by auto
          with free have "j \<noteq> i" by auto
          with j fds show ?thesis by auto
        qed
      qed
    qed
  qed
qed

lemma client_set_add_new_held:
  assumes "client_set_add_new cfg ev sv = Some sv'" "sockets_held cfg {} sv" "accept_ok sv ev"
  shows "sockets_held cfg {} sv'"
proof (cases ev)
  case Accept_Fails
  with assms show ?thesis by (simp add: client_set_add_new_def)
next
  case (Accepted fd nonblocking net)
  let ?sv = "sv\<lparr>sv_sockets := AList.update fd net (sv_sockets sv)\<rparr>"
  have fd: "0 < fd" using assms(3) Accepted by (simp add: accept_ok_def)
  have held: "sockets_held cfg {fd} ?sv" using assms(2) fd by (auto simp: sockets_held_def update_conv')
  show ?thesis
  proof (cases nonblocking)
    case False
    with assms(1) close_socket_held [OF held] show ?thesis by (simp add: client_set_add_new_def Accepted)
  next
    case True
    with assms(1) have "add_to_client_set_loop cfg fd 1 ?sv = Some sv'"
      by (simp add: client_set_add_new_def Accepted add_to_client_set_def)
    from add_to_client_set_loop_held [OF this held _ fd] show ?thesis by simp
  qed
qed

lemma server_admit_held:
  assumes "server_admit cfg rs ev sv = Some sv'" "sockets_held cfg {} sv" "accept_ok sv ev"
    "length rs = max_connections cfg + 1" "length (cs_polls (sv_clients sv)) = max_connections cfg + 1"
  shows "sockets_held cfg {} sv'"
proof -
  let ?sv = "on_clients (store_revents rs) sv"
  have "slot_fd ?sv i = slot_fd sv i" if "i \<in> {1..max_connections cfg}" for i
    using that assms(4,5) by (simp add: slot_fd_def store_revents_def)
  with assms(2) have held: "sockets_held cfg {} ?sv" by (auto simp: sockets_held_def)
  have "accept_ok ?sv ev" using assms(3) by (simp add: accept_ok_def split: accept_event.splits)
  with client_set_add_new_held [OF _ held, of ev sv'] held assms(1) show ?thesis
    by (auto simp: server_admit_def Let_def Option.bind_eq_Some_conv split: if_splits)
qed

lemma connection_close_held:
  assumes "connection_close i sv = Some sv'" "sockets_held cfg {} sv" "i < length (cs_polls (sv_clients sv))"
  shows "sockets_held cfg {} sv'"
proof -
  let ?sv = "on_clients (\<lambda>cs. cs\<lparr>cs_polls := (cs_polls cs)[i := (cs_polls cs ! i)\<lparr>pf_fd := -1\<rparr>]\<rparr>) (close_socket (slot_fd sv i) sv)"
  have sv': "sv' = ?sv"
    using assms(1,3) by (auto simp: connection_close_def client_set_delete_def close_socket_def slot_fd_def Option.bind_eq_Some_conv Let_def fault_simps)
  have fds: "slot_fd ?sv j = (if j = i then -1 else slot_fd sv j)" for j
    using assms(3) by (simp add: slot_fd_def close_socket_def)
  have socks: "map_of (sv_sockets ?sv) k = (if k = slot_fd sv i then None else map_of (sv_sockets sv) k)" for k
    by (simp add: close_socket_def delete_conv')
  show ?thesis unfolding sv' sockets_held_def
  proof (intro allI impI)
    fix k assume "map_of (sv_sockets ?sv) k \<noteq> None"
    then have k: "map_of (sv_sockets sv) k \<noteq> None" "k \<noteq> slot_fd sv i" unfolding socks by (auto split: if_splits)
    with sockets_heldD [OF assms(2) k(1)] obtain j where j: "0 < k" "j \<in> {1..max_connections cfg}" "slot_fd sv j = k" by auto
    with k(2) have "j \<noteq> i" by auto
    with j show "0 < k \<and> (k \<in> {} \<or> (\<exists>j \<in> {1..max_connections cfg}. slot_fd ?sv j = k))" unfolding fds by auto
  qed
qed

lemma slot_process_held:
  assumes "slot_process cfg i sv = Some sv'" "sockets_held cfg {} sv" "i < length (cs_polls (sv_clients sv))"
  shows "sockets_held cfg {} sv'"
proof -
  let ?fd = "c_fd (cs_conns (sv_clients sv) ! i)"
  let ?sv = "\<lambda>ev s. on_clients (\<lambda>cs. cs\<lparr>cs_polls := (cs_polls cs)[i := (cs_polls cs ! i)\<lparr>pf_events := ev\<rparr>]\<rparr>) (slot_store i ?fd s sv)"
  from assms(1) obtain net ev s where r: "map_of (sv_sockets sv) ?fd = Some net"
    "(if c_phase (sy_conn s) = CONN_CLOSED then connection_close i (?sv ev s) else Some (?sv ev s)) = Some sv'"
    unfolding slot_process_def Let_def by (auto simp: Option.bind_eq_Some_conv)
  have fds: "slot_fd (?sv ev s) j = slot_fd sv j" for j
    using assms(3) by (cases "j = i") (simp_all add: slot_fd_def slot_store_def)
  have socks: "map_of (sv_sockets (?sv ev s)) k \<noteq> None \<longleftrightarrow> map_of (sv_sockets sv) k \<noteq> None" for k
    using r(1) by (simp add: slot_store_def update_conv')
  have held: "sockets_held cfg {} (?sv ev s)" using assms(2) unfolding sockets_held_def socks fds .
  have len: "i < length (cs_polls (sv_clients (?sv ev s)))" using assms(3) by (simp add: slot_store_def)
  from r(2) connection_close_held [OF _ held len] held show ?thesis by (auto split: if_splits)
qed

lemma slots_loop_held:
  assumes "wf_config cfg" "slots_loop cfg is sv = Some sv'" "server_inv cfg slack sv" "sockets_held cfg {} sv" "set is \<subseteq> {1..max_connections cfg}"
  shows "sockets_held cfg {} sv'"
  using assms(2-5)
proof (induction "is" arbitrary: sv)
  case (Cons i "is")
  then have i: "i \<in> {1..max_connections cfg}" by simp
  then have len: "i < length (cs_polls (sv_clients sv))" using server_invD(1) [OF Cons.prems(2)] by simp
  from Cons.prems(1) obtain sv1 where sv1: "slot_turn cfg i sv = Some sv1" "slots_loop cfg is sv1 = Some sv'"
    by (auto simp: Option.bind_eq_Some_conv)
  have "server_inv cfg slack sv1" using slot_turn_cases [OF assms(1) Cons.prems(2) i] sv1(1) by simp
  moreover have "sockets_held cfg {} sv1"
    using sv1(1) slot_process_held [OF _ Cons.prems(3) len] Cons.prems(3)
    by (auto simp: slot_turn_def Let_def Option.bind_eq_Some_conv split: if_splits)
  ultimately show ?case using Cons.IH [OF sv1(2)] Cons.prems(4) by simp
qed simp

lemma server_turn_held:
  assumes "wf_config cfg" "server_inv cfg slack sv" "length rs = max_connections cfg + 1" "accept_ok sv ev"
    "sockets_held cfg {} sv" "server_turn cfg (Some rs) ev sv = Some (Inr sv')"
  shows "server_inv cfg slack sv'" "sockets_held cfg {} sv'"
proof -
  show "server_inv cfg slack sv'" using server_turn_cases [OF assms(1-4)] assms(6) by simp
  obtain sv0 where sv0: "server_admit cfg rs ev sv = Some sv0" "server_inv cfg slack sv0"
    using server_admit_ok [OF assms(1-4)] by blast
  have held: "sockets_held cfg {} sv0"
    by (rule server_admit_held [OF sv0(1) assms(5,4,3) server_invD(1) [OF assms(2)]])
  have "slots_loop cfg [1..<max_connections cfg + 1] sv0 = Some sv'" using assms(6) sv0(1)
    by (simp add: server_turn_def Option.bind_eq_Some_conv)
  from slots_loop_held [OF assms(1) this sv0(2) held] show "sockets_held cfg {} sv'" by (simp del: upt_Suc add: subset_iff)
qed

lemma reaches_inv:
  assumes "server_reaches cfg sv0 sv" "wf_config cfg" "server_inv cfg slack sv0" "sockets_held cfg {} sv0"
  shows "server_inv cfg slack sv \<and> sockets_held cfg {} sv"
  using assms(1)
proof induction
  case loop_start
  then show ?case using assms(3,4) by simp
next
  case (loop_turn sv rs ev sv')
  then show ?case using server_turn_held [OF assms(2)] by blast
qed

lemma started_held: "sv_sockets sv = [] \<Longrightarrow> sockets_held cfg {} sv"
  by (simp add: sockets_held_def)

lemma start_inv:
  assumes "router_ok cfg slack router" "world_ok slack w" "length regions = max_connections cfg" "list_all (region_ok cfg) regions"
    "server_run_start cfg lib port router backlog regions w so = Some (Inr sv, so')"
  shows "server_inv cfg slack sv" "sv_sockets sv = []"
proof -
  from assms(5) obtain l where sv: "sv = \<lparr> sv_clients = (client_set_zero cfg regions)\<lparr>cs_polls := \<lparr> pf_fd = l, pf_events = POLLIN, pf_revents = 0 \<rparr>
      # replicate (max_connections cfg) \<lparr> pf_fd = -1, pf_events = 0, pf_revents = 0 \<rparr>\<rparr>, sv_router = router, sv_sockets = [], sv_world = w \<rparr>"
    by (auto simp: server_run_start_def client_set_zero_def Let_def Option.bind_eq_Some_conv split: if_splits option.splits prod.splits)
  then show "sv_sockets sv = []" by simp
  show "server_inv cfg slack sv" unfolding sv by (rule started_inv [OF assms(1-4) refl])
qed

text \<open>
  C5: no descriptor is lost over the life of the server.  In every state its loop reaches from a start,
  through any sequence of turns, the invariant of the slots holds and a socket is open exactly if it
  is the socket of one client slot, so at most \<open>HTTP_MAX_CONNECTIONS\<close> client sockets are ever open between
  turns.  The next turn ends the process where \<open>poll\<close> fails, and only there; where \<open>poll\<close> reports, the turn ends in
  such a state again, unless it stops at the assertion for a connection that rests while it sends
  \<open>100 Continue\<close>.
\<close>

theorem server_run_holds_its_sockets:
  assumes "wf_config cfg" "router_ok cfg slack router" "world_ok slack w"
    "length regions = max_connections cfg" "list_all (region_ok cfg) regions"
    "server_run_start cfg lib port router backlog regions w so = Some (Inr sv0, so')" "server_reaches cfg sv0 sv"
    "case polled of None \<Rightarrow> True | Some rs \<Rightarrow> length rs = max_connections cfg + 1" "accept_ok sv ev"
  shows "server_inv cfg slack sv
    \<and> (\<forall>fd. map_of (sv_sockets sv) fd \<noteq> None \<longleftrightarrow> fd \<noteq> -1 \<and> (\<exists>i \<in> {1..max_connections cfg}. slot_fd sv i = fd))
    \<and> card (dom (map_of (sv_sockets sv))) \<le> max_connections cfg
    \<and> (case polled of
         None \<Rightarrow> server_turn cfg polled ev sv = Some (Inl Poll_Failed)
       | Some rs \<Rightarrow> (case server_turn cfg polled ev sv of
             Some (Inr sv') \<Rightarrow> server_reaches cfg sv0 sv'
           | Some (Inl e) \<Rightarrow> False
           | None \<Rightarrow> \<exists>svA j sv1 net s. server_admit cfg rs ev sv = Some svA \<and> 1 \<le> j \<and> j \<le> max_connections cfg
               \<and> slots_loop cfg [1..<j] svA = Some sv1 \<and> map_of (sv_sockets sv1) (slot_fd sv1 j) = Some net
               \<and> connection_step_process cfg (slot_system j net sv1) = Some s \<and> c_phase (sy_conn s) = CONN_SENDING_100))"
proof -
  note start = start_inv [OF assms(2-6)]
  have inv: "server_inv cfg slack sv" "sockets_held cfg {} sv"
    using reaches_inv [OF assms(7,1) start(1) started_held [OF start(2)]] by simp_all
  have iff: "map_of (sv_sockets sv) fd \<noteq> None \<longleftrightarrow> fd \<noteq> -1 \<and> (\<exists>i \<in> {1..max_connections cfg}. slot_fd sv i = fd)" for fd
  proof
    show "map_of (sv_sockets sv) fd \<noteq> None \<Longrightarrow> fd \<noteq> -1 \<and> (\<exists>i \<in> {1..max_connections cfg}. slot_fd sv i = fd)"
      using sockets_heldD [OF inv(2)] by fastforce
  next
    assume "fd \<noteq> -1 \<and> (\<exists>i \<in> {1..max_connections cfg}. slot_fd sv i = fd)"
    then obtain i where "i \<in> {1..max_connections cfg}" "slot_fd sv i = fd" "fd \<noteq> -1" by blast
    with server_invD(6) [OF inv(1) this(1)] show "map_of (sv_sockets sv) fd \<noteq> None" by (auto simp: slot_ok_def Let_def)
  qed
  have "dom (map_of (sv_sockets sv)) \<subseteq> slot_fd sv ` {1..max_connections cfg}" using iff by (auto simp: dom_def)
  then have "card (dom (map_of (sv_sockets sv))) \<le> card {1..max_connections cfg}"
    by (meson card_image_le card_mono finite_atLeastAtMost finite_imageI le_trans)
  then have card: "card (dom (map_of (sv_sockets sv))) \<le> max_connections cfg" by simp
  show ?thesis
  proof (cases polled)
    case None
    with inv(1) iff card show ?thesis by (simp only: option.case server_turn_def) simp
  next
    case (Some rs)
    then have rs: "length rs = max_connections cfg + 1" using assms(8) by simp
    note next_state = loop_turn [OF assms(7) rs assms(9)]
    have turn: "case server_turn cfg (Some rs) ev sv of Some (Inr sv') \<Rightarrow> server_reaches cfg sv0 sv' | Some (Inl e) \<Rightarrow> False
      | None \<Rightarrow> \<exists>svA j sv1 net s. server_admit cfg rs ev sv = Some svA \<and> 1 \<le> j \<and> j \<le> max_connections cfg
               \<and> slots_loop cfg [1..<j] svA = Some sv1 \<and> map_of (sv_sockets sv1) (slot_fd sv1 j) = Some net
               \<and> connection_step_process cfg (slot_system j net sv1) = Some s \<and> c_phase (sy_conn s) = CONN_SENDING_100"
      using server_turn_cases [OF assms(1) inv(1) rs assms(9)] next_state by (auto split: option.splits sum.splits)
    show ?thesis unfolding Some option.case by (intro conjI inv(1) allI iff card turn)
  qed
qed

text \<open>The example program accepts a client in its first turn, and ends where its \<open>poll\<close> fails.\<close>

theorem server_run_holds_its_sockets_witness:
  "\<exists>sv so'. app_main esp32_config demo_library [''server'', ''8080''] [4096, 20480, 36864, 53248] demo_world
       \<lparr> so_open = [0, 1, 2], so_lists = 0 \<rparr> = Some (Inr sv, so')
     \<and> server_inv esp32_config 0 sv \<and> card (dom (map_of (sv_sockets sv))) \<le> max_connections esp32_config
     \<and> server_turn esp32_config None Accept_Fails sv = Some (Inl Poll_Failed)
     \<and> (case server_turn esp32_config (Some [1, 0, 0, 0, 0]) (Accepted 6 True (demo_net [])) sv of
         Some (Inr sv') \<Rightarrow> server_reaches esp32_config sv sv'
       | Some (Inl e) \<Rightarrow> False
       | None \<Rightarrow> \<exists>svA j sv1 net s. server_admit esp32_config [1, 0, 0, 0, 0] (Accepted 6 True (demo_net [])) sv = Some svA
           \<and> 1 \<le> j \<and> j \<le> max_connections esp32_config
           \<and> slots_loop esp32_config [1..<j] svA = Some sv1 \<and> map_of (sv_sockets sv1) (slot_fd sv1 j) = Some net
           \<and> connection_step_process esp32_config (slot_system j net sv1) = Some s \<and> c_phase (sy_conn s) = CONN_SENDING_100)"
proof -
  let ?so = "\<lparr> so_open = [0, 1, 2], so_lists = 0 \<rparr>" and ?regions = "[4096, 20480, 36864, 53248] :: size_t list"
  obtain router :: "unit router" and w where r: "app_router esp32_config demo_world = Some (router, w)" "router_ok esp32_config 0 router"
    "world_ok 0 w" "ro_routes router \<noteq> []" "router_has_duplicate_routes esp32_config router = Some False" by (rule demo_router)
  have "\<exists>sv so'. server_run_start esp32_config demo_library ''8080'' router 10 ?regions w ?so = Some (Inr sv, so')"
    by (simp add: server_run_start_def demo_port r(5) listener_socket_get_spec demo_lookup Let_def del: find.simps)
  then obtain sv so' where start: "server_run_start esp32_config demo_library ''8080'' router 10 ?regions w ?so = Some (Inr sv, so')" by blast
  note holds = server_run_holds_its_sockets [OF wf_esp32_config r(2,3) demo_regions start loop_start]
  have "length [1, 0, 0, 0, 0 :: 16 word] = max_connections esp32_config + 1" by (simp add: esp32_config_def)
  moreover have "accept_ok sv (Accepted 6 True (demo_net []))" using start_inv(2) [OF r(2,3) demo_regions start] by (simp add: accept_ok_def)
  ultimately have "server_inv esp32_config 0 sv \<and> card (dom (map_of (sv_sockets sv))) \<le> max_connections esp32_config
     \<and> (case server_turn esp32_config (Some [1, 0, 0, 0, 0]) (Accepted 6 True (demo_net [])) sv of
         Some (Inr sv') \<Rightarrow> server_reaches esp32_config sv sv'
       | Some (Inl e) \<Rightarrow> False
       | None \<Rightarrow> \<exists>svA j sv1 net s. server_admit esp32_config [1, 0, 0, 0, 0] (Accepted 6 True (demo_net [])) sv = Some svA
           \<and> 1 \<le> j \<and> j \<le> max_connections esp32_config
           \<and> slots_loop esp32_config [1..<j] svA = Some sv1 \<and> map_of (sv_sockets sv1) (slot_fd sv1 j) = Some net
           \<and> connection_step_process esp32_config (slot_system j net sv1) = Some s \<and> c_phase (sy_conn s) = CONN_SENDING_100)"
    using holds [of "Some [1, 0, 0, 0, 0]" "Accepted 6 True (demo_net [])"] unfolding option.case by blast
  moreover have "server_turn esp32_config None Accept_Fails sv = Some (Inl Poll_Failed)"
    using holds [of None Accept_Fails] by (simp add: accept_ok_def)
  ultimately show ?thesis using start by (intro exI [of _ sv] exI [of _ so']) (simp only: app_main_def r(1), simp)
qed

end
