(* ===== verification/Linked_Nodes.thy ===== *)
theory Linked_Nodes
  imports Http_Prelude
begin

text \<open>
  \<open>src/include/http_server/linked_node_macro.h\<close>: doubly linked lists.  The nodes of one type are a heap
  from addresses to nodes; \<open>None\<close> as a pointer is \<open>NULL\<close>.  \<open>dll\<close> says that a list of addresses is linked
  both ways; every operation is shown to do on the list what its name says.
\<close>

subsection \<open>The heap\<close>

type_synonym ptr = "nat option"

record 'a node =
  nd_value :: 'a
  nd_next :: ptr
  nd_previous :: ptr

text \<open>The nodes, the next fresh address, and what the coming calls of \<open>malloc\<close> answer (true when all is said).\<close>

record 'a heap =
  hp_nodes :: "nat \<rightharpoonup> 'a node"
  hp_fresh :: nat
  hp_mallocs :: "bool list"

definition node_at :: "'a heap \<Rightarrow> ptr \<Rightarrow> 'a node option" where
  "node_at s p = Option.bind p (hp_nodes s)"

definition node_set :: "ptr \<Rightarrow> ('a node \<Rightarrow> 'a node) \<Rightarrow> 'a heap \<Rightarrow> 'a heap option" where
  "node_set p f s = do {
     a \<leftarrow> p;
     nd \<leftarrow> hp_nodes s a;
     Some (s\<lparr>hp_nodes := (hp_nodes s)(a \<mapsto> f nd)\<rparr>)
   }"

subsection \<open>The operations\<close>

text \<open>The result of \<open>malloc\<close> is not checked: with no memory the first write is a fault.\<close>

definition node_init :: "'a \<Rightarrow> 'a heap \<Rightarrow> (ptr \<times> 'a heap) option" where
  "node_init v s = do {
     require (hp_mallocs s = [] \<or> hd (hp_mallocs s));
     Some (Some (hp_fresh s), s\<lparr>hp_nodes := (hp_nodes s)(hp_fresh s \<mapsto> \<lparr> nd_value = v, nd_next = None, nd_previous = None \<rparr>),
       hp_fresh := hp_fresh s + 1, hp_mallocs := tl (hp_mallocs s)\<rparr>)
   }"

text \<open>The result, the head afterwards, and the heap.\<close>

definition node_head_insert :: "ptr \<Rightarrow> ptr \<Rightarrow> 'a heap \<Rightarrow> (ptr \<times> ptr \<times> 'a heap) option" where
  "node_head_insert head node s = do {
     s \<leftarrow> node_set node (\<lambda>nd. nd\<lparr>nd_next := head\<rparr>) s;
     s \<leftarrow> (if head \<noteq> None then node_set head (\<lambda>nd. nd\<lparr>nd_previous := node\<rparr>) s else Some s);
     Some (node, node, s)
   }"

definition node_insert_after :: "ptr \<Rightarrow> ptr \<Rightarrow> 'a heap \<Rightarrow> (ptr \<times> 'a heap) option" where
  "node_insert_after q new s = (if q = None then Some (None, s) else do {
     nd \<leftarrow> node_at s q;
     s \<leftarrow> node_set new (\<lambda>n. n\<lparr>nd_next := nd_next nd\<rparr>) s;
     nd \<leftarrow> node_at s q;
     s \<leftarrow> (if nd_next nd \<noteq> None then node_set (nd_next nd) (\<lambda>n. n\<lparr>nd_previous := new\<rparr>) s else Some s);
     s \<leftarrow> node_set new (\<lambda>n. n\<lparr>nd_previous := q\<rparr>) s;
     s \<leftarrow> node_set q (\<lambda>n. n\<lparr>nd_next := new\<rparr>) s;
     Some (new, s)
   })"

text \<open>A loop over the nodes: \<open>None\<close> is also a loop that does not end, on a list with a cycle.\<close>

partial_function (option) node_find :: "'a heap \<Rightarrow> ptr \<Rightarrow> 'a \<Rightarrow> ('a \<Rightarrow> 'a \<Rightarrow> int) \<Rightarrow> ptr option" where
  "node_find s temporary value cmp = (if temporary = None then Some None else do {
     nd \<leftarrow> node_at s temporary;
     if cmp (nd_value nd) value = 0 then Some temporary else node_find s (nd_next nd) value cmp
   })"

text \<open>\<open>destroy\<close> may be \<open>NULL\<close>; \<open>x\<close> is what it works on.\<close>

partial_function (option) node_free_all :: "ptr \<Rightarrow> ('a \<Rightarrow> 'x \<Rightarrow> 'x) option \<Rightarrow> 'x \<Rightarrow> 'a heap \<Rightarrow> ('x \<times> 'a heap) option" where
  "node_free_all temporary destroy x s = (if temporary = None then Some (x, s) else do {
     nd \<leftarrow> node_at s temporary;
     node_free_all (nd_next nd) destroy (case destroy of None \<Rightarrow> x | Some f \<Rightarrow> f (nd_value nd) x)
       (s\<lparr>hp_nodes := (hp_nodes s)(the temporary := None)\<rparr>)
   })"

text \<open>What is printed, with \<open>show\<close> for \<open>printf\<close> with the format.\<close>

partial_function (option) node_print_loop :: "'a heap \<Rightarrow> ptr \<Rightarrow> ('a \<Rightarrow> string) \<Rightarrow> string \<Rightarrow> string option" where
  "node_print_loop s temporary fmt out = (if temporary = None then Some out else do {
     nd \<leftarrow> node_at s temporary;
     node_print_loop s (nd_next nd) fmt (out @ fmt (nd_value nd))
   })"

definition node_print :: "'a heap \<Rightarrow> ptr \<Rightarrow> ('a \<Rightarrow> string) \<Rightarrow> string option" where
  "node_print s head fmt = do {
     out \<leftarrow> node_print_loop s head fmt [];
     Some (out @ ''End!'' @ [LF])
   }"

text \<open>The nodes that are mapped lie in the heap \<open>s\<close>, the new ones in the heap \<open>u\<close>.\<close>

partial_function (option) node_map_loop :: "'a heap \<Rightarrow> ('a \<Rightarrow> 'b) \<Rightarrow> ptr \<Rightarrow> ptr \<Rightarrow> 'b heap \<Rightarrow> 'b heap option" where
  "node_map_loop s f temporary nxt u = (if temporary = None then Some u else do {
     nd \<leftarrow> node_at s temporary;
     (mapped_node, u) \<leftarrow> node_init (f (nd_value nd)) u;
     (nxt, u) \<leftarrow> node_insert_after nxt mapped_node u;
     node_map_loop s f (nd_next nd) nxt u
   })"

definition node_map :: "'a heap \<Rightarrow> ptr \<Rightarrow> ('a \<Rightarrow> 'b) \<Rightarrow> 'b heap \<Rightarrow> (ptr \<times> 'b heap) option" where
  "node_map s head f u = (if head = None then Some (None, u) else do {
     nd \<leftarrow> node_at s head;
     (node, u) \<leftarrow> node_init (f (nd_value nd)) u;
     (_, new_head, u) \<leftarrow> node_head_insert None node u;
     u \<leftarrow> node_map_loop s f (nd_next nd) new_head u;
     Some (new_head, u)
   })"

subsection \<open>Lists in the heap\<close>

text \<open>
  \<open>links s prev qs vs nxt\<close>: the nodes at \<open>qs\<close> hold \<open>vs\<close> and are linked both ways, with \<open>prev\<close> before the
  first and \<open>nxt\<close> behind the last.
\<close>

fun first_ptr :: "nat list \<Rightarrow> ptr \<Rightarrow> ptr" where
  "first_ptr [] nxt = nxt"
| "first_ptr (q # qs) nxt = Some q"

fun last_ptr :: "ptr \<Rightarrow> nat list \<Rightarrow> ptr" where
  "last_ptr prev [] = prev"
| "last_ptr prev (q # qs) = last_ptr (Some q) qs"

fun links :: "'a heap \<Rightarrow> ptr \<Rightarrow> nat list \<Rightarrow> 'a list \<Rightarrow> ptr \<Rightarrow> bool" where
  "links s prev [] [] nxt = True"
| "links s prev (q # qs) (v # vs) nxt =
     (hp_nodes s q = Some \<lparr> nd_value = v, nd_next = first_ptr qs nxt, nd_previous = prev \<rparr> \<and> links s (Some q) qs vs nxt)"
| "links s prev _ _ nxt = False"

definition dll :: "'a heap \<Rightarrow> ptr \<Rightarrow> nat list \<Rightarrow> 'a list \<Rightarrow> bool" where
  "dll s head qs vs \<longleftrightarrow> head = first_ptr qs None \<and> distinct qs \<and> links s None qs vs None"

definition heap_ok :: "'a heap \<Rightarrow> bool" where
  "heap_ok s \<longleftrightarrow> (\<forall>a. hp_nodes s a \<noteq> None \<longrightarrow> a < hp_fresh s)"

lemma first_ptr_append: "first_ptr (qs @ rs) nxt = first_ptr qs (first_ptr rs nxt)"
  by (cases qs) simp_all

lemma last_ptr_append: "last_ptr prev (qs @ rs) = last_ptr (last_ptr prev qs) rs"
  by (induction qs arbitrary: prev) simp_all

lemma links_append:
  "length qs = length vs \<Longrightarrow> links s prev (qs @ rs) (vs @ ws) nxt
     \<longleftrightarrow> links s prev qs vs (first_ptr rs nxt) \<and> links s (last_ptr prev qs) rs ws nxt"
  by (induction qs vs arbitrary: prev rule: list_induct2) (auto simp: first_ptr_append)

lemma links_length: "links s prev qs vs nxt \<Longrightarrow> length qs = length vs"
  by (induction s prev qs vs nxt rule: links.induct) auto

lemma links_frame: "(\<And>q. q \<in> set qs \<Longrightarrow> hp_nodes s' q = hp_nodes s q) \<Longrightarrow> links s' prev qs vs nxt = links s prev qs vs nxt"
  by (induction s prev qs vs nxt rule: links.induct) auto

lemma links_keep: "links s prev qs vs nxt \<Longrightarrow> (\<And>q. q \<in> set qs \<Longrightarrow> hp_nodes s' q = hp_nodes s q) \<Longrightarrow> links s' prev qs vs nxt"
  using links_frame [of qs s' s prev vs nxt] by simp

lemma links_dom: "links s prev qs vs nxt \<Longrightarrow> q \<in> set qs \<Longrightarrow> hp_nodes s q \<noteq> None"
  by (induction s prev qs vs nxt rule: links.induct) auto

lemma node_at_Some [simp]: "node_at s (Some a) = hp_nodes s a" "node_at s None = None"
  by (simp_all add: node_at_def)

lemma node_set_Some [simp]:
  "hp_nodes s a = Some nd \<Longrightarrow> node_set (Some a) f s = Some (s\<lparr>hp_nodes := (hp_nodes s)(a \<mapsto> f nd)\<rparr>)"
  by (simp add: node_set_def)

text \<open>A new node is a list of its own.\<close>

lemma node_init_dll:
  assumes "hp_mallocs s = []" "heap_ok s"
  obtains s' where "node_init v s = Some (Some (hp_fresh s), s')" "dll s' (Some (hp_fresh s)) [hp_fresh s] [v]"
    "hp_mallocs s' = []" "heap_ok s'" "hp_fresh s' = hp_fresh s + 1" "hp_nodes s (hp_fresh s) = None"
    "hp_nodes s' = (hp_nodes s)(hp_fresh s \<mapsto> \<lparr> nd_value = v, nd_next = None, nd_previous = None \<rparr>)"
proof (rule that)
  let ?s = "s\<lparr>hp_nodes := (hp_nodes s)(hp_fresh s \<mapsto> \<lparr> nd_value = v, nd_next = None, nd_previous = None \<rparr>),
       hp_fresh := hp_fresh s + 1, hp_mallocs := []\<rparr>"
  show "node_init v s = Some (Some (hp_fresh s), ?s)" using assms(1) by (simp add: node_init_def)
  show "heap_ok ?s" using assms(2) by (auto simp: heap_ok_def less_Suc_eq)
  show "hp_nodes s (hp_fresh s) = None" using assms(2) by (fastforce simp: heap_ok_def)
qed (simp_all add: dll_def)

subsection \<open>Insertion\<close>

lemma head_insert_dll:
  assumes "dll s head qs vs" "hp_nodes s a = Some \<lparr> nd_value = v, nd_next = nx, nd_previous = None \<rparr>" "a \<notin> set qs"
  obtains s' where "node_head_insert head (Some a) s = Some (Some a, Some a, s')" "dll s' (Some a) (a # qs) (v # vs)"
    "\<forall>b. b \<notin> insert a (set qs) \<longrightarrow> hp_nodes s' b = hp_nodes s b" "hp_fresh s' = hp_fresh s" "hp_mallocs s' = hp_mallocs s"
proof (cases qs)
  case Nil
  with assms show thesis
    by (intro that [of "s\<lparr>hp_nodes := (hp_nodes s)(a \<mapsto> \<lparr> nd_value = v, nd_next = None, nd_previous = None \<rparr>)\<rparr>"])
      (auto simp: dll_def node_head_insert_def neq_Nil_conv elim: links.elims)
next
  case (Cons q rs)
  with assms(1) obtain w ws where vs: "vs = w # ws" "hp_nodes s q = Some \<lparr> nd_value = w, nd_next = first_ptr rs None, nd_previous = None \<rparr>"
    "links s (Some q) rs ws None" "q \<notin> set rs" "distinct rs" "head = Some q"
    by (cases vs) (auto simp: dll_def)
  let ?s = "s\<lparr>hp_nodes := (hp_nodes s)(a \<mapsto> \<lparr> nd_value = v, nd_next = Some q, nd_previous = None \<rparr>,
      q \<mapsto> \<lparr> nd_value = w, nd_next = first_ptr rs None, nd_previous = Some a \<rparr>)\<rparr>"
  have "links ?s (Some q) rs ws None" by (rule links_keep [OF vs(3)]) (use vs(4) assms(3) Cons in auto)
  with assms vs Cons show thesis
    by (intro that [of ?s]) (auto simp: dll_def node_head_insert_def)
qed

lemma insert_after_dll:
  assumes "dll s head (qs @ q # rs) (vs @ w # ws)" "length qs = length vs"
    "hp_nodes s a = Some \<lparr> nd_value = v, nd_next = nx, nd_previous = pr \<rparr>" "a \<notin> set (qs @ q # rs)"
  obtains s' where "node_insert_after (Some q) (Some a) s = Some (Some a, s')" "dll s' head (qs @ q # a # rs) (vs @ w # v # ws)"
    "\<forall>b. b \<notin> insert a (set (qs @ q # rs)) \<longrightarrow> hp_nodes s' b = hp_nodes s b" "hp_fresh s' = hp_fresh s" "hp_mallocs s' = hp_mallocs s"
proof -
  let ?first = "first_ptr rs None"
  from assms(1,2) have h: "links s None qs vs (Some q)" "hp_nodes s q = Some \<lparr> nd_value = w, nd_next = ?first, nd_previous = last_ptr None qs \<rparr>"
    "links s (Some q) rs ws None" "distinct (qs @ q # rs)" "head = first_ptr (qs @ q # rs) None"
    by (auto simp: dll_def links_append)
  have head: "head = first_ptr (qs @ q # a # rs) None" using h(5) by (simp add: first_ptr_append)
  let ?q = "\<lparr> nd_value = w, nd_next = Some a, nd_previous = last_ptr None qs \<rparr>"
    and ?a = "\<lparr> nd_value = v, nd_next = ?first, nd_previous = Some q \<rparr>"
  show thesis
  proof (cases rs)
    case Nil
    let ?s = "s\<lparr>hp_nodes := (hp_nodes s)(a \<mapsto> ?a, q \<mapsto> ?q)\<rparr>"
    have "links ?s None qs vs (Some q)" by (rule links_keep [OF h(1)]) (use h(4) assms(4) in auto)
    moreover have "ws = []" using h(3) Nil by (cases ws) simp_all
    ultimately show thesis using Nil h(2,4) assms(2-4) head
      by (intro that [of ?s]) (auto simp: dll_def links_append node_insert_after_def)
  next
    case (Cons b bs)
    then obtain x xs where ws: "ws = x # xs" "hp_nodes s b = Some \<lparr> nd_value = x, nd_next = first_ptr bs None, nd_previous = Some q \<rparr>"
      "links s (Some b) bs xs None" using h(3) by (cases ws) auto
    let ?s = "s\<lparr>hp_nodes := (hp_nodes s)(a \<mapsto> ?a, q \<mapsto> ?q, b \<mapsto> \<lparr> nd_value = x, nd_next = first_ptr bs None, nd_previous = Some a \<rparr>)\<rparr>"
    have "links ?s None qs vs (Some q)" by (rule links_keep [OF h(1)]) (use h(4) assms(4) Cons in auto)
    moreover have "links ?s (Some b) bs xs None" by (rule links_keep [OF ws(3)]) (use h(4) assms(4) Cons in auto)
    ultimately show thesis using Cons ws h(2,4) assms(2-4) head
      by (intro that [of ?s]) (auto simp: dll_def links_append node_insert_after_def fun_upd_twist)
  qed
qed

subsection \<open>Traversals\<close>

lemma node_find_links:
  "links s prev qs vs None \<Longrightarrow> node_find s (first_ptr qs None) x cmp
     = Some (map_option fst (find (\<lambda>(q, v). cmp v x = 0) (zip qs vs)))"
proof (induction s prev qs vs "None :: ptr" rule: links.induct)
  case (1 s prev)
  show ?case by (simp add: node_find.simps)
next
  case (2 s prev q qs v vs)
  then show ?case by (subst node_find.simps) simp
qed simp_all

lemma node_free_all_links:
  "links s prev qs vs None \<Longrightarrow> distinct qs \<Longrightarrow> \<exists>s'. node_free_all (first_ptr qs None) destroy x s
     = Some (case destroy of None \<Rightarrow> x | Some f \<Rightarrow> fold f vs x, s')
     \<and> (\<forall>a. hp_nodes s' a = (if a \<in> set qs then None else hp_nodes s a))"
proof (induction qs arbitrary: s prev vs x)
  case Nil
  then show ?case by (cases vs) (simp_all add: node_free_all.simps split: option.split)
next
  case (Cons q qs)
  then obtain v ws where vs: "vs = v # ws" "hp_nodes s q = Some \<lparr> nd_value = v, nd_next = first_ptr qs None, nd_previous = prev \<rparr>"
    "links s (Some q) qs ws None" by (cases vs) auto
  let ?s = "s\<lparr>hp_nodes := (hp_nodes s)(q := None)\<rparr>" and ?x = "case destroy of None \<Rightarrow> x | Some f \<Rightarrow> f v x"
  have "links ?s (Some q) qs ws None" by (rule links_keep [OF vs(3)]) (use Cons.prems(2) in auto)
  then obtain s' where s': "node_free_all (first_ptr qs None) destroy ?x ?s = Some (case destroy of None \<Rightarrow> ?x | Some f \<Rightarrow> fold f ws ?x, s')"
    "\<forall>a. hp_nodes s' a = (if a \<in> set qs then None else hp_nodes ?s a)"
    using Cons.IH [of ?s "Some q" ws ?x] Cons.prems(2) by auto
  have "node_free_all (first_ptr (q # qs) None) destroy x s = node_free_all (first_ptr qs None) destroy ?x ?s"
    by (subst node_free_all.simps) (simp add: vs(2) split: option.split)
  with s' show ?case by (intro exI [of _ s']) (auto simp: vs(1) split: option.split)
qed

lemma node_print_loop_links:
  "links s prev qs vs None \<Longrightarrow> node_print_loop s (first_ptr qs None) fmt out = Some (out @ concat (map fmt vs))"
proof (induction s prev qs vs "None :: ptr" arbitrary: out rule: links.induct)
  case (1 s prev)
  show ?case by (simp add: node_print_loop.simps)
next
  case (2 s prev q qs v vs)
  then show ?case by (subst node_print_loop.simps) simp
qed simp_all

subsection \<open>Mapping\<close>

lemma fresh_upt: "[n..<n + length (v # vs)] = n # [n + 1..<n + 1 + length vs]"
  using upt_conv_Cons [of n "n + length (v # vs)"] by (simp del: upt_Suc)

text \<open>The copies lie at the addresses that were fresh.\<close>

lemma node_map_loop_dll:
  assumes "links s prev qs vs None" "dll u head (rs @ [r]) (ws @ [w])" "length rs = length ws" "hp_mallocs u = []" "heap_ok u"
  shows "\<exists>u'. node_map_loop s f (first_ptr qs None) (Some r) u = Some u'
     \<and> dll u' head (rs @ r # [hp_fresh u..<hp_fresh u + length vs]) (ws @ w # map f vs)
     \<and> (\<forall>a < hp_fresh u. a \<notin> set (rs @ [r]) \<longrightarrow> hp_nodes u' a = hp_nodes u a) \<and> hp_fresh u' = hp_fresh u + length vs
     \<and> hp_mallocs u' = [] \<and> heap_ok u'"
  using assms
proof (induction qs arbitrary: prev vs u rs r ws w)
  case Nil
  then have "vs = []" by (cases vs) simp_all
  with Nil show ?case by (simp add: node_map_loop.simps)
next
  case (Cons q qs)
  then obtain v vs' where vs: "vs = v # vs'" "hp_nodes s q = Some \<lparr> nd_value = v, nd_next = first_ptr qs None, nd_previous = prev \<rparr>"
    "links s (Some q) qs vs' None" by (cases vs) auto
  let ?a = "hp_fresh u"
  obtain u1 where u1: "node_init (f v) u = Some (Some ?a, u1)" "hp_mallocs u1 = []" "heap_ok u1" "hp_fresh u1 = ?a + 1"
    "hp_nodes u ?a = None" "hp_nodes u1 = (hp_nodes u)(?a \<mapsto> \<lparr> nd_value = f v, nd_next = None, nd_previous = None \<rparr>)"
    by (rule node_init_dll [OF Cons.prems(4,5), of "f v"]) blast
  have fresh: "?a \<notin> set (rs @ [r])"
    using Cons.prems(2) u1(5) links_dom [of u None "rs @ [r]" "ws @ [w]" None ?a] unfolding dll_def by auto
  have "dll u1 head (rs @ [r]) (ws @ [w])"
    using Cons.prems(2) fresh u1(6) unfolding dll_def by (auto elim!: links_keep)
  from insert_after_dll [OF this Cons.prems(3), of ?a "f v" None None] fresh u1(6) obtain u2 where
    u2: "node_insert_after (Some r) (Some ?a) u1 = Some (Some ?a, u2)" "dll u2 head (rs @ [r, ?a]) (ws @ [w, f v])"
    "\<forall>b. b \<notin> insert ?a (set (rs @ [r])) \<longrightarrow> hp_nodes u2 b = hp_nodes u1 b" "hp_fresh u2 = ?a + 1" "hp_mallocs u2 = []"
    using u1(2,4) by auto
  have "heap_ok u2" unfolding heap_ok_def
  proof (intro allI impI)
    fix b
    assume b: "hp_nodes u2 b \<noteq> None"
    show "b < hp_fresh u2"
    proof (cases "b \<in> insert ?a (set (rs @ [r]))")
      case True
      then have "hp_nodes u1 b \<noteq> None" using Cons.prems(2) u1(6) by (auto simp: dll_def dest: links_dom)
      then show ?thesis using u1(3,4) u2(4) by (auto simp: heap_ok_def)
    next
      case False
      with b u2(3) u1(3,4) u2(4) show ?thesis by (auto simp: heap_ok_def)
    qed
  qed
  from Cons.IH [OF vs(3), of u2 "rs @ [r]" ?a "ws @ [w]" "f v"] u2 this Cons.prems(3) obtain u' where
    u': "node_map_loop s f (first_ptr qs None) (Some ?a) u2 = Some u'"
      "dll u' head (rs @ r # ?a # [?a + 1..<?a + 1 + length vs']) (ws @ w # f v # map f vs')"
      "\<forall>b < ?a + 1. b \<notin> set (rs @ [r, ?a]) \<longrightarrow> hp_nodes u' b = hp_nodes u2 b" "hp_fresh u' = ?a + 1 + length vs'"
      "hp_mallocs u' = []" "heap_ok u'" by auto
  have "node_map_loop s f (first_ptr (q # qs) None) (Some r) u = Some u'"
    by (subst node_map_loop.simps) (simp add: vs(2) u1(1) u2(1) u'(1))
  moreover have "\<forall>b < ?a. b \<notin> set (rs @ [r]) \<longrightarrow> hp_nodes u' b = hp_nodes u b" using u'(3) u2(3) u1(6) by simp
  moreover have "[?a..<?a + length vs] = ?a # [?a + 1..<?a + 1 + length vs']" unfolding vs(1) by (rule fresh_upt)
  ultimately show ?case using u'(2,4-6) by (intro exI [of _ u']) (simp add: vs(1))
qed

lemma heap_ok_fresh: "heap_ok u \<Longrightarrow> hp_fresh u \<le> a \<Longrightarrow> hp_nodes u a = None"
  by (fastforce simp: heap_ok_def)

text \<open>The whole map: the new nodes are the ones allocated, in order, and no other node changes.\<close>

lemma node_map_dll:
  assumes "dll s head qs vs" "hp_mallocs u = []" "heap_ok u"
  shows "\<exists>u'. node_map s head f u = Some (first_ptr [hp_fresh u..<hp_fresh u + length vs] None, u')
      \<and> links u' None [hp_fresh u..<hp_fresh u + length vs] (map f vs) None
      \<and> (\<forall>a. a \<notin> set [hp_fresh u..<hp_fresh u + length vs] \<longrightarrow> hp_nodes u' a = hp_nodes u a)"
proof (cases qs)
  case Nil
  with assms(1) have "head = None" "vs = []" by (cases vs; simp add: dll_def)+
  then show ?thesis by (simp add: node_map_def dll_def)
next
  case (Cons q qs')
  let ?n = "hp_fresh u"
  from Cons assms(1) obtain v ws where vs: "vs = v # ws" "hp_nodes s q = Some \<lparr> nd_value = v, nd_next = first_ptr qs' None, nd_previous = None \<rparr>"
    "links s (Some q) qs' ws None" "head = Some q" by (cases vs) (auto simp: dll_def)
  obtain u1 where u1: "node_init (f v) u = Some (Some ?n, u1)" "dll u1 (Some ?n) [?n] [f v]" "hp_mallocs u1 = []" "heap_ok u1"
    "hp_fresh u1 = ?n + 1" "hp_nodes u1 = (hp_nodes u)(?n \<mapsto> \<lparr> nd_value = f v, nd_next = None, nd_previous = None \<rparr>)"
    by (rule node_init_dll [OF assms(2,3), of "f v"]) blast
  have set: "node_head_insert None (Some ?n) u1 = Some (Some ?n, Some ?n, u1)"
    using u1(6) by (simp add: node_head_insert_def fun_upd_idem)
  have "dll u1 (Some ?n) ([] @ [?n]) ([] @ [f v])" using u1(2) by simp
  from node_map_loop_dll [OF vs(3) this _ u1(3,4), of f] obtain u' where
    u': "node_map_loop s f (first_ptr qs' None) (Some ?n) u1 = Some u'" "dll u' (Some ?n) (?n # [?n + 1..<?n + 1 + length ws]) (f v # map f ws)"
    "\<forall>a < ?n + 1. a \<noteq> ?n \<longrightarrow> hp_nodes u' a = hp_nodes u1 a" "heap_ok u'" "hp_fresh u' = ?n + 1 + length ws"
    by (auto simp: u1(5))
  have upt: "[?n..<?n + length vs] = ?n # [?n + 1..<?n + 1 + length ws]" unfolding vs(1) by (rule fresh_upt)
  have "hp_nodes u' a = hp_nodes u a" if "a \<notin> set [?n..<?n + length vs]" for a
  proof (cases "a < ?n")
    case True
    then show ?thesis using u'(3) u1(6) by simp
  next
    case False
    then have "hp_fresh u' \<le> a" using that u'(5) by (simp add: vs(1))
    then have "hp_nodes u' a = None" by (rule heap_ok_fresh [OF u'(4)])
    then show ?thesis using heap_ok_fresh [OF assms(3)] False by simp
  qed
  moreover have "node_map s head f u = Some (Some ?n, u')"
    by (simp add: node_map_def vs(2,4) u1(1) set u'(1))
  ultimately show ?thesis using u'(2) unfolding upt by (simp add: vs(1) dll_def)
qed

text \<open>
  C36: the map of a list is a list of its own.  On a doubly linked list \<open>map\<close> ends without a fault when there
  is memory, and yields a doubly linked list of new nodes that holds the images in order, while every node
  that was there keeps its contents; a search then finds its first match by walking \<open>next\<close>, and
  freeing the new list calls the destructor on each value once, in order, and leaves the heap as it was.
\<close>

theorem node_map_copies_list:
  assumes "dll s head qs vs" "hp_mallocs u = []" "heap_ok u"
  shows "\<exists>head' rs u' u''. node_map s head f u = Some (head', u') \<and> dll u' head' rs (map f vs)
    \<and> (\<forall>a. hp_nodes u a \<noteq> None \<longrightarrow> a \<notin> set rs \<and> hp_nodes u' a = hp_nodes u a)
    \<and> node_find u' head' x cmp = Some (map_option fst (find (\<lambda>(r, v). cmp v x = 0) (zip rs (map f vs))))
    \<and> node_free_all head' (Some (\<lambda>v ds. ds @ [v])) [] u' = Some (map f vs, u'') \<and> hp_nodes u'' = hp_nodes u"
proof -
  let ?rs = "[hp_fresh u..<hp_fresh u + length vs]"
  obtain u' where u': "node_map s head f u = Some (first_ptr ?rs None, u')" "links u' None ?rs (map f vs) None"
    "\<forall>a. a \<notin> set ?rs \<longrightarrow> hp_nodes u' a = hp_nodes u a" using node_map_dll [OF assms, of f] by blast
  note fresh = heap_ok_fresh [OF assms(3)]
  have fold: "fold (\<lambda>v ds. ds @ [v]) ys zs = zs @ ys" for ys zs :: "'b list" by (induction ys arbitrary: zs) simp_all
  from node_free_all_links [OF u'(2), of "Some (\<lambda>v ds. ds @ [v])" "[]"] obtain u'' where
    u'': "node_free_all (first_ptr ?rs None) (Some (\<lambda>v ds. ds @ [v])) [] u' = Some (map f vs, u'')"
      "\<forall>a. hp_nodes u'' a = (if a \<in> set ?rs then None else hp_nodes u' a)" by (auto simp: fold)
  have "hp_nodes u'' a = hp_nodes u a" for a using u''(2) u'(3) fresh [of a] by (cases "a \<in> set ?rs") simp_all
  then have "hp_nodes u'' = hp_nodes u" by (rule ext)
  moreover have "hp_nodes u a \<noteq> None \<Longrightarrow> a \<notin> set ?rs" for a using fresh [of a] by auto
  moreover have "dll u' (first_ptr ?rs None) ?rs (map f vs)" using u'(2) by (simp add: dll_def)
  ultimately show ?thesis using u' u''(1) node_find_links [OF u'(2)]
    by - (rule exI [of _ "first_ptr ?rs None"], rule exI [of _ ?rs], rule exI [of _ u'], rule exI [of _ u''], simp)
qed

definition demo_nodes :: "string heap" where
  "demo_nodes = \<lparr> hp_nodes = [0 \<mapsto> \<lparr> nd_value = ''GET'', nd_next = Some 1, nd_previous = None \<rparr>,
     1 \<mapsto> \<lparr> nd_value = ''HEAD'', nd_next = None, nd_previous = Some 0 \<rparr>], hp_fresh = 2, hp_mallocs = [] \<rparr>"

definition demo_lengths :: "nat heap" where
  "demo_lengths = \<lparr> hp_nodes = [4 \<mapsto> \<lparr> nd_value = 9, nd_next = None, nd_previous = None \<rparr>], hp_fresh = 5, hp_mallocs = [] \<rparr>"

theorem node_map_copies_list_witness:
  "\<exists>head' rs u' u''. node_map demo_nodes (Some 0) length demo_lengths = Some (head', u') \<and> dll u' head' rs [3, 4]
    \<and> 4 \<notin> set rs \<and> hp_nodes u' 4 = hp_nodes demo_lengths 4 \<and> node_find u' head' 4 (\<lambda>a b. int a - int b) = Some (Some (rs ! 1))
    \<and> node_free_all head' (Some (\<lambda>v ds. ds @ [v])) [] u' = Some ([3, 4], u'') \<and> hp_nodes u'' = hp_nodes demo_lengths"
proof -
  have "dll demo_nodes (Some 0) [0, 1] [''GET'', ''HEAD'']" by (simp add: dll_def demo_nodes_def)
  moreover have "hp_mallocs demo_lengths = []" "heap_ok demo_lengths" "hp_nodes demo_lengths 4 \<noteq> None"
    by (auto simp: demo_lengths_def heap_ok_def)
  moreover have images: "map length [''GET'', ''HEAD''] = [3, 4]" by simp
  ultimately obtain head' rs u' u'' where r: "node_map demo_nodes (Some 0) length demo_lengths = Some (head', u')" "dll u' head' rs [3, 4]"
    "4 \<notin> set rs \<and> hp_nodes u' 4 = hp_nodes demo_lengths 4"
    "node_find u' head' 4 (\<lambda>a b. int a - int b) = Some (map_option fst (find (\<lambda>(r, v). int v - int 4 = 0) (zip rs [3, 4])))"
    "node_free_all head' (Some (\<lambda>v ds. ds @ [v])) [] u' = Some ([3, 4], u'')" "hp_nodes u'' = hp_nodes demo_lengths"
    using node_map_copies_list [of demo_nodes "Some 0" "[0, 1]" "[''GET'', ''HEAD'']" demo_lengths length 4 "\<lambda>a b. int a - int b",
        unfolded images] by (elim exE conjE meta_impE) blast+
  have "length rs = 2" using links_length [of u' None rs "[3, 4]" None] r(2) by (simp add: dll_def)
  then obtain a b where "rs = [a, b]" by (auto simp: length_Suc_conv numeral_2_eq_2)
  with r show ?thesis by auto
qed

end
