(* ===== verification/Life_Cycle.thy ===== *)
theory Life_Cycle
  imports Driving "HOL-Library.Sublist"
begin

text \<open>
  The life cycle of a connection as an abstract machine: its phase, how many requests it has answered, and the
  bytes it has sent.  Every run of the code is a run of this machine, at every step the union \<open>st\<close>
  holds the member the phase reads, and no run gets stuck.
\<close>

subsection \<open>The abstract machine\<close>

type_synonym stage = "conn_phase \<times> nat \<times> string"

definition stage_of :: "'u system \<Rightarrow> stage" where
  "stage_of s = (c_phase (sy_conn s), c_requests (sy_conn s), wire (sy_net s))"

definition receiving :: "conn_phase \<Rightarrow> bool" where
  "receiving p \<longleftrightarrow> p = CONN_READING_REQUEST \<or> p = CONN_READING_BODY_CL \<or> p = CONN_READING_BODY_CHUNKED"

definition answering :: "conn_phase \<Rightarrow> bool" where
  "answering p \<longleftrightarrow> p = CONN_SENDING_RESPONSE \<or> p = CONN_SENDING_RESPONSE_STREAM"

text \<open>
  A request is received, a response is built, and the response is sent; bytes leave only where an interim or a
  final response is sent.  A request counts when its response has left, and only then is the next one read.
\<close>

inductive life_step :: "config \<Rightarrow> stage \<Rightarrow> stage \<Rightarrow> bool" for cfg where
  more_input: "receiving p \<Longrightarrow> life_step cfg (p, n, out) (p, n, out)"
| peer_gone: "life_step cfg (CONN_READING_REQUEST, n, out) (CONN_CLOSED, n, out)"
| rejected: "receiving p \<Longrightarrow> life_step cfg (p, n, out) (CONN_SENDING_RESPONSE, n, out)"
| head_read: "q \<in> {CONN_READING_BODY_CL, CONN_READING_BODY_CHUNKED, CONN_BUILDING, CONN_SENDING_100}
    \<Longrightarrow> life_step cfg (CONN_READING_REQUEST, n, out) (q, n, out)"
| continuing: "q \<in> {CONN_SENDING_100, CONN_READING_BODY_CL, CONN_READING_BODY_CHUNKED, CONN_BUILDING, CONN_CLOSED}
    \<Longrightarrow> sublist bs continue_100 \<Longrightarrow> life_step cfg (CONN_SENDING_100, n, out) (q, n, out @ bs)"
| body_read: "receiving p \<Longrightarrow> p \<noteq> CONN_READING_REQUEST \<Longrightarrow> life_step cfg (p, n, out) (CONN_BUILDING, n, out)"
| built: "answering q \<Longrightarrow> life_step cfg (CONN_BUILDING, n, out) (q, n, out)"
| sending_on: "answering p \<Longrightarrow> life_step cfg (p, n, out) (p, n, out @ bs)"
| aborted: "answering p \<Longrightarrow> life_step cfg (p, n, out) (CONN_CLOSED, n, out @ bs)"
| answered: "answering p \<Longrightarrow> Suc n < max_requests cfg \<Longrightarrow> life_step cfg (p, n, out) (CONN_READING_REQUEST, Suc n, out @ bs)"
| last_answer: "answering p \<Longrightarrow> life_step cfg (p, n, out) (CONN_CLOSED, Suc n, out @ bs)"
| stays_closed: "life_step cfg (CONN_CLOSED, n, out) (CONN_CLOSED, n, out)"

inductive_simps life_step_from_closed: "life_step cfg (CONN_CLOSED, n, out) st"

text \<open>The member of the union a phase reads.\<close>

definition member_of_phase :: "conn_phase \<Rightarrow> conn_st \<Rightarrow> bool" where
  "member_of_phase p st \<longleftrightarrow> (case p of
     CONN_READING_BODY_CL \<Rightarrow> (\<exists>n. st = St_Cl n)
   | CONN_READING_BODY_CHUNKED \<Rightarrow> (\<exists>c. st = St_Chunked c)
   | CONN_SENDING_100 \<Rightarrow> (\<exists>n. st = St_Send n)
   | CONN_SENDING_RESPONSE \<Rightarrow> (\<exists>n. st = St_Send n)
   | CONN_SENDING_RESPONSE_STREAM \<Rightarrow> (\<exists>sp n. st = St_Stream sp n)
   | _ \<Rightarrow> True)"

lemma phase_ok_member: "phase_ok cfg slack p c \<Longrightarrow> member_of_phase p (c_st c)"
  by (cases p; cases "c_st c") (auto simp: phase_ok_def member_of_phase_def)

subsection \<open>Receiving a request\<close>

abbreviation so_far :: "'u system \<Rightarrow> nat \<times> string" where
  "so_far s \<equiv> (c_requests (sy_conn s), wire (sy_net s))"

lemma receiving_simps [simp, intro]:
  "receiving CONN_READING_REQUEST" "receiving CONN_READING_BODY_CL" "receiving CONN_READING_BODY_CHUNKED"
  "answering CONN_SENDING_RESPONSE" "answering CONN_SENDING_RESPONSE_STREAM"
  by (simp_all add: receiving_def answering_def)

lemma after_head_step: "p \<in> after_head \<Longrightarrow> life_step cfg (CONN_READING_REQUEST, out) (p, out)"
  by (cases out) (auto simp: after_head_def intro: life_step.intros)

lemma header_read_life:
  assumes "step_header_read cfg s = Some (p, s')"
  shows "life_step cfg (CONN_READING_REQUEST, so_far s) (p, so_far s')"
proof -
  from assms obtain res buf net where r: "conn_recv_header (c_fd (sy_conn s)) (c_req_buf (sy_conn s)) (sy_net s) = Some (res, buf, net)"
    unfolding step_header_read_def by (auto simp: Option.bind_eq_Some_conv)
  have "wire (sy_net s') = wire (sy_net s) \<and> (p = CONN_READING_REQUEST \<or> p = CONN_CLOSED \<or> p \<in> after_head)"
    using assms r conn_recv_header_keeps [OF r] unfolding step_header_read_def
    by (cases "rh_status res") (auto simp: Option.bind_eq_Some_conv dest!: after_head_next(1) head_received_next)
  then show ?thesis using step_header_read_requests [OF assms] after_head_step
    by (auto intro: life_step.intros)
qed

lemma body_cl_life:
  assumes "step_body_cl_read s = Some (p, s')"
  shows "life_step cfg (CONN_READING_BODY_CL, so_far s) (p, so_far s')"
proof -
  have "wire (sy_net s') = wire (sy_net s) \<and> (p = CONN_READING_BODY_CL \<or> p = CONN_BUILDING \<or> p = CONN_SENDING_RESPONSE)"
    using assms unfolding step_body_cl_read_def Let_def
    by (auto simp: Option.bind_eq_Some_conv split: if_splits dest!: send_error_next conn_recv_body_cl_keeps)
  then show ?thesis using step_body_cl_read_requests [OF assms] by (auto intro: life_step.intros)
qed

lemma body_chunked_life:
  assumes "step_body_chunked_read cfg s = Some (p, s')"
  shows "life_step cfg (CONN_READING_BODY_CHUNKED, so_far s) (p, so_far s')"
proof -
  from assms obtain st res buf d st' net where r: "st_chunked (c_st (sy_conn s)) = Some st"
    "conn_recv_body_chunked cfg (c_fd (sy_conn s)) (c_req_buf (sy_conn s)) (c_body_start (sy_conn s))
      (c_body_dechunked (sy_conn s)) st (sy_net s) = Some (res, buf, d, st', net)"
    unfolding step_body_chunked_read_def by (auto simp: Option.bind_eq_Some_conv)
  have "wire (sy_net s') = wire (sy_net s) \<and> (p = CONN_READING_BODY_CHUNKED \<or> p = CONN_BUILDING \<or> p = CONN_SENDING_RESPONSE)"
    using assms r conn_recv_body_chunked_keeps [OF r(2)] unfolding step_body_chunked_read_def
    by (cases "rb_status res") (auto simp: Option.bind_eq_Some_conv dest!: send_error_next)
  then show ?thesis using step_body_chunked_read_requests [OF assms] by (auto intro: life_step.intros)
qed

subsection \<open>Sending\<close>

text \<open>Whatever one send puts on the wire is a piece of the text that is sent.\<close>

lemma response_send_wire:
  assumes "response_send fd b sent net = Some (st, sent', net')"
  shows "\<exists>bs. wire net' = wire net @ bs \<and> sublist bs (case hb_bytes b of None \<Rightarrow> [] | Some m \<Rightarrow> take (hb_size b) m)"
proof -
  from assms obtain m bs where m': "hb_bytes b = Some m" "sent < hb_size b" "rd_range m sent (hb_size b - sent) = Some bs"
    unfolding response_send_def by (auto simp: Option.bind_eq_Some_conv fault_simps)
  obtain r net1 where r: "send net bs = (r, net1)" by fastforce
  have "net1 = net'" using assms m' r unfolding response_send_def
    by (cases r) (auto simp: Option.bind_eq_Some_conv fault_simps Let_def split: if_splits)
  with m' r have m: "hb_bytes b = Some m" "sent < hb_size b" "rd_range m sent (hb_size b - sent) = Some bs" "send net bs = (r, net')" by simp_all
  have bs: "bs = drop sent (take (hb_size b) m)" using m(2,3) by (auto simp: rd_range_def drop_take split: if_splits)
  have "\<exists>k. wire net' = wire net @ take k bs"
  proof (cases r)
    case (Inr e)
    with send_outcome [OF m(4)] show ?thesis by (intro exI [of _ 0]) simp
  qed (use send_outcome [OF m(4)] in blast)
  then show ?thesis
    unfolding m(1) bs by (auto intro: sublist_order.order.trans [OF sublist_take sublist_drop])
qed

lemma send_100_life:
  assumes "step_send_100 s = Some (p, s')"
  shows "life_step cfg (CONN_SENDING_100, so_far s) (p, so_far s')"
proof -
  from assms obtain sent st sent' net where r: "st_sent (c_st (sy_conn s)) = Some sent"
    "response_send (c_fd (sy_conn s)) continue_100_buf sent (sy_net s) = Some (st, sent', net)"
    unfolding step_send_100_def by (auto simp: Option.bind_eq_Some_conv)
  from response_send_wire [OF r(2)] obtain bs where bs: "wire net = wire (sy_net s) @ bs" "sublist bs continue_100"
    by (auto simp: continue_100_buf_def)
  have "wire (sy_net s') = wire net \<and> p \<in> {CONN_SENDING_100, CONN_READING_BODY_CL, CONN_READING_BODY_CHUNKED, CONN_BUILDING, CONN_CLOSED}"
    using assms r unfolding step_send_100_def by (cases st) (auto dest!: phase_body_dispatch_next)
  then show ?thesis using bs step_send_100_requests [OF assms] by (auto intro: life_step.continuing)
qed

lemma build_life:
  assumes "step_response_build cfg s = Some (p, s')"
  shows "life_step cfg (CONN_BUILDING, so_far s) (p, so_far s')"
  using step_response_build_next [OF assms] step_response_build_requests [OF assms] by (auto intro: life_step.built)

lemma request_done_life:
  assumes "request_done cfg s = Some (p, s')" "answering q" "wire (sy_net s) = out @ bs"
  shows "life_step cfg (q, c_requests (sy_conn s), out) (p, so_far s')"
proof -
  have "c_requests (sy_conn s') = c_requests (sy_conn s) + 1 \<and> sy_net s' = sy_net s
    \<and> (p = CONN_CLOSED \<or> p = CONN_READING_REQUEST \<and> c_requests (sy_conn s) + 1 < max_requests cfg)"
    using assms(1) by (auto simp: request_done_def Let_def connection_reset_def Option.bind_eq_Some_conv split: if_splits)
  then show ?thesis using assms(2,3) by (auto intro: life_step.answered life_step.last_answer simp del: append_assoc)
qed

lemma sending_lifes:
  "answering p \<Longrightarrow> \<forall>n out bs. life_step cfg (p, n, out) (p, n, out @ bs) \<and> life_step cfg (p, n, out) (CONN_CLOSED, n, out @ bs)"
  by (simp add: life_step.sending_on life_step.aborted)

lemma send_life:
  assumes "step_response_send cfg s = Some (p, s')"
  shows "life_step cfg (CONN_SENDING_RESPONSE, so_far s) (p, so_far s')"
proof -
  obtain sent st sent' net where r: "st_sent (c_st (sy_conn s)) = Some sent"
    "response_send (c_fd (sy_conn s)) (c_resp_buf (sy_conn s)) sent (sy_net s) = Some (st, sent', net)"
    using assms unfolding step_response_send_def by (auto simp: Option.bind_eq_Some_conv)
  from response_send_wire [OF r(2)] obtain bs where bs: "wire net = wire (sy_net s) @ bs" by blast
  let ?s = "(on_conn (\<lambda>c. c\<lparr>c_st := St_Send sent'\<rparr>) s)\<lparr>sy_net := net\<rparr>"
  show ?thesis
  proof (cases st)
    case SEND_OK
    with assms r have "request_done cfg ?s = Some (p, s')" by (simp add: step_response_send_def)
    from request_done_life [OF this, of CONN_SENDING_RESPONSE] bs show ?thesis by simp
  qed (use assms r bs sending_lifes [of CONN_SENDING_RESPONSE cfg] in \<open>auto simp: step_response_send_def phase_send_begin_def\<close>)
qed

lemma stream_abort_life: "stream_abort s = Some (p, s') \<Longrightarrow> p = CONN_CLOSED \<and> so_far s' = so_far s"
  using stream_abort_next [of s p s'] stream_abort_requests [of s p s'] by auto

text \<open>The turns of the stream loop: one that goes on has only sent, one that leaves ends in a step of the machine.\<close>

lemma stream_send_life:
  assumes "stream_send a b n s = Some r"
  shows "\<exists>bs. (case r of
      Inr s' \<Rightarrow> so_far s' = (c_requests (sy_conn s), wire (sy_net s) @ bs)
    | Inl (p, s') \<Rightarrow> so_far s' = (c_requests (sy_conn s), wire (sy_net s) @ bs) \<and> (p = CONN_CLOSED \<or> p = CONN_SENDING_RESPONSE_STREAM))"
proof -
  obtain st sent' net where r: "response_send (c_fd (sy_conn s)) (c_resp_buf (sy_conn s)) n (sy_net s) = Some (st, sent', net)"
    using assms unfolding stream_send_def by (auto simp: Option.bind_eq_Some_conv)
  from response_send_wire [OF r] obtain bs where bs: "wire net = wire (sy_net s) @ bs" by blast
  show ?thesis
    by (intro exI [of _ bs]) (use assms r bs in \<open>cases st; auto simp: stream_send_def stream_handle_response_def dest!: stream_abort_life\<close>)
qed

lemma stream_pull_life:
  assumes "stream_pull cfg s = Some r"
  shows "case r of Inr s' \<Rightarrow> so_far s' = so_far s | Inl (p, s') \<Rightarrow> so_far s' = so_far s \<and> p = CONN_CLOSED"
proof -
  obtain pull where pull: "st_pull (c_producer (sy_conn s)) = Some pull"
    using assms by (auto simp: stream_pull_def Let_def Option.bind_eq_Some_conv)
  obtain pulled w where w: "pull (st_ctx (c_producer (sy_conn s))) (stream_chunk_size cfg) (sy_world s) = (pulled, w)" by fastforce
  let ?s = "s\<lparr>sy_world := w\<rparr>"
  consider e where "stream_abort ?s = Some e" "r = Inl e" | f m phase where "stage_frame f m phase ?s = Some r"
    using assms pull w unfolding stream_pull_def Let_def
    by (auto simp: Option.bind_eq_Some_conv split: option.splits if_splits)
  then show ?thesis
  proof cases
    case (1 e)
    then show ?thesis by (cases e) (auto dest: stream_abort_life)
  next
    case 2
    then show ?thesis by (auto simp: stage_frame_def Let_def split: option.splits dest!: stream_abort_life)
  qed
qed

lemma stream_turn_life:
  assumes "stream_turn cfg s = Some r"
  shows "case r of
      Inr s' \<Rightarrow> \<exists>bs. so_far s' = (c_requests (sy_conn s), wire (sy_net s) @ bs)
    | Inl (p, s') \<Rightarrow> life_step cfg (CONN_SENDING_RESPONSE_STREAM, so_far s) (p, so_far s')"
proof -
  obtain phase sent where st: "c_st (sy_conn s) = St_Stream phase sent"
    using assms by (auto simp: stream_turn_def st_stream_def Option.bind_eq_Some_conv split: conn_st.splits)
  consider a b where "stream_send a b sent s = Some r" | "stream_pull cfg s = Some r"
    | p s' where "request_done cfg (stream_release s) = Some (p, s')" "r = Inl (p, s')"
    using assms st by (cases phase) (auto simp: stream_turn_def st_stream_def)
  then show ?thesis
  proof cases
    case 1
    from stream_send_life [OF 1] sending_lifes [of CONN_SENDING_RESPONSE_STREAM cfg] show ?thesis
      by (auto split: sum.splits)
  next
    case 2
    from stream_pull_life [OF 2] life_step.aborted [of CONN_SENDING_RESPONSE_STREAM cfg "c_requests (sy_conn s)" "wire (sy_net s)" "[]"]
    show ?thesis by (auto split: sum.splits)
  next
    case 3
    from request_done_life [OF 3(1), of CONN_SENDING_RESPONSE_STREAM "wire (sy_net s)" "[]"] show ?thesis by (simp add: 3(2))
  qed
qed

text \<open>What was sent before the step comes first on the wire.\<close>

lemma life_step_send_first:
  assumes "life_step cfg (CONN_SENDING_RESPONSE_STREAM, n, out @ bs) st"
  shows "life_step cfg (CONN_SENDING_RESPONSE_STREAM, n, out) st"
  using assms
  by (cases rule: life_step.cases) (auto simp: receiving_def intro: life_step.sending_on life_step.aborted life_step.answered life_step.last_answer)

lemma stream_life:
  "step_response_send_stream cfg s = Some (p, s') \<Longrightarrow> life_step cfg (CONN_SENDING_RESPONSE_STREAM, so_far s) (p, so_far s')"
proof (induction cfg s rule: step_response_send_stream.induct)
  case (1 cfg s)
  obtain t where t: "stream_turn cfg s = Some t"
    using "1.prems"(1) by (subst (asm) step_response_send_stream.simps) (auto simp: Option.bind_eq_Some_conv)
  show ?case
  proof (cases t)
    case (Inl r)
    with "1.prems" t have "r = (p, s')" by (subst (asm) step_response_send_stream.simps) simp
    with stream_turn_life [OF t] Inl show ?thesis by simp
  next
    case (Inr s1)
    with "1.prems" t have "step_response_send_stream cfg s1 = Some (p, s')" by (subst (asm) step_response_send_stream.simps) simp
    from "1.IH" [OF t Inr this] stream_turn_life [OF t] Inr show ?thesis by (auto dest: life_step_send_first)
  qed
qed

subsection \<open>Every run is a run of the machine\<close>

lemma conn_step_life:
  assumes "conn_step cfg s = Some s'"
  shows "life_step cfg (stage_of s) (stage_of s')"
proof -
  let ?p = "c_phase (sy_conn s)"
  obtain p s1 where s': "s' = on_conn (\<lambda>c. c\<lparr>c_phase := p\<rparr>) s1"
    and step: "(case ?p of
        CONN_READING_REQUEST \<Rightarrow> step_header_read cfg s
      | CONN_SENDING_100 \<Rightarrow> step_send_100 s
      | CONN_READING_BODY_CL \<Rightarrow> step_body_cl_read s
      | CONN_READING_BODY_CHUNKED \<Rightarrow> step_body_chunked_read cfg s
      | CONN_BUILDING \<Rightarrow> step_response_build cfg s
      | CONN_SENDING_RESPONSE \<Rightarrow> step_response_send cfg s
      | CONN_SENDING_RESPONSE_STREAM \<Rightarrow> step_response_send_stream cfg s
      | CONN_CLOSED \<Rightarrow> Some (CONN_CLOSED, s)) = Some (p, s1)"
    using assms unfolding conn_step_def by (auto simp: Option.bind_eq_Some_conv)
  have "life_step cfg (?p, so_far s) (p, so_far s1)"
    using step by (cases ?p) (simp_all add: header_read_life send_100_life body_cl_life body_chunked_life build_life send_life stream_life
        life_step.stays_closed)
  then show ?thesis by (simp add: s' stage_of_def)
qed

lemma conn_steps_life: "conn_steps cfg k s = Some s' \<Longrightarrow> (life_step cfg)\<^sup>*\<^sup>* (stage_of s) (stage_of s')"
proof (induction k arbitrary: s)
  case (Suc k)
  then obtain s1 where "conn_step cfg s = Some s1" "conn_steps cfg k s1 = Some s'" by (auto simp: Option.bind_eq_Some_conv)
  with Suc.IH [of s1] conn_step_life [of cfg s s1] show ?case by (auto intro: converse_rtranclp_into_rtranclp)
qed simp

text \<open>In the machine bytes are only added, and requests are counted up to the limit.\<close>

lemma life_step_grows: "life_step cfg (p, n, out) (p', n', out') \<Longrightarrow> n \<le> n' \<and> prefix out out'"
  by (cases rule: life_step.cases) auto

lemma life_steps_grow:
  assumes "(life_step cfg)\<^sup>*\<^sup>* st st'"
  shows "fst (snd st) \<le> fst (snd st') \<and> prefix (snd (snd st)) (snd (snd st'))"
  using assms
proof induction
  case (step st1 st2)
  obtain p n out p' n' out' where "st1 = (p, n, out)" "st2 = (p', n', out')" by (metis prod_cases3)
  with step.IH life_step_grows [of cfg p n out p' n' out'] step.hyps(2) show ?case by (auto intro: prefix_order.trans)
qed simp

text \<open>
  C4: a connection follows its life cycle.  From every state of the invariant, a run of any number of steps
  exists; seen as phase, count of answered requests and bytes sent it is a run of \<open>life_step\<close>: a request is
  received, then answered, bytes are put on the wire only while an interim or a final response is being sent, a
  request counts when its response has left, and only then is the next one read.  Where it stops, the union
  \<open>st\<close> holds the member the phase reads, so the next step exists as well; a closed connection stays as it is.
\<close>

theorem connection_follows_life_cycle:
  assumes "wf_config cfg" "conn_inv cfg slack fd s"
  shows "\<exists>s' s''. conn_steps cfg k s = Some s' \<and> (life_step cfg)\<^sup>*\<^sup>* (stage_of s) (stage_of s')
    \<and> member_of_phase (c_phase (sy_conn s')) (c_st (sy_conn s'))
    \<and> conn_step cfg s' = Some s'' \<and> life_step cfg (stage_of s') (stage_of s'')
    \<and> (c_phase (sy_conn s') = CONN_CLOSED \<longrightarrow> stage_of s'' = stage_of s') \<and> c_requests (sy_conn s) \<le> c_requests (sy_conn s') \<and> prefix (wire (sy_net s)) (wire (sy_net s'))"
proof -
  obtain s' where s': "conn_steps cfg k s = Some s'" "conn_inv cfg slack fd s'" using conn_steps_ok [OF assms] by blast
  obtain s'' where s'': "conn_step cfg s' = Some s''" using conn_step_ok [OF assms(1) s'(2)] by blast
  have "member_of_phase (c_phase (sy_conn s')) (c_st (sy_conn s'))"
    using s'(2) phase_ok_member by (auto simp: conn_inv_def)
  moreover have "stage_of s'' = stage_of s'" if "c_phase (sy_conn s') = CONN_CLOSED"
    using conn_step_life [OF s''] that by (simp add: stage_of_def [of s'] life_step_from_closed receiving_def answering_def)
  ultimately show ?thesis using s'(1) s'' conn_steps_life [OF s'(1)] conn_step_life [OF s''] life_steps_grow [OF conn_steps_life [OF s'(1)]]
    by (auto simp: stage_of_def)
qed

theorem connection_follows_life_cycle_witness:
  "\<exists>s' s''. conn_steps esp32_config 3 (demo_system [Recv_Data ''PUT /submit HTTP/1.1''] [Send_Room 9]) = Some s'
    \<and> (life_step esp32_config)\<^sup>*\<^sup>* (CONN_READING_REQUEST, 0, []) (stage_of s')
    \<and> conn_step esp32_config s' = Some s'' \<and> life_step esp32_config (stage_of s') (stage_of s'')"
  using connection_follows_life_cycle [OF wf_esp32_config demo_system_inv, of 3 "[Recv_Data ''PUT /submit HTTP/1.1'']" "[Send_Room 9]"]
  by (auto simp: stage_of_def demo_system_def demo_conn_def)

subsection \<open>How many requests are answered\<close>

text \<open>
  A run with the phases before and after each of its steps.  Between two steps the environment and the other
  connections may change everything but the connection: the events of its socket, the world, the registry.
\<close>

inductive conn_run :: "config \<Rightarrow> 'u system \<Rightarrow> (conn_phase \<times> conn_phase) list \<Rightarrow> 'u system \<Rightarrow> bool" for cfg s0 where
  run_start: "conn_run cfg s0 [] s0"
| run_step: "conn_run cfg s0 log s \<Longrightarrow> sy_conn t = sy_conn s \<Longrightarrow> conn_step cfg t = Some t'
    \<Longrightarrow> conn_run cfg s0 (log @ [(c_phase (sy_conn t), c_phase (sy_conn t'))]) t'"

text \<open>The steps of a run that begin a response.\<close>

definition responses_begun :: "(conn_phase \<times> conn_phase) list \<Rightarrow> nat" where
  "responses_begun log = length (filter (\<lambda>(p, q). \<not> answering p \<and> answering q) log)"

lemma responses_begun_snoc [simp]:
  "responses_begun [] = 0"
  "responses_begun (log @ [(p, q)]) = responses_begun log + (if \<not> answering p \<and> answering q then 1 else 0)"
  by (simp_all add: responses_begun_def)

definition under_way :: "conn_phase \<Rightarrow> nat" where
  "under_way p = (if answering p then 1 else 0)"

text \<open>
  The count pays for the responses: while the connection is open every response begun has been counted, but
  for the one under way, and there is room for one more.
\<close>

lemma life_step_counts:
  assumes "life_step cfg (p, n, out) (q, n', out')" "p \<noteq> CONN_CLOSED" "n < max_requests cfg"
  shows "if q = CONN_CLOSED then n \<le> n' \<and> n' \<le> n + under_way p
    else n' < max_requests cfg \<and> n' + under_way q = n + under_way p + (if \<not> answering p \<and> answering q then 1 else 0)"
  using assms by (cases rule: life_step.cases) (auto simp: under_way_def receiving_def answering_def)

lemma conn_run_counts:
  assumes "conn_run cfg s0 log s" "c_phase (sy_conn s0) \<noteq> CONN_CLOSED" "c_requests (sy_conn s0) < max_requests cfg"
  shows "c_requests (sy_conn s0) \<le> c_requests (sy_conn s)
    \<and> (if c_phase (sy_conn s) = CONN_CLOSED
       then c_requests (sy_conn s0) + responses_begun log + under_way (c_phase (sy_conn s0)) \<le> max_requests cfg
         \<and> c_requests (sy_conn s) \<le> c_requests (sy_conn s0) + responses_begun log + under_way (c_phase (sy_conn s0))
       else c_requests (sy_conn s) < max_requests cfg
         \<and> c_requests (sy_conn s) + under_way (c_phase (sy_conn s))
             = c_requests (sy_conn s0) + responses_begun log + under_way (c_phase (sy_conn s0)))"
  using assms(1)
proof induction
  case run_start
  then show ?case using assms(2,3) by simp
next
  case (run_step log s t t')
  let ?p = "c_phase (sy_conn t)" and ?q = "c_phase (sy_conn t')"
  let ?n = "c_requests (sy_conn t)" and ?n' = "c_requests (sy_conn t')"
  have life: "life_step cfg (?p, ?n, wire (sy_net t)) (?q, ?n', wire (sy_net t'))"
    using conn_step_life [OF run_step.hyps(3)] by (simp add: stage_of_def)
  note IH = run_step.IH [folded run_step.hyps(2)]
  show ?case
  proof (cases "?p = CONN_CLOSED")
    case True
    with life have "?q = CONN_CLOSED" "?n' = ?n" by (auto simp: life_step_from_closed receiving_def answering_def)
    with IH True show ?thesis by (simp add: answering_def)
  next
    case False
    with IH have "?n < max_requests cfg" by simp
    from life_step_counts [OF life False this] IH False show ?thesis
      by (cases "?q = CONN_CLOSED") (auto simp: under_way_def answering_def split: if_splits)
  qed
qed

text \<open>
  C15: no connection answers more than \<open>HTTP_MAX_REQUESTS\<close> requests.  However a connection is driven, by any
  number of steps, whatever the client pipelines, the handlers return and the other connections do in
  between, the responses it begins after a state are at most as many as the count of that state leaves, the one under
  way included; each of them is counted at most once, and the connection is closed at the latest when its
  count has reached the limit.
\<close>

theorem requests_are_bounded:
  assumes "conn_run cfg s0 log s" "c_phase (sy_conn s0) \<noteq> CONN_CLOSED" "c_requests (sy_conn s0) < max_requests cfg"
  shows "responses_begun log + (if answering (c_phase (sy_conn s0)) then 1 else 0) \<le> max_requests cfg - c_requests (sy_conn s0)
    \<and> c_requests (sy_conn s0) \<le> c_requests (sy_conn s)
    \<and> c_requests (sy_conn s) \<le> c_requests (sy_conn s0) + responses_begun log + (if answering (c_phase (sy_conn s0)) then 1 else 0)
    \<and> (c_requests (sy_conn s) = max_requests cfg \<longrightarrow> c_phase (sy_conn s) = CONN_CLOSED)"
  using conn_run_counts [OF assms] unfolding under_way_def by (auto split: if_splits)

text \<open>A request whose answer is under way, driven on after the environment has changed.\<close>

theorem requests_are_bounded_witness:
  "\<exists>s s'. conn_step esp32_config (demo_system [Recv_Data ''PUT /submit''] []) = Some s
    \<and> conn_step esp32_config (s\<lparr>sy_net := \<lparr> inbox = [Recv_Eof], outbox = [Send_Room 9], wire = [] \<rparr>\<rparr>) = Some s'
    \<and> responses_begun [(CONN_READING_REQUEST, c_phase (sy_conn s)), (c_phase (sy_conn s), c_phase (sy_conn s'))] \<le> max_requests esp32_config
    \<and> (c_requests (sy_conn s') = max_requests esp32_config \<longrightarrow> c_phase (sy_conn s') = CONN_CLOSED)"
proof -
  let ?s0 = "demo_system [Recv_Data ''PUT /submit''] []"
  let ?t = "\<lambda>s. s\<lparr>sy_net := \<lparr> inbox = [Recv_Eof], outbox = [Send_Room 9], wire = [] \<rparr>\<rparr>"
  have start: "c_phase (sy_conn ?s0) = CONN_READING_REQUEST" "c_requests (sy_conn ?s0) = 0" "0 < max_requests esp32_config"
    by (simp_all add: demo_system_def demo_conn_def esp32_config_def)
  obtain s where s: "conn_step esp32_config ?s0 = Some s" "conn_inv esp32_config 0 5 s"
    using conn_step_ok [OF wf_esp32_config demo_system_inv] by blast
  have "conn_inv esp32_config 0 5 (?t s)" using s(2) by (simp add: conn_inv_def system_ok_def)
  then obtain s' where s': "conn_step esp32_config (?t s) = Some s'" using conn_step_ok [OF wf_esp32_config] by blast
  have "conn_run esp32_config ?s0 [(CONN_READING_REQUEST, c_phase (sy_conn s))] s"
    using run_step [OF run_start [of esp32_config ?s0] refl s(1)] start(1) by simp
  from run_step [OF this _ s'] have
    "conn_run esp32_config ?s0 [(CONN_READING_REQUEST, c_phase (sy_conn s)), (c_phase (sy_conn s), c_phase (sy_conn s'))] s'" by simp
  from requests_are_bounded [OF this] start s(1) s' show ?thesis by auto
qed

end
