(* ===== verification/Todos_App.thy ===== *)
theory Todos_App
  imports Http_Prelude
begin

text \<open>
  \<open>src/examples/todos-handler-example/sqlite3-test.c\<close>: a program that adds one row to a table.  The SQLite library is
  not part of the repository; it is an argument that answers each call from the calls made so far.
\<close>

subsection \<open>The library\<close>

definition SQLITE_OK :: int where "SQLITE_OK = 0"
definition SQLITE_DONE :: int where "SQLITE_DONE = 101"

datatype sqlite_call =
  sqlite3_open string | sqlite3_busy_timeout int | sqlite3_exec string | sqlite3_free | sqlite3_prepare_v2 string
  | sqlite3_bind_text int string | sqlite3_step | sqlite3_finalize | sqlite3_last_insert_rowid | sqlite3_close

type_synonym sqlite = "sqlite_call list \<Rightarrow> int"

text \<open>A call is added to the calls made; its answer may depend on all of them.\<close>

definition sq_call :: "sqlite \<Rightarrow> sqlite_call \<Rightarrow> sqlite_call list \<Rightarrow> int \<times> sqlite_call list" where
  "sq_call lib c calls = (lib (calls @ [c]), calls @ [c])"

subsection \<open>The program\<close>

definition todos_schema :: string where
  "todos_schema = ''CREATE TABLE IF NOT EXISTS todos ('' @ '' id INTEGER PRIMARY KEY,'' @ '' todo text NOT NULL,''
     @ '' completed BOOLEAN DEFAULT FALSE,'' @ '' created INTEGER DEFAULT (CAST(strftime('' @ [CHR 0x27] @ ''%s'' @ [CHR 0x27] @ '',''
     @ [CHR 0x27] @ ''now'' @ [CHR 0x27] @ '') AS INTEGER))'' @ '')''"

definition todos_insert :: string where
  "todos_insert = ''INSERT INTO todos(todo) VALUES(?)''"

definition db_init :: "sqlite \<Rightarrow> sqlite_call list \<Rightarrow> bool \<times> sqlite_call list" where
  "db_init lib calls = (let (rc, calls) = sq_call lib (sqlite3_open ''names.db'') calls in
     if rc \<noteq> SQLITE_OK then (False, calls)
     else let (_, calls) = sq_call lib (sqlite3_busy_timeout 5000) calls;
              (_, calls) = sq_call lib (sqlite3_exec ''PRAGMA journal_mode=WAL'') calls;
              (rc, calls) = sq_call lib (sqlite3_exec todos_schema) calls in
     if rc \<noteq> SQLITE_OK then let (_, calls) = sq_call lib sqlite3_free calls in (False, calls)
     else (True, calls))"

text \<open>A string with its length; the library reads that many bytes.\<close>

record str =
  str_p :: mem
  str_n :: nat

definition todos_add :: "sqlite \<Rightarrow> str \<Rightarrow> sqlite_call list \<Rightarrow> (bool \<times> sqlite_call list) option" where
  "todos_add lib todo calls = (let (rc, calls) = sq_call lib (sqlite3_prepare_v2 todos_insert) calls in
     if rc \<noteq> SQLITE_OK then Some (False, calls)
     else do {
       bytes \<leftarrow> rd_range (str_p todo) 0 (str_n todo);
       let (_, calls) = sq_call lib (sqlite3_bind_text 1 bytes) calls;
           (rc, calls) = sq_call lib sqlite3_step calls;
           ok = (rc = SQLITE_DONE);
           (_, calls) = sq_call lib sqlite3_finalize calls in
       Some (ok, calls)
     })"

text \<open>The exit status, the row number that is printed, and the calls.\<close>

definition todos_main :: "sqlite \<Rightarrow> (int \<times> int option \<times> sqlite_call list) option" where
  "todos_main lib = (let (ok, calls) = db_init lib [] in
     if \<not> ok then Some (1, None, calls)
     else do {
       (ok, calls) \<leftarrow> todos_add lib \<lparr> str_p = ''Test Entry'' @ [NUL], str_n = 10 \<rparr> calls;
       if \<not> ok then Some (1, None, calls)
       else let (row, calls) = sq_call lib sqlite3_last_insert_rowid calls;
                (_, calls) = sq_call lib sqlite3_close calls in
         Some (0, Some row, calls)
     })"

subsection \<open>What it does with the library\<close>

text \<open>
  The program never faults.  It exits with 0 exactly when the row has been inserted, and only then is the database
  closed; a statement that was prepared is finalized on every path.
\<close>

lemma todos_add_finalizes:
  assumes "str_n todo \<le> length (str_p todo)"
  shows "\<exists>ok calls'. todos_add lib todo calls = Some (ok, calls')
    \<and> (let prep = calls @ [sqlite3_prepare_v2 todos_insert] in
       if lib prep \<noteq> SQLITE_OK then \<not> ok \<and> calls' = prep
       else calls' = prep @ [sqlite3_bind_text 1 (take (str_n todo) (str_p todo)), sqlite3_step, sqlite3_finalize]
         \<and> (ok \<longleftrightarrow> lib (butlast calls') = SQLITE_DONE))"
  using assms by (cases "lib (calls @ [sqlite3_prepare_v2 todos_insert]) = SQLITE_OK")
    (auto simp: todos_add_def sq_call_def Let_def rd_range_def butlast_append)

lemma todos_main_total: "\<exists>status row calls. todos_main lib = Some (status, row, calls)
    \<and> (status = 0 \<longleftrightarrow> sqlite3_close \<in> set calls) \<and> (status = 0 \<longleftrightarrow> row \<noteq> None) \<and> status \<in> {0, 1}"
proof -
  obtain ok calls where init: "db_init lib [] = (ok, calls)" by fastforce
  then have no_close: "sqlite3_close \<notin> set calls"
    by (auto simp: db_init_def sq_call_def Let_def split: if_splits)
  obtain ok' calls' where add: "todos_add lib \<lparr> str_p = ''Test Entry'' @ [NUL], str_n = 10 \<rparr> calls = Some (ok', calls')"
    "sqlite3_close \<notin> set calls'"
    using todos_add_finalizes [of "\<lparr> str_p = ''Test Entry'' @ [NUL], str_n = 10 \<rparr>" lib calls] no_close
    by (fastforce simp: Let_def split: if_splits)
  show ?thesis using no_close add by (simp add: todos_main_def init sq_call_def Let_def)
qed

end
