(* ===== verification/Spec2Isabelle.thy ===== *)
theory Spec2Isabelle
  imports Streaming Answering Server_Run Linked_Nodes Life_Cycle Todos_App
begin

text \<open>
  A model of the HTTP/1.1 server under \<open>src/\<close>: a single-threaded server around \<open>poll\<close> that parses requests,
  routes them to handlers or to a registry of files, and sends buffered or streamed responses.  The properties
  are numbered C1, C2, ... in their theories.

  \<^bold>\<open>The program.\<close>  \<open>main\<close> of \<open>src/examples/main.c\<close> builds a router (routes and a content registry) and calls
  \<open>server_run\<close> (\<open>src/src/HttpServer.c\<close>), which checks the port and the routes, opens the listening socket
  (\<open>src/src/Networking.c\<close>) and loops: \<open>poll\<close>, accept a client into a free slot, and run
  \<open>connection_step_process\<close> (\<open>src/src/Connection.c\<close>) for each slot with an event.  A connection is a state machine:
  read a head, decide its framing, read the body, let a route or a registry entry answer, send the answer, and
  start over or close.  Its buffers come from one arena per slot.

  \<^bold>\<open>How C is modelled.\<close>  Bytes are HOL characters, an array is the list of its bytes, a pointer into an array is
  an index, \<open>size_t\<close> is a 64-bit word where it can wrap (\<open>Arena\<close>, \<open>Parse_Result\<close>) and a natural number where a
  bound is proved.  A C function with memory accesses has a result in \<open>option\<close>: \<open>None\<close> is an access outside its
  object, a failed \<open>assert\<close> or other undefined behaviour, so a theorem that the result is \<open>Some\<close> is a memory
  safety theorem.  The kernel, the clock, the file system and the heap (\<open>malloc\<close>, \<open>strdup\<close>) are scripts in the state
  (\<open>Net\<close>, \<open>World\<close>): every theorem quantifies over them, and says so where it needs an allocation to succeed.  The heap
  of \<open>Linked_Nodes\<close> has a script of its own.

  \<^bold>\<open>Theories.\<close>
  \<^item> \<open>Http_Prelude\<close>, \<open>Http_Config\<close>: memory, assertions, scans, and the limits of \<open>Config.h\<close> (\<open>wf_config\<close>, met by the
    POSIX and the ESP32 profile).
  \<^item> \<open>Byte_Parser\<close> (\<open>parser.c\<close>), \<open>Arena\<close> (\<open>Arena.c\<close>), \<open>Parse_Result\<close> (\<open>ParseResult.c\<close>: numbers), \<open>Request_Line\<close>,
    \<open>Headers\<close>, \<open>Request\<close> (the files of these names): each parser against a grammar or a reference, with the round
    trip from the parts of a head to its text and back.
  \<^item> \<open>Transfer_Encoding\<close>, \<open>Chunked\<close>, \<open>Readers\<close> (\<open>HttpBody.c\<close>, \<open>conn_recv_header\<close>): codings, the resumable chunk
    decoder, and the three read loops over \<open>Net\<close>; what they report depends on the bytes, not on the packets
    (locale \<open>resumable\<close>).
  \<^item> \<open>Text_Format\<close>, \<open>World\<close>, \<open>Response\<close> (\<open>HttpResponse.c\<close>), \<open>Http_Date\<close>: the C library the server prints with, the
    operating system, serialisation equal to \<open>response_text\<close> or -1, and dates.
  \<^item> \<open>Dictionary\<close> (\<open>Dictionary.c\<close>, locale \<open>finite_map\<close>: a map while there is memory, and what its unchecked
    allocations do without), \<open>Content\<close> and \<open>Router\<close> (\<open>HttpRouter.c\<close>), \<open>Linked_Nodes\<close>
    (\<open>linked_node_macro.h\<close> on a heap of nodes).
  \<^item> \<open>Connection\<close>, \<open>Networking\<close>, \<open>Listener\<close>, \<open>Server\<close>, \<open>Startup\<close>, \<open>Example_App\<close>: the state machine, the slots, the
    listening socket, a turn of the loop, the way to the loop, and the example program.
  \<^item> \<open>Serving\<close>, \<open>Registration\<close>: the contracts between a connection and its environment as locales (\<open>environment\<close>,
    \<open>byte_source\<close>, \<open>responder\<close>), interpreted on the model of the operating system, with and without a promise of memory, on
    file streams, on registry entries and on routes; registering files keeps them while there is memory.
  \<^item> \<open>Connection_Safety\<close>, \<open>Server_Safety\<close>: the invariant of a connection and of the slots, kept by every step and
    turn, with no fault but the one of \<open>Slot_Reuse\<close>.  \<open>Server_Run\<close>: the states the loop reaches from a start
    (\<open>server_reaches\<close>, by rule induction); no descriptor is lost, and only a failing \<open>poll\<close> exits the loop.
  \<^item> \<open>Head_Decision\<close>: \<open>step_header_read\<close> follows a rule book.  \<open>Driving\<close>: runs of steps end.
    \<open>Life_Cycle\<close>: an abstract machine of phases, answered requests and bytes sent; the runs of the code exist and are
    runs of it, the union \<open>st\<close> holds the member its phase reads, and a connection begins a bounded number of responses.
    \<open>Pipelining\<close>: what is kept of the bytes behind a request.  \<open>Resending\<close>, \<open>Slot_Reuse\<close>: what the code does on short
    sends, rejected requests and reused slots.  \<open>Streaming\<close>: the wire of a streamed response over all the turns it takes.
    \<open>Answering\<close>: from the bytes of a request to the bytes of its answer.
  \<^item> \<open>Todos_App\<close> (\<open>sqlite3-test.c\<close>): a program that adds a row to a table.  The SQLite library is not in the repository; it
    is an argument that answers each call from the calls made so far, and no law of it is assumed.

  \<^bold>\<open>Loops.\<close>  Loops over bytes are structural or measured.  The read loops and the loop of
  \<open>connection_step_process\<close> are total functions; their measures count the events the kernel still answers, which
  are finite in every state.  The loop of the chunk decoder has fuel, the number of its bytes and one, and
  the theorem on chunked bodies shows that it never runs out.  The endless loop of the server is a list of turns of any length;
  it ends the process where \<open>poll\<close> fails.
  The loops of \<open>Linked_Nodes\<close> may run in a cycle and are partial functions, total on \<open>dll\<close>.

  \<^bold>\<open>Hypotheses.\<close>  \<open>wf_config\<close>: positive sizes and room in the arena.  \<open>world_ok\<close>: the clock and the times of files show
  years of four digits, files are smaller than 10 to the 20.  \<open>route_ok\<close>: a handler ends, returns a well-formed
  response and gives its scratch memory back in order; a producer stays in its room.  \<open>memory_granted\<close>, only for the set-up
  of the registry: the coming allocations succeed.

  \<^bold>\<open>Not modelled.\<close>  The messages on standard output and error; \<open>errno\<close> apart from the values the code looks at;
  the test programs; the code after the endless loop, which is not reached.
\<close>

end
